(* ===== verification/Prelude.thy ===== *)
theory Prelude
  imports Main "HOL-Library.Word"
begin

text \<open>
  Shared vocabulary of the development: the machine types of the C++ sources, byte
  buffers, NUL-terminated strings and the list and word facts that the component
  theories use.

  \<^item> \<open>u8\<close>, \<open>u16\<close>, \<open>u32\<close>, \<open>u64\<close> are the fixed-width unsigned integers; arithmetic on
    them wraps.  The 64-bit build is modelled, so \<open>std::size_t\<close> and \<open>std::uintptr_t\<close>
    have 64 bits.  A \<open>std::size_t\<close> that only counts bytes of a buffer is a \<open>nat\<close>; it is
    a \<open>u64\<close> wherever the source subtracts or adds without a preceding bound.
  \<^item> \<open>wchar_t\<close> is a 16-bit code unit, as on Windows; \<open>char\<close> is a byte.
  \<^item> a pointer with a length is \<open>bytes option\<close>: \<open>None\<close> is \<open>nullptr\<close>, \<open>Some xs\<close> points to
    exactly \<open>length xs\<close> readable bytes.
  \<^item> a pointer to a NUL-terminated string is a list option as well: the terminator sits
    right behind the last element, so scanning stops at the end of the list or at an
    embedded zero, whichever comes first.
\<close>

unbundle bit_operations_syntax

section \<open>Machine types\<close>

type_synonym u8 = "8 word"
type_synonym u16 = "16 word"
type_synonym u32 = "32 word"
type_synonym u64 = "64 word"

type_synonym bytes = "u8 list"
type_synonym wchar = "16 word"
type_synonym wstr = "wchar list"

type_synonym byte_ptr = "bytes option"
type_synonym char_ptr = "bytes option"
type_synonym wchar_ptr = "wstr option"

named_theorems layout_simps \<open>positions and lengths of fields in a byte buffer\<close>
named_theorems wire_simps \<open>reading back what was written to a byte buffer\<close>

section \<open>Strings\<close>

text \<open>An ASCII literal of the source as bytes, and as UTF-16 code units.\<close>

definition ascii :: "string \<Rightarrow> bytes" where
  "ascii s = map of_char s"

definition wide :: "string \<Rightarrow> wstr" where
  "wide s = map of_char s"

text \<open>
  The bounded scan that the sources repeat for every NUL-terminated argument:
  \<^verbatim>\<open>while (n <= max && p[n] != 0) ++n;\<close> The count stops at \<open>max + 1\<close>.
\<close>

fun bounded_scan :: "nat \<Rightarrow> nat \<Rightarrow> 'a::zero list \<Rightarrow> nat" where
  "bounded_scan limit n [] = n"
| "bounded_scan limit n (c # cs) =
     (if n \<le> limit \<and> c \<noteq> 0 then bounded_scan limit (Suc n) cs else n)"

text \<open>The contents of a NUL-terminated string: everything before the first zero.\<close>

definition c_str :: "'a::zero list \<Rightarrow> 'a list" where
  "c_str xs = takeWhile (\<lambda>c. c \<noteq> 0) xs"

section \<open>Byte buffers\<close>

text \<open>\<open>std::copy\<close> of \<open>src\<close> into a buffer at an offset, one element after the other.\<close>

primrec put_bytes :: "bytes \<Rightarrow> nat \<Rightarrow> bytes \<Rightarrow> bytes" where
  "put_bytes buf off [] = buf"
| "put_bytes buf off (b # src) = put_bytes (buf[off := b]) (Suc off) src"

text \<open>The \<open>n\<close> elements of a buffer from an offset on.\<close>

definition sub_bytes :: "nat \<Rightarrow> nat \<Rightarrow> 'a list \<Rightarrow> 'a list" where
  "sub_bytes off n xs = take n (drop off xs)"

text \<open>The zeroed bytes a field is written over.\<close>

definition zeros :: "nat \<Rightarrow> bytes" where
  "zeros n = replicate n 0"

text \<open>A value as \<open>n\<close> little-endian bytes: byte \<open>i\<close> is \<open>value >> (8 * i)\<close>.\<close>

definition le_bytes :: "nat \<Rightarrow> 'a::len word \<Rightarrow> bytes" where
  "le_bytes n v = map (\<lambda>i. ucast (drop_bit (i * 8) v)) [0..<n]"

text \<open>The loop \<^verbatim>\<open>value |= input[offset + i] << (8 * i)\<close> over \<open>n\<close> bytes.\<close>

definition le_read :: "nat \<Rightarrow> bytes \<Rightarrow> nat \<Rightarrow> 'a::len word" where
  "le_read n buf off =
     fold (\<lambda>i v. v OR push_bit (i * 8) (ucast (buf ! (off + i)))) [0..<n] 0"

text \<open>All bytes zero (\<open>std::all_of ... byte == 0\<close>).\<close>

definition all_zero :: "bytes \<Rightarrow> bool" where
  "all_zero bs = list_all (\<lambda>b. b = 0) bs"

section \<open>Lemmas on strings\<close>

lemma length_ascii [simp, layout_simps]: "length (ascii s) = length s"
  by (simp add: ascii_def)

lemma length_wide [simp, layout_simps]: "length (wide s) = length s"
  by (simp add: wide_def)

lemma bounded_scan_eq:
  "n \<le> Suc limit \<Longrightarrow> bounded_scan limit n xs = min (Suc limit) (n + length (c_str xs))"
  by (induction limit n xs rule: bounded_scan.induct) (auto simp: c_str_def)

lemma bounded_scan_0: "bounded_scan limit 0 xs = min (Suc limit) (length (c_str xs))"
  using bounded_scan_eq [of 0 limit xs] by simp

lemma c_str_Nil [simp]: "c_str [] = []"
  by (simp add: c_str_def)

lemma c_str_Cons: "c_str (x # xs) = (if x = 0 then [] else x # c_str xs)"
  by (simp add: c_str_def)

lemma c_str_nonzero: "x \<in> set (c_str xs) \<Longrightarrow> x \<noteq> 0"
  unfolding c_str_def by (auto dest: set_takeWhileD)

lemma c_str_idem [simp]: "c_str (c_str xs) = c_str xs"
  by (simp add: c_str_def)

lemma c_str_id: "0 \<notin> set xs \<Longrightarrow> c_str xs = xs"
  by (auto simp: c_str_def takeWhile_eq_all_conv)

lemma take_c_str: "take (length (c_str xs)) xs = c_str xs"
  by (simp add: c_str_def takeWhile_eq_take [symmetric])

section \<open>Lemmas on byte buffers\<close>

lemma length_put_bytes [simp, layout_simps]: "length (put_bytes buf off src) = length buf"
  by (induction src arbitrary: buf off) auto

lemma nth_put_bytes:
  "i < length buf \<Longrightarrow>
   put_bytes buf off src ! i =
     (if off \<le> i \<and> i < off + length src then src ! (i - off) else buf ! i)"
proof (induction src arbitrary: buf off)
  case Nil
  then show ?case by auto
next
  case (Cons b src)
  then show ?case
    by (cases "i = off") (auto simp: nth_list_update nth_Cons' Suc_diff_le)
qed

lemma put_bytes_eq:
  "off + length src \<le> length buf \<Longrightarrow>
   put_bytes buf off src = take off buf @ src @ drop (off + length src) buf"
  by (rule nth_equalityI) (auto simp: nth_put_bytes nth_append)

lemma length_sub_bytes: "length (sub_bytes off n xs) = min n (length xs - off)"
  by (simp add: sub_bytes_def)

lemma nth_sub_bytes: "i < n \<Longrightarrow> off + i < length xs \<Longrightarrow> sub_bytes off n xs ! i = xs ! (off + i)"
  by (simp add: sub_bytes_def)

lemma sub_bytes_put_bytes_same [wire_simps]:
  "off + length src \<le> length buf \<Longrightarrow> n = length src \<Longrightarrow> sub_bytes off n (put_bytes buf off src) = src"
  by (simp add: put_bytes_eq sub_bytes_def)

lemma sub_bytes_put_bytes_other [wire_simps]:
  assumes "off + n \<le> length buf" and "off + n \<le> off' \<or> off' + length src \<le> off"
  shows "sub_bytes off n (put_bytes buf off' src) = sub_bytes off n buf"
  using assms by (intro nth_equalityI) (auto simp: length_sub_bytes nth_sub_bytes nth_put_bytes)

lemma put_bytes_other_nth [wire_simps]:
  "i < length buf \<Longrightarrow> i < off \<or> off + length src \<le> i \<Longrightarrow> put_bytes buf off src ! i = buf ! i"
  by (auto simp: nth_put_bytes)

lemma put_bytes_sub_bytes:
  "off + n \<le> length buf \<Longrightarrow> put_bytes buf off (sub_bytes off n buf) = buf"
  by (rule nth_equalityI) (auto simp: nth_put_bytes length_sub_bytes nth_sub_bytes)

lemma sub_bytes_append:
  "sub_bytes off m xs @ sub_bytes (off + m) n xs = sub_bytes off (m + n) xs"
  by (simp add: sub_bytes_def take_add add.commute)

lemma sub_bytes_0: "sub_bytes 0 n xs = take n xs"
  by (simp add: sub_bytes_def)

lemma sub_bytes_split: "a \<le> n \<Longrightarrow> sub_bytes off n xs = sub_bytes off a xs @ sub_bytes (off + a) (n - a) xs"
  using sub_bytes_append [of off a xs "n - a"] by simp

lemma fold_nth_upt:
  assumes "b \<le> length xs"
  shows "fold (\<lambda>i. f (xs ! i)) [a..<b] s = fold f (sub_bytes a (b - a) xs) s"
proof -
  have eq: "sub_bytes a (b - a) xs = map ((!) xs) [a..<b]"
    using assms by (intro nth_equalityI) (auto simp: length_sub_bytes nth_sub_bytes)
  show ?thesis unfolding eq by (simp only: fold_map comp_def)
qed

lemma sub_bytes_update_other:
  "i < off \<or> off + n \<le> i \<Longrightarrow> sub_bytes off n (xs[i := b]) = sub_bytes off n xs"
  by (rule nth_equalityI) (auto simp: length_sub_bytes nth_sub_bytes)

lemma list_update_split: "i < length f \<Longrightarrow> f[i := b] = take i f @ b # drop (Suc i) f"
  by (simp add: upd_conv_take_nth_drop)

text \<open>Filling a zeroed region from left to right.\<close>

lemma length_zeros [simp, layout_simps]: "length (zeros n) = n"
  by (simp add: zeros_def)

lemma zeros_0 [simp]: "zeros 0 = []"
  by (simp add: zeros_def)

lemma zeros_add: "zeros (m + n) = zeros m @ zeros n"
  by (simp add: zeros_def replicate_add)

lemma put_bytes_next:
  assumes "length a = off" "length src \<le> m"
  shows "put_bytes (a @ zeros m @ t) off src = (a @ src) @ zeros (m - length src) @ t"
  using assms by (simp add: put_bytes_eq zeros_def)

lemma put_byte_next:
  assumes "length a = off" "0 < m"
  shows "(a @ zeros m @ t)[off := b] = (a @ [b]) @ zeros (m - 1) @ t"
  using put_bytes_next [of a off "[b]" m t] assms by simp

lemma length_le_bytes [simp, layout_simps]: "length (le_bytes n v) = n"
  by (simp add: le_bytes_def)

lemma nth_le_bytes: "i < n \<Longrightarrow> le_bytes n v ! i = ucast (drop_bit (i * 8) v)"
  by (simp add: le_bytes_def)

section \<open>Lemmas on words\<close>

lemma unat_of_nat_less: "n < 2 ^ LENGTH('a) \<Longrightarrow> unat (of_nat n :: 'a::len word) = n"
  by (simp add: unsigned_of_nat take_bit_nat_eq_self)

lemma unat_eq_of_nat_iff: "unat w = n \<longleftrightarrow> n < 2 ^ LENGTH('a) \<and> w = of_nat n" for w :: "'a::len word"
proof
  assume "unat w = n"
  then show "n < 2 ^ LENGTH('a) \<and> w = of_nat n"
    using unsigned_less [of w, where ?'a = nat] of_nat_unat [of w] by auto
qed (simp add: unat_of_nat_less)

lemma word_1_le: "1 \<le> w \<longleftrightarrow> w \<noteq> 0" for w :: "'a::len word"
  using word_less_1 [of w] by (auto simp: not_less [symmetric])

lemma u8_two_le_one [simp]: "\<not> (2 :: u8) \<le> 1"
  by (simp add: word_le_nat_alt)

lemma xor_right_cancel: "a XOR c = b XOR c \<longleftrightarrow> a = b" for a b c :: "'a::len word"
proof
  assume "a XOR c = b XOR c"
  then have "(a XOR c) XOR c = (b XOR c) XOR c" by simp
  then show "a = b" by (simp add: xor.assoc)
qed simp

section \<open>Little-endian words\<close>

text \<open>
  The value read from \<open>n\<close> bytes, bit by bit: bit \<open>k\<close> is bit \<open>k mod 8\<close> of byte \<open>k div 8\<close>.
\<close>

lemma bit_le_read:
  "bit (le_read n buf off :: 'a::len word) k \<longleftrightarrow>
     k < LENGTH('a) \<and> k div 8 < n \<and> bit (buf ! (off + k div 8)) (k mod 8)"
proof (induction n)
  case 0
  then show ?case by (simp add: le_read_def)
next
  case (Suc n)
  have step: "le_read (Suc n) buf off =
      (le_read n buf off :: 'a word) OR push_bit (n * 8) (ucast (buf ! (off + n)))"
    by (simp add: le_read_def)
  have byte: "n * 8 \<le> k \<and> bit (buf ! (off + n)) (k - n * 8) \<longleftrightarrow>
      k div 8 = n \<and> bit (buf ! (off + n)) (k mod 8)"
  proof -
    have "bit (buf ! (off + n)) (k - n * 8) \<Longrightarrow> k - n * 8 < 8"
      using bit_imp_le_length [of "buf ! (off + n)" "k - n * 8"] by simp
    then show ?thesis
      by (auto simp: div_nat_eqI minus_div_mult_eq_mod [symmetric] mult.commute
          dest: bit_imp_le_length)
  qed
  show ?case
    unfolding step using byte Suc
    by (auto simp: bit_simps less_Suc_eq)
qed

lemma le_read_put_same:
  assumes "off + n \<le> length buf" and "LENGTH('a) \<le> 8 * n"
  shows "le_read n (put_bytes buf off (le_bytes n v)) off = (v :: 'a::len word)"
proof (rule bit_word_eqI)
  fix k
  assume k: "k < LENGTH('a)"
  then have "k div 8 < n" using assms by auto
  then show "bit (le_read n (put_bytes buf off (le_bytes n v)) off :: 'a word) k = bit v k"
    using k assms
    by (simp add: bit_le_read nth_put_bytes nth_le_bytes bit_simps)
qed

lemma le_read_cong:
  assumes "\<And>i. i < n \<Longrightarrow> a ! (off + i) = b ! (off + i)"
  shows "(le_read n a off :: 'a::len word) = le_read n b off"
  by (rule bit_word_eqI) (use assms in \<open>auto simp: bit_le_read\<close>)

lemma le_read_put_other:
  assumes "off + n \<le> length buf" and "off + n \<le> off' \<or> off' + length src \<le> off"
  shows "(le_read n (put_bytes buf off' src) off :: 'a::len word) = le_read n buf off"
  by (rule le_read_cong) (use assms in \<open>auto simp: nth_put_bytes\<close>)

lemma le_bytes_le_read:
  assumes "off + n \<le> length buf" and "8 * n \<le> LENGTH('a)"
  shows "le_bytes n (le_read n buf off :: 'a::len word) = sub_bytes off n buf"
proof (rule nth_equalityI)
  show "length (le_bytes n (le_read n buf off :: 'a word)) = length (sub_bytes off n buf)"
    using assms by (simp add: length_sub_bytes)
next
  fix i
  assume "i < length (le_bytes n (le_read n buf off :: 'a word))"
  then have i: "i < n" by simp
  show "le_bytes n (le_read n buf off :: 'a word) ! i = sub_bytes off n buf ! i"
  proof (rule bit_word_eqI)
    fix k
    assume k: "k < LENGTH(8)"
    then have kk: "k < 8" by simp
    have d: "(i * 8 + k) div 8 = i" "(i * 8 + k) mod 8 = k"
      using kk by auto
    have "i * 8 + k < LENGTH('a)"
    proof -
      have "i * 8 + 8 \<le> 8 * n" using i by simp
      then show ?thesis using kk assms(2) by linarith
    qed
    then show "bit (le_bytes n (le_read n buf off :: 'a word) ! i) k = bit (sub_bytes off n buf ! i) k"
      using i kk assms d
      by (simp add: nth_le_bytes bit_simps bit_le_read nth_sub_bytes)
  qed
qed

lemma all_zero_iff: "all_zero bs \<longleftrightarrow> (\<forall>b \<in> set bs. b = 0)"
  by (simp add: all_zero_def list_all_iff)

lemma all_zero_replicate: "all_zero bs \<longleftrightarrow> bs = replicate (length bs) 0"
proof
  show "all_zero bs \<Longrightarrow> bs = replicate (length bs) 0"
    by (simp add: all_zero_iff replicate_length_same)
  assume eq: "bs = replicate (length bs) 0"
  show "all_zero bs"
    unfolding all_zero_iff by (subst eq) simp
qed

lemma put_bytes_gap:
  assumes "off = length a + g" "g + length src \<le> m"
  shows "put_bytes (a @ zeros m @ t) off src = ((a @ zeros g) @ src) @ zeros (m - g - length src) @ t"
proof -
  have "zeros m = zeros g @ zeros (m - g)" using assms zeros_add [of g "m - g"] by simp
  then have "a @ zeros m @ t = (a @ zeros g) @ zeros (m - g) @ t" by simp
  then show ?thesis using assms by (simp only: put_bytes_next length_append length_zeros)
qed

lemma zeros_numeral:
  "zeros 1 = [0]" "zeros (Suc 0) = [0]" "zeros 2 = [0, 0]" "zeros 3 = [0, 0, 0]"
  by (simp_all add: zeros_def numeral_2_eq_2 numeral_3_eq_3)

lemma fill_next:
  "length a = off \<Longrightarrow> length src \<le> m \<Longrightarrow> put_bytes (a @ zeros m) off src = (a @ src) @ zeros (m - length src)"
  using put_bytes_next [of a off src m "[]"] by simp

lemma fill_byte:
  "length a = off \<Longrightarrow> 0 < m \<Longrightarrow> (a @ zeros m)[off := b] = (a @ [b]) @ zeros (m - 1)"
  using put_byte_next [of a off m "[]"] by simp

lemma fill_gap:
  "g = off - length a \<Longrightarrow> length a \<le> off \<Longrightarrow> g + length src \<le> m \<Longrightarrow>
   put_bytes (a @ zeros m) off src = ((a @ zeros g) @ src) @ zeros (m - g - length src)"
  using put_bytes_gap [of off a g src m "[]"] by simp

lemma sub_bytes_1: "i < length f \<Longrightarrow> sub_bytes i 1 f = [f ! i]"
  by (simp add: sub_bytes_def Cons_nth_drop_Suc [symmetric])

lemma sub_bytes_drop: "drop a f = sub_bytes a n f @ drop (a + n) f"
  by (metis append_take_drop_id drop_drop add.commute sub_bytes_def)

lemma sub_bytes_take: "i + m \<le> n \<Longrightarrow> sub_bytes i m (take n p) = sub_bytes i m p"
  by (simp add: sub_bytes_def drop_take min_def)

lemma drop_next:
  assumes "drop off p = xs @ ys" "off \<le> length p"
  shows "off + length xs \<le> length p" "drop (off + length xs) p = ys"
proof -
  have "length p - off = length xs + length ys" using arg_cong [OF assms(1), of length] by simp
  then show "off + length xs \<le> length p" using assms(2) by simp
  show "drop (off + length xs) p = ys" using arg_cong [OF assms(1), of "drop (length xs)"] by (simp add: add.commute)
qed

lemma eq_snd: "fst x = a \<Longrightarrow> x = (a, snd x)"
  by (cases x) simp

end
