(* ===== verification/Wire.thy ===== *)
theory Wire
  imports Prelude
begin

text \<open>
  Fixed-width little-endian fields of the wire formats under \<open>src/native/protocol\<close>.

  Every protocol file carries its own copies of \<open>WriteU16\<close>, \<open>WriteU32\<close>, \<open>WriteU64\<close> and
  the matching readers; the copies that use \<open>std::memcpy\<close> store the same bytes, because
  both supported targets are little-endian.  The locale \<open>wire_field\<close> is the contract the
  encoders and decoders rely on: what a reader returns after a write at the same or at a
  disjoint offset, and which bytes a value determines.  It is interpreted on the three
  pairs of functions.  \<open>ConstantTimeEqual\<close> is shown to be equality of byte ranges.
\<close>

section \<open>Definitions\<close>

definition WriteU16 :: "bytes \<Rightarrow> nat \<Rightarrow> u16 \<Rightarrow> bytes" where
  "WriteU16 output offset value =
     (output[offset := ucast value])[offset + 1 := ucast (drop_bit 8 value)]"

definition WriteU32 :: "bytes \<Rightarrow> nat \<Rightarrow> u32 \<Rightarrow> bytes" where
  "WriteU32 output offset value =
     fold (\<lambda>index out. out[offset + index := ucast (drop_bit (index * 8) value)]) [0..<4] output"

definition WriteU64 :: "bytes \<Rightarrow> nat \<Rightarrow> u64 \<Rightarrow> bytes" where
  "WriteU64 output offset value =
     fold (\<lambda>index out. out[offset + index := ucast (drop_bit (index * 8) value)]) [0..<8] output"

definition ReadU16 :: "bytes \<Rightarrow> nat \<Rightarrow> u16" where
  "ReadU16 input offset = ucast (input ! offset) OR push_bit 8 (ucast (input ! (offset + 1)))"

definition ReadU32 :: "bytes \<Rightarrow> nat \<Rightarrow> u32" where
  "ReadU32 input offset =
     fold (\<lambda>index value. value OR push_bit (index * 8) (ucast (input ! (offset + index)))) [0..<4] 0"

definition ReadU64 :: "bytes \<Rightarrow> nat \<Rightarrow> u64" where
  "ReadU64 input offset =
     fold (\<lambda>index value. value OR push_bit (index * 8) (ucast (input ! (offset + index)))) [0..<8] 0"

text \<open>
  Comparison without an early exit: the differences of all positions are collected in one
  byte.  \<open>left\<close> and \<open>right\<close> are the two ranges of \<open>count\<close> bytes.
\<close>

definition ConstantTimeEqual :: "bytes \<Rightarrow> bytes \<Rightarrow> nat \<Rightarrow> bool" where
  "ConstantTimeEqual left right count =
     (fold (\<lambda>index difference. difference OR (left ! index XOR right ! index)) [0..<count] 0 = 0)"

text \<open>\<open>std::equal(magic.begin(), magic.end(), encoded)\<close>.\<close>

definition HasMagic :: "bytes \<Rightarrow> bytes \<Rightarrow> bool" where
  "HasMagic magic encoded = (take (length magic) encoded = magic)"

section \<open>The contract of a fixed-width field\<close>

locale wire_field =
  fixes wr :: "bytes \<Rightarrow> nat \<Rightarrow> 'v \<Rightarrow> bytes"
    and rd :: "bytes \<Rightarrow> nat \<Rightarrow> 'v"
    and width :: nat
    and enc :: "'v \<Rightarrow> bytes"
  assumes write_put: "wr buf off v = put_bytes buf off (enc v)"
    and enc_width: "length (enc v) = width"
    and read_written: "off + width \<le> length buf \<Longrightarrow> rd (put_bytes buf off (enc v)) off = v"
    and read_frame: "off + width \<le> length buf \<Longrightarrow> off + width \<le> off' \<or> off' + length src \<le> off
      \<Longrightarrow> rd (put_bytes buf off' src) off = rd buf off"
    and enc_read: "off + width \<le> length buf \<Longrightarrow> enc (rd buf off) = sub_bytes off width buf"
begin

lemma enc_inject: "enc v = enc w \<longleftrightarrow> v = w"
proof
  assume eq: "enc v = enc w"
  have "rd (put_bytes (replicate width 0) 0 (enc v)) 0 = v" by (rule read_written) simp
  moreover have "rd (put_bytes (replicate width 0) 0 (enc w)) 0 = w" by (rule read_written) simp
  ultimately show "v = w" using eq by metis
qed simp

lemma read_eq_iff:
  "off + width \<le> length buf \<Longrightarrow> rd buf off = v \<longleftrightarrow> sub_bytes off width buf = enc v"
  using enc_read enc_inject by metis

lemma write_read_id: "off + width \<le> length buf \<Longrightarrow> wr buf off (rd buf off) = buf"
  by (simp add: write_put enc_read put_bytes_sub_bytes)

lemma length_write: "length (wr buf off v) = length buf"
  by (simp add: write_put)

end

section \<open>The fields of the sources satisfy the contract\<close>

lemma WriteU16_put: "WriteU16 buf off v = put_bytes buf off (le_bytes 2 v)"
  by (simp add: WriteU16_def le_bytes_def numeral_2_eq_2)

lemma WriteU32_put: "WriteU32 buf off v = put_bytes buf off (le_bytes 4 v)"
  by (simp add: WriteU32_def le_bytes_def eval_nat_numeral)

lemma WriteU64_put: "WriteU64 buf off v = put_bytes buf off (le_bytes 8 v)"
  by (simp add: WriteU64_def le_bytes_def eval_nat_numeral)

lemma ReadU16_le_read: "ReadU16 buf off = le_read 2 buf off"
  by (simp add: ReadU16_def le_read_def numeral_2_eq_2)

lemma ReadU32_le_read: "ReadU32 buf off = le_read 4 buf off"
  by (simp add: ReadU32_def le_read_def)

lemma ReadU64_le_read: "ReadU64 buf off = le_read 8 buf off"
  by (simp add: ReadU64_def le_read_def)

interpretation f16: wire_field WriteU16 ReadU16 2 "le_bytes 2"
  by unfold_locales
    (simp_all add: WriteU16_put ReadU16_le_read le_read_put_same le_read_put_other le_bytes_le_read)

interpretation f32: wire_field WriteU32 ReadU32 4 "le_bytes 4"
  by unfold_locales
    (simp_all add: WriteU32_put ReadU32_le_read le_read_put_same le_read_put_other le_bytes_le_read)

interpretation f64: wire_field WriteU64 ReadU64 8 "le_bytes 8"
  by unfold_locales
    (simp_all add: WriteU64_put ReadU64_le_read le_read_put_same le_read_put_other le_bytes_le_read)

lemmas field_writes [wire_simps, layout_simps] = f16.write_put f32.write_put f64.write_put

lemmas field_reads [wire_simps] =
  f16.read_written f32.read_written f64.read_written
  f16.read_frame f32.read_frame f64.read_frame

lemmas field_enc_inject [simp] = f16.enc_inject f32.enc_inject f64.enc_inject

section \<open>Comparison of byte ranges\<close>

lemma fold_or_eq_0:
  "fold (\<lambda>i d. d OR f i) is (a :: 'a::len word) = 0 \<longleftrightarrow> a = 0 \<and> (\<forall>i \<in> set is. f i = 0)"
  by (induction "is" arbitrary: a) (auto simp: or_eq_0_iff)

lemma ConstantTimeEqual_iff:
  assumes "count \<le> length left" and "count \<le> length right"
  shows "ConstantTimeEqual left right count \<longleftrightarrow> take count left = take count right"
proof -
  have xor0: "a XOR b = 0 \<longleftrightarrow> a = b" for a b :: u8
    by (metis xor_self_eq xor.assoc xor.left_neutral)
  show ?thesis
    using assms
    by (auto simp: ConstantTimeEqual_def fold_or_eq_0 xor0 list_eq_iff_nth_eq)
qed

lemma HasMagic_sub_bytes: "HasMagic magic encoded \<longleftrightarrow> sub_bytes 0 (length magic) encoded = magic"
  by (simp add: HasMagic_def sub_bytes_def)

end
