(* ===== verification/EventFrame.thy ===== *)
theory EventFrame
  imports Wire
begin

text \<open>
  \<open>src/native/protocol/event_frame.cpp\<close>: the frames that the injected hook sends to the
  launcher.  A frame is a 24-byte header (magic, version, kind, payload length, sequence,
  CRC-32) followed by the payload.  One definition per function of the file; an output
  buffer is \<open>byte_ptr\<close>, its capacity the length of the list, and an encoder returns its
  status, the buffer after the call and \<open>written\<close>.

  The specification \<open>event_frame\<close> is the concatenation of the fields.  The encoders are
  shown to write exactly that (\<open>frame_encoder\<close> is their common contract), and the
  validators to accept exactly such byte strings; the CRC-32 is shown to detect every
  corruption of a single byte it covers.
\<close>

section \<open>Definitions\<close>

abbreviation (input) kProtocolVersion :: u16 where "kProtocolVersion \<equiv> 1"
abbreviation (input) kEventHeaderLength :: nat where "kEventHeaderLength \<equiv> 24"
abbreviation (input) kReadyNonceLength :: nat where "kReadyNonceLength \<equiv> 16"
abbreviation (input) kReadyFrameLength :: nat where "kReadyFrameLength \<equiv> 40"
abbreviation (input) kMaximumEventDomainBytes :: nat where "kMaximumEventDomainBytes \<equiv> 253"
abbreviation (input) kMaximumEventPathCodeUnits :: nat where "kMaximumEventPathCodeUnits \<equiv> 32767"

definition kEventMagic :: bytes where
  "kEventMagic = ascii ''BLT1''"

abbreviation (input) kVersionOffset :: nat where "kVersionOffset \<equiv> 4"
abbreviation (input) kKindOffset :: nat where "kKindOffset \<equiv> 6"
abbreviation (input) kLengthOffset :: nat where "kLengthOffset \<equiv> 8"
abbreviation (input) kSequenceOffset :: nat where "kSequenceOffset \<equiv> 12"
abbreviation (input) kChecksumOffset :: nat where "kChecksumOffset \<equiv> 20"

abbreviation (input) kReadyKind :: u16 where "kReadyKind \<equiv> 1"
abbreviation (input) kFilesystemViolationKind :: u16 where "kFilesystemViolationKind \<equiv> 2"
abbreviation (input) kRegistryViolationKind :: u16 where "kRegistryViolationKind \<equiv> 3"
abbreviation (input) kNetworkViolationKind :: u16 where "kNetworkViolationKind \<equiv> 4"
abbreviation (input) kChildInjectionFailureKind :: u16 where "kChildInjectionFailureKind \<equiv> 6"
abbreviation (input) kProcessViolationKind :: u16 where "kProcessViolationKind \<equiv> 8"
abbreviation (input) kEventsDroppedKind :: u16 where "kEventsDroppedKind \<equiv> 9"

text \<open>
  The operation enumerations have a fixed underlying type and are range-checked by the
  encoders, so an operation is its underlying value; these are the largest enumerators.
\<close>

abbreviation (input) FilesystemOperation_kEnumerate :: u8 where "FilesystemOperation_kEnumerate \<equiv> 6"
abbreviation (input) ProcessOperation_kExternalDelegation :: u8 where
  "ProcessOperation_kExternalDelegation \<equiv> 5"
abbreviation (input) ChildInjectionFailureReason_kMitigationFailed :: u8 where
  "ChildInjectionFailureReason_kMitigationFailed \<equiv> 4"
abbreviation (input) RegistryOperation_kUnsupportedTransactional :: u8 where
  "RegistryOperation_kUnsupportedTransactional \<equiv> 8"
abbreviation (input) NetworkOperation_kSend :: u8 where "NetworkOperation_kSend \<equiv> 2"
abbreviation (input) NetworkAddressFamily_kIpv4 :: u8 where "NetworkAddressFamily_kIpv4 \<equiv> 4"
abbreviation (input) NetworkAddressFamily_kIpv6 :: u8 where "NetworkAddressFamily_kIpv6 \<equiv> 6"

record NetworkEndpoint =
  ep_family :: u8
  ep_address :: bytes
  ep_port :: u16

datatype FrameEncodeStatus =
    Encode_kSuccess
  | Encode_kInvalidArgument
  | Encode_kInvalidOperation
  | Encode_kInvalidPath
  | Encode_kInvalidAddress
  | Encode_kInvalidDomain
  | Encode_kInvalidRegistryKey
  | Encode_kInsufficientBuffer

datatype ReadyFrameStatus =
    Ready_kSuccess
  | Ready_kInvalidArgument
  | Ready_kInvalidLength
  | Ready_kInvalidMagic
  | Ready_kUnsupportedVersion
  | Ready_kUnexpectedKind
  | Ready_kUnexpectedSequence
  | Ready_kChecksumMismatch
  | Ready_kNonceMismatch

datatype EventFrameStatus =
    Event_kSuccess
  | Event_kInvalidArgument
  | Event_kInvalidLength
  | Event_kInvalidMagic
  | Event_kUnsupportedVersion
  | Event_kUnknownKind
  | Event_kChecksumMismatch

type_synonym encode_result = "FrameEncodeStatus \<times> byte_ptr \<times> nat"

definition SequenceIsZero :: "bytes \<Rightarrow> bool" where
  "SequenceIsZero encoded =
     (fold (\<lambda>index aggregate. aggregate OR encoded ! (kSequenceOffset + index)) [0..<8] 0 = 0)"

text \<open>The bitwise CRC-32 of \<open>FrameChecksum\<close>: one shift step, one byte, all covered bytes.\<close>

definition crc_bit :: "u32 \<Rightarrow> u32" where
  "crc_bit crc = (let mask = 0 - (crc AND 1) in drop_bit 1 crc XOR (0xEDB88320 AND mask))"

definition crc_update :: "u8 \<Rightarrow> u32 \<Rightarrow> u32" where
  "crc_update byte crc = (crc_bit ^^ 8) (crc XOR ucast byte)"

definition FrameChecksum :: "bytes \<Rightarrow> nat \<Rightarrow> u32" where
  "FrameChecksum encoded len =
     (let crc = fold (\<lambda>index. crc_update (encoded ! index)) [0..<kChecksumOffset] 0xFFFFFFFF;
          crc = fold (\<lambda>index. crc_update (encoded ! index)) [kEventHeaderLength..<len] crc
      in NOT crc)"

definition NonceMatches :: "bytes \<Rightarrow> bytes \<Rightarrow> bool" where
  "NonceMatches actual expected = ConstantTimeEqual actual expected (length expected)"

definition RewriteFrameChecksum :: "bytes \<Rightarrow> nat \<Rightarrow> bytes" where
  "RewriteFrameChecksum encoded len =
     (if kEventHeaderLength \<le> len
      then WriteU32 encoded kChecksumOffset (FrameChecksum encoded len) else encoded)"

definition EncodeReadyFrame :: "bytes \<Rightarrow> bytes" where
  "EncodeReadyFrame nonce =
     (let encoded = replicate kReadyFrameLength 0;
          encoded = put_bytes encoded 0 kEventMagic;
          encoded = WriteU16 encoded kVersionOffset kProtocolVersion;
          encoded = WriteU16 encoded kKindOffset kReadyKind;
          encoded = WriteU32 encoded kLengthOffset (of_nat (length nonce));
          encoded = put_bytes encoded kEventHeaderLength nonce
      in RewriteFrameChecksum encoded kReadyFrameLength)"

definition ValidateReadyFrame :: "byte_ptr \<Rightarrow> bytes \<Rightarrow> ReadyFrameStatus" where
  "ValidateReadyFrame ptr expected_nonce =
     (case ptr of
        None \<Rightarrow> Ready_kInvalidArgument
      | Some encoded \<Rightarrow>
          if length encoded \<noteq> kReadyFrameLength \<or>
             ReadU32 encoded kLengthOffset \<noteq> of_nat kReadyNonceLength
          then Ready_kInvalidLength
          else if \<not> HasMagic kEventMagic encoded then Ready_kInvalidMagic
          else if ReadU16 encoded kVersionOffset \<noteq> kProtocolVersion
          then Ready_kUnsupportedVersion
          else if ReadU16 encoded kKindOffset \<noteq> kReadyKind then Ready_kUnexpectedKind
          else if \<not> SequenceIsZero encoded then Ready_kUnexpectedSequence
          else if ReadU32 encoded kChecksumOffset \<noteq> FrameChecksum encoded (length encoded)
          then Ready_kChecksumMismatch
          else if \<not> NonceMatches (drop kEventHeaderLength encoded) expected_nonce
          then Ready_kNonceMismatch
          else Ready_kSuccess)"

definition ValidateEventFrame :: "byte_ptr \<Rightarrow> EventFrameStatus" where
  "ValidateEventFrame ptr =
     (case ptr of
        None \<Rightarrow> Event_kInvalidArgument
      | Some encoded \<Rightarrow>
          if length encoded < kEventHeaderLength \<or>
             unat (ReadU32 encoded kLengthOffset) \<noteq> length encoded - kEventHeaderLength
          then Event_kInvalidLength
          else if \<not> HasMagic kEventMagic encoded then Event_kInvalidMagic
          else if ReadU16 encoded kVersionOffset \<noteq> kProtocolVersion
          then Event_kUnsupportedVersion
          else if ReadU16 encoded kKindOffset < kReadyKind \<or>
                  kEventsDroppedKind < ReadU16 encoded kKindOffset
          then Event_kUnknownKind
          else if ReadU32 encoded kChecksumOffset \<noteq> FrameChecksum encoded (length encoded)
          then Event_kChecksumMismatch
          else Event_kSuccess)"

text \<open>
  The statements every violation encoder starts with: clear the frame, then write magic,
  version, kind, payload length and sequence.
\<close>

definition BeginFrame :: "bytes \<Rightarrow> nat \<Rightarrow> u16 \<Rightarrow> u32 \<Rightarrow> u64 \<Rightarrow> bytes" where
  "BeginFrame output frame_length kind payload_length sequence =
     (let output = put_bytes output 0 (replicate frame_length 0);
          output = put_bytes output 0 kEventMagic;
          output = WriteU16 output kVersionOffset kProtocolVersion;
          output = WriteU16 output kKindOffset kind;
          output = WriteU32 output kLengthOffset payload_length
      in WriteU64 output kSequenceOffset sequence)"

definition FilesystemViolationFrameLength :: "wchar_ptr \<Rightarrow> nat" where
  "FilesystemViolationFrameLength path =
     (case path of
        None \<Rightarrow> 0
      | Some p \<Rightarrow>
          let len = bounded_scan kMaximumEventPathCodeUnits 0 p
          in if len = 0 \<or> kMaximumEventPathCodeUnits < len then 0 else 33 + len * 2)"

definition EncodeFilesystemViolationFrame ::
  "u32 \<Rightarrow> u8 \<Rightarrow> wchar_ptr \<Rightarrow> u64 \<Rightarrow> byte_ptr \<Rightarrow> encode_result" where
  "EncodeFilesystemViolationFrame process_id operation path sequence output =
     (case output of
        None \<Rightarrow> (Encode_kInvalidArgument, None, 0)
      | Some out \<Rightarrow>
          if FilesystemOperation_kEnumerate < operation
          then (Encode_kInvalidOperation, Some out, 0)
          else let frame_length = FilesystemViolationFrameLength path
            in if frame_length = 0 then (Encode_kInvalidPath, Some out, 0)
            else if length out < frame_length then (Encode_kInsufficientBuffer, Some out, 0)
            else let path_length = (frame_length - 33) div 2;
                 out = BeginFrame out frame_length kFilesystemViolationKind
                         (of_nat (frame_length - kEventHeaderLength)) sequence;
                 out = WriteU32 out 24 process_id;
                 out = out[28 := operation];
                 out = WriteU32 out 29 (of_nat path_length);
                 out = fold (\<lambda>index out. WriteU16 out (33 + index * 2) (the path ! index))
                         [0..<path_length] out;
                 out = RewriteFrameChecksum out frame_length
            in (Encode_kSuccess, Some out, frame_length))"

definition EncodeProcessViolationFrame ::
  "u32 \<Rightarrow> u8 \<Rightarrow> u64 \<Rightarrow> byte_ptr \<Rightarrow> encode_result" where
  "EncodeProcessViolationFrame process_id operation sequence output =
     (case output of
        None \<Rightarrow> (Encode_kInvalidArgument, None, 0)
      | Some out \<Rightarrow>
          if ProcessOperation_kExternalDelegation < operation
          then (Encode_kInvalidOperation, Some out, 0)
          else if length out < 29 then (Encode_kInsufficientBuffer, Some out, 0)
          else let out = BeginFrame out 29 kProcessViolationKind 5 sequence;
                   out = WriteU32 out 24 process_id;
                   out = out[28 := operation];
                   out = RewriteFrameChecksum out 29
            in (Encode_kSuccess, Some out, 29))"

definition EncodeChildInjectionFailureFrame ::
  "u32 \<Rightarrow> u32 \<Rightarrow> u8 \<Rightarrow> u64 \<Rightarrow> byte_ptr \<Rightarrow> encode_result" where
  "EncodeChildInjectionFailureFrame parent_process_id child_process_id reason sequence output =
     (case output of
        None \<Rightarrow> (Encode_kInvalidArgument, None, 0)
      | Some out \<Rightarrow>
          if parent_process_id = 0 \<or> child_process_id = 0 \<or> sequence = 0
          then (Encode_kInvalidArgument, Some out, 0)
          else if ChildInjectionFailureReason_kMitigationFailed < reason
          then (Encode_kInvalidOperation, Some out, 0)
          else if length out < 33 then (Encode_kInsufficientBuffer, Some out, 0)
          else let out = BeginFrame out 33 kChildInjectionFailureKind 9 sequence;
                   out = WriteU32 out 24 parent_process_id;
                   out = WriteU32 out 28 child_process_id;
                   out = out[32 := reason];
                   out = RewriteFrameChecksum out 33
            in (Encode_kSuccess, Some out, 33))"

text \<open>
  \<open>MultiByteToWideChar\<close> is code of the operating system: \<open>is_utf8\<close> stands for its verdict
  on a non-empty byte string with \<open>MB_ERR_INVALID_CHARS\<close>.
\<close>

definition IsValidUtf8 :: "(bytes \<Rightarrow> bool) \<Rightarrow> bytes \<Rightarrow> bool" where
  "IsValidUtf8 is_utf8 text =
     (text \<noteq> [] \<and> length text \<le> 0x7FFFFFFF \<and> is_utf8 text)"

definition RegistryViolationFrameLength :: "(bytes \<Rightarrow> bool) \<Rightarrow> char_ptr \<Rightarrow> nat" where
  "RegistryViolationFrameLength is_utf8 key =
     (case key of
        None \<Rightarrow> 0
      | Some k \<Rightarrow>
          let len = bounded_scan 4096 0 k
          in if len \<noteq> 0 \<and> len \<le> 4096 \<and> IsValidUtf8 is_utf8 (take len k) then 33 + len else 0)"

definition EncodeRegistryViolationFrame ::
  "(bytes \<Rightarrow> bool) \<Rightarrow> u32 \<Rightarrow> u8 \<Rightarrow> char_ptr \<Rightarrow> u64 \<Rightarrow> byte_ptr \<Rightarrow> encode_result" where
  "EncodeRegistryViolationFrame is_utf8 process_id operation key sequence output =
     (case output of
        None \<Rightarrow> (Encode_kInvalidArgument, None, 0)
      | Some out \<Rightarrow>
          if RegistryOperation_kUnsupportedTransactional < operation
          then (Encode_kInvalidOperation, Some out, 0)
          else let frame_length = RegistryViolationFrameLength is_utf8 key
            in if frame_length = 0 then (Encode_kInvalidRegistryKey, Some out, 0)
            else if length out < frame_length then (Encode_kInsufficientBuffer, Some out, 0)
            else let key_length = frame_length - 33;
                 out = BeginFrame out frame_length kRegistryViolationKind
                         (of_nat (frame_length - kEventHeaderLength)) sequence;
                 out = WriteU32 out 24 process_id;
                 out = out[28 := operation];
                 out = WriteU32 out 29 (of_nat key_length);
                 out = put_bytes out 33 (take key_length (the key));
                 out = RewriteFrameChecksum out frame_length
            in (Encode_kSuccess, Some out, frame_length))"

definition EncodeNetworkViolationFrame ::
  "u32 \<Rightarrow> u8 \<Rightarrow> NetworkEndpoint \<Rightarrow> u64 \<Rightarrow> byte_ptr \<Rightarrow> encode_result" where
  "EncodeNetworkViolationFrame process_id operation endpoint sequence output =
     (case output of
        None \<Rightarrow> (Encode_kInvalidArgument, None, 0)
      | Some out \<Rightarrow>
          if NetworkOperation_kSend < operation then (Encode_kInvalidOperation, Some out, 0)
          else if ep_family endpoint \<noteq> NetworkAddressFamily_kIpv4 \<and>
                  ep_family endpoint \<noteq> NetworkAddressFamily_kIpv6
          then (Encode_kInvalidAddress, Some out, 0)
          else let address_length = (if ep_family endpoint = NetworkAddressFamily_kIpv4 then 4 else 16);
                   frame_length = (if ep_family endpoint = NetworkAddressFamily_kIpv4 then 36 else 48)
            in if length out < frame_length then (Encode_kInsufficientBuffer, Some out, 0)
            else let out = BeginFrame out frame_length kNetworkViolationKind
                         (of_nat (frame_length - kEventHeaderLength)) sequence;
                 out = WriteU32 out 24 process_id;
                 out = out[28 := operation];
                 out = out[29 := ep_family endpoint];
                 out = put_bytes out 30 (take address_length (ep_address endpoint));
                 out = WriteU16 out (30 + address_length) (ep_port endpoint);
                 out = RewriteFrameChecksum out frame_length
            in (Encode_kSuccess, Some out, frame_length))"

text \<open>The scan of an ASCII domain stops at the first byte outside \<open>0x21..0x7e\<close>.\<close>

fun domain_scan :: "nat \<Rightarrow> bytes \<Rightarrow> nat option" where
  "domain_scan n [] = Some n"
| "domain_scan n (byte # rest) =
     (if n \<le> kMaximumEventDomainBytes \<and> byte \<noteq> 0
      then if byte < 0x21 \<or> 0x7e < byte then None else domain_scan (Suc n) rest
      else Some n)"

definition DomainNetworkViolationFrameLength :: "char_ptr \<Rightarrow> nat" where
  "DomainNetworkViolationFrameLength ascii_domain =
     (case ascii_domain of
        None \<Rightarrow> 0
      | Some d \<Rightarrow>
          (case domain_scan 0 d of
             None \<Rightarrow> 0
           | Some len \<Rightarrow> if len = 0 \<or> kMaximumEventDomainBytes < len then 0 else 34 + len))"

definition EncodeDomainNetworkViolationFrame ::
  "u32 \<Rightarrow> u8 \<Rightarrow> char_ptr \<Rightarrow> u64 \<Rightarrow> byte_ptr \<Rightarrow> encode_result" where
  "EncodeDomainNetworkViolationFrame process_id operation ascii_domain sequence output =
     (case output of
        None \<Rightarrow> (Encode_kInvalidArgument, None, 0)
      | Some out \<Rightarrow>
          if NetworkOperation_kSend < operation then (Encode_kInvalidOperation, Some out, 0)
          else let frame_length = DomainNetworkViolationFrameLength ascii_domain
            in if frame_length = 0 then (Encode_kInvalidDomain, Some out, 0)
            else if length out < frame_length then (Encode_kInsufficientBuffer, Some out, 0)
            else let domain_length = frame_length - 34;
                 out = BeginFrame out frame_length kNetworkViolationKind
                         (of_nat (frame_length - kEventHeaderLength)) sequence;
                 out = WriteU32 out 24 process_id;
                 out = out[28 := operation];
                 out = out[29 := 0];
                 out = WriteU32 out 30 (of_nat domain_length);
                 out = put_bytes out 34 (take domain_length (the ascii_domain));
                 out = RewriteFrameChecksum out frame_length
            in (Encode_kSuccess, Some out, frame_length))"

definition EncodeEventsDroppedFrame :: "u32 \<Rightarrow> u64 \<Rightarrow> u64 \<Rightarrow> byte_ptr \<Rightarrow> encode_result" where
  "EncodeEventsDroppedFrame process_id dropped_count sequence output =
     (case output of
        None \<Rightarrow> (Encode_kInvalidArgument, None, 0)
      | Some out \<Rightarrow>
          if dropped_count = 0 then (Encode_kInvalidArgument, Some out, 0)
          else if length out < 36 then (Encode_kInsufficientBuffer, Some out, 0)
          else let out = BeginFrame out 36 kEventsDroppedKind 12 sequence;
                   out = WriteU32 out 24 process_id;
                   out = WriteU64 out 28 dropped_count;
                   out = RewriteFrameChecksum out 36
            in (Encode_kSuccess, Some out, 36))"

text \<open>
  Specification: the CRC-32 of a byte string, the frame with a given kind, sequence and
  payload, and the payloads.
\<close>

definition crc32 :: "bytes \<Rightarrow> u32" where
  "crc32 bs = NOT (fold crc_update bs 0xFFFFFFFF)"

definition frame_head :: "u16 \<Rightarrow> u64 \<Rightarrow> nat \<Rightarrow> bytes" where
  "frame_head kind sequence payload_length =
     kEventMagic @ le_bytes 2 kProtocolVersion @ le_bytes 2 kind @
     le_bytes 4 (of_nat payload_length :: u32) @ le_bytes 8 sequence"

definition event_frame :: "u16 \<Rightarrow> u64 \<Rightarrow> bytes \<Rightarrow> bytes" where
  "event_frame kind sequence payload =
     (let head = frame_head kind sequence (length payload)
      in head @ le_bytes 4 (crc32 (head @ payload)) @ payload)"

definition utf16_bytes :: "wstr \<Rightarrow> bytes" where
  "utf16_bytes path = concat (map (le_bytes 2) path)"

definition filesystem_payload :: "u32 \<Rightarrow> u8 \<Rightarrow> wstr \<Rightarrow> bytes" where
  "filesystem_payload process_id operation path =
     le_bytes 4 process_id @ [operation] @ le_bytes 4 (of_nat (length path) :: u32) @ utf16_bytes path"

definition process_payload :: "u32 \<Rightarrow> u8 \<Rightarrow> bytes" where
  "process_payload process_id operation = le_bytes 4 process_id @ [operation]"

definition child_payload :: "u32 \<Rightarrow> u32 \<Rightarrow> u8 \<Rightarrow> bytes" where
  "child_payload parent child reason = le_bytes 4 parent @ le_bytes 4 child @ [reason]"

definition registry_payload :: "u32 \<Rightarrow> u8 \<Rightarrow> bytes \<Rightarrow> bytes" where
  "registry_payload process_id operation key =
     le_bytes 4 process_id @ [operation] @ le_bytes 4 (of_nat (length key) :: u32) @ key"

definition address_bytes :: "NetworkEndpoint \<Rightarrow> bytes" where
  "address_bytes e = take (if ep_family e = 4 then 4 else 16) (ep_address e)"

definition network_payload :: "u32 \<Rightarrow> u8 \<Rightarrow> NetworkEndpoint \<Rightarrow> bytes" where
  "network_payload process_id operation e =
     le_bytes 4 process_id @ [operation, ep_family e] @ address_bytes e @ le_bytes 2 (ep_port e)"

definition domain_payload :: "u32 \<Rightarrow> u8 \<Rightarrow> bytes \<Rightarrow> bytes" where
  "domain_payload process_id operation name =
     le_bytes 4 process_id @ [operation, 0] @ le_bytes 4 (of_nat (length name) :: u32) @ name"

definition dropped_payload :: "u32 \<Rightarrow> u64 \<Rightarrow> bytes" where
  "dropped_payload process_id n = le_bytes 4 process_id @ le_bytes 8 n"

definition encoded_frame :: "u16 \<Rightarrow> u64 \<Rightarrow> bytes \<Rightarrow> bytes \<Rightarrow> encode_result" where
  "encoded_frame kind sequence payload out =
     (let n = kEventHeaderLength + length payload in
      if length out < n then (Encode_kInsufficientBuffer, Some out, 0)
      else (Encode_kSuccess, Some (event_frame kind sequence payload @ drop n out), n))"

definition domain_ok :: "bytes \<Rightarrow> bool" where
  "domain_ok d = (d \<noteq> [] \<and> length d \<le> kMaximumEventDomainBytes \<and> list_all (\<lambda>b. 0x21 \<le> b \<and> b \<le> 0x7e) d)"

text \<open>The texts that can be reported, by their part before the first NUL.\<close>

definition path_ok :: "wchar_ptr \<Rightarrow> bool" where
  "path_ok path = (case path of None \<Rightarrow> False | Some p \<Rightarrow> c_str p \<noteq> [] \<and> length (c_str p) \<le> 32767)"

definition key_ok :: "(bytes \<Rightarrow> bool) \<Rightarrow> char_ptr \<Rightarrow> bool" where
  "key_ok is_utf8 key =
     (case key of None \<Rightarrow> False | Some k \<Rightarrow> c_str k \<noteq> [] \<and> length (c_str k) \<le> 4096 \<and> is_utf8 (c_str k))"

definition name_ok :: "char_ptr \<Rightarrow> bool" where
  "name_ok name =
     (case name of None \<Rightarrow> False | Some d \<Rightarrow>
        c_str d \<noteq> [] \<and> length (c_str d) \<le> 253 \<and> list_all (\<lambda>b. 0x21 \<le> b \<and> b \<le> 0x7e) (c_str d))"

section \<open>The checksum\<close>

lemma crc_bit_alt:
  "crc_bit c = (if odd c then drop_bit 1 c XOR 0xEDB88320 else drop_bit 1 c)"
proof (cases "odd c")
  case True
  then have "c AND 1 = 1" by (simp add: and_one_eq odd_iff_mod_2_eq_one)
  then show ?thesis using True by (simp add: crc_bit_def)
next
  case False
  then have "c AND 1 = 0" by (simp add: and_one_eq even_iff_mod_2_eq_zero)
  then show ?thesis using False by (simp add: crc_bit_def)
qed

lemma bit_31_crc_bit: "bit (crc_bit c) 31 \<longleftrightarrow> odd c"
proof -
  have "\<not> bit c 32" using bit_imp_le_length [of c 32] by auto
  then show ?thesis by (simp add: crc_bit_alt bit_xor_iff bit_drop_bit_eq)
qed

lemma crc_bit_inject: "crc_bit a = crc_bit b \<longleftrightarrow> a = b"
proof
  assume eq: "crc_bit a = crc_bit b"
  then have par: "odd a = odd b" using bit_31_crc_bit by metis
  then have "drop_bit 1 a = drop_bit 1 b"
    using eq by (cases "odd a") (simp_all add: crc_bit_alt xor_right_cancel)
  then have rest: "bit a (Suc n) = bit b (Suc n)" for n
    using bit_drop_bit_eq [of 1 a] bit_drop_bit_eq [of 1 b] by (auto simp: fun_eq_iff)
  show "a = b"
  proof (rule bit_word_eqI)
    fix n show "bit a n = bit b n" using par rest by (cases n) (auto simp: bit_0)
  qed
qed simp

lemma crc_bits_inject: "(crc_bit ^^ n) a = (crc_bit ^^ n) b \<longleftrightarrow> a = b"
  by (induction n) (auto simp: crc_bit_inject)

lemma crc_update_inject_state: "crc_update x a = crc_update x b \<longleftrightarrow> a = b"
  unfolding crc_update_def crc_bits_inject by (rule xor_right_cancel)

lemma crc_update_inject_byte: "crc_update x a = crc_update y a \<longleftrightarrow> x = y"
proof -
  have "a XOR ucast x = a XOR ucast y \<longleftrightarrow> (ucast x :: u32) = ucast y"
    using xor_right_cancel [of "ucast x" a "ucast y"] by (simp add: xor.commute)
  also have "\<dots> \<longleftrightarrow> x = y"
  proof
    assume eq: "(ucast x :: u32) = ucast y"
    show "x = y"
    proof (rule bit_word_eqI)
      fix n assume "n < LENGTH(8)"
      then show "bit x n = bit y n"
        using arg_cong [OF eq, of "\<lambda>w. bit w n"] by (simp add: bit_ucast_iff)
    qed
  qed simp
  finally show ?thesis unfolding crc_update_def crc_bits_inject .
qed

lemma fold_crc_inject: "fold crc_update bs a = fold crc_update bs b \<longleftrightarrow> a = b"
  by (induction bs arbitrary: a b) (auto simp: crc_update_inject_state)

lemma crc32_single_byte: "crc32 (xs @ x # ys) = crc32 (xs @ y # ys) \<longleftrightarrow> x = y"
  by (simp add: crc32_def fold_crc_inject crc_update_inject_byte)

lemma FrameChecksum_crc32:
  assumes "24 \<le> len" "len \<le> length encoded"
  shows "FrameChecksum encoded len = crc32 (take 20 encoded @ sub_bytes 24 (len - 24) encoded)"
proof -
  have "20 \<le> length encoded" using assms by simp
  from fold_nth_upt [OF this, of crc_update 0] fold_nth_upt [OF assms(2), of crc_update 24]
  show ?thesis
    by (simp only: FrameChecksum_def crc32_def Let_def fold_append comp_apply sub_bytes_0 diff_zero)
qed

section \<open>Layout of a frame\<close>

lemma length_kEventMagic [simp, layout_simps]: "length kEventMagic = 4"
  by (simp add: kEventMagic_def)

lemma length_frame_head [simp, layout_simps]: "length (frame_head k s n) = 20"
  by (simp add: frame_head_def)

lemma length_event_frame [simp, layout_simps]: "length (event_frame k s p) = 24 + length p"
  by (simp add: event_frame_def Let_def)

lemma BeginFrame_eq:
  assumes "24 \<le> n" "n \<le> length out"
  shows "BeginFrame out n kind (of_nat pl) seq =
    (frame_head kind seq pl @ zeros 4) @ zeros (n - 24) @ drop n out"
proof -
  have zero: "put_bytes out 0 (replicate n 0) = [] @ zeros n @ drop n out"
    using assms by (simp add: put_bytes_eq zeros_def)
  have split: "zeros (n - 20) = zeros 4 @ zeros (n - 24)"
    using assms zeros_add [of 4 "n - 24"] by simp
  show ?thesis
    unfolding BeginFrame_def Let_def zero field_writes
    using assms
    by (simp add: put_bytes_next split frame_head_def del: append_assoc append_Nil)
qed

lemma RewriteFrameChecksum_eq:
  assumes "n = 24 + length p"
  shows "RewriteFrameChecksum ((frame_head k s (length p) @ zeros 4) @ p @ t) n = event_frame k s p @ t"
proof -
  let ?h = "frame_head k s (length p)"
  have "FrameChecksum ((?h @ zeros 4) @ p @ t) n = crc32 (?h @ p)"
    using assms by (subst FrameChecksum_crc32) (auto simp: sub_bytes_def)
  then show ?thesis
    using assms put_bytes_next [of ?h 20 "le_bytes 4 (crc32 (?h @ p))" 4 "p @ t"]
    by (simp add: RewriteFrameChecksum_def event_frame_def Let_def field_writes)
qed

lemma head_split:
  "take 20 f = sub_bytes 0 4 f @ sub_bytes 4 2 f @ sub_bytes 6 2 f @ sub_bytes 8 4 f @ sub_bytes 12 8 f"
  using sub_bytes_split [of 4 20 0 f] sub_bytes_split [of 2 16 4 f] sub_bytes_split [of 2 14 6 f]
    sub_bytes_split [of 4 12 8 f]
  by (simp add: sub_bytes_0)

lemma frame_head_iff:
  assumes "20 \<le> length f"
  shows "take 20 f = frame_head k s pl \<longleftrightarrow>
    HasMagic kEventMagic f \<and> ReadU16 f 4 = 1 \<and> ReadU16 f 6 = k \<and>
    ReadU32 f 8 = of_nat pl \<and> ReadU64 f 12 = s"
  unfolding head_split frame_head_def HasMagic_sub_bytes
  using assms
  by (simp add: length_sub_bytes f16.read_eq_iff f32.read_eq_iff f64.read_eq_iff)

lemma event_frame_iff:
  assumes "24 \<le> length f"
  shows "f = event_frame k s (drop 24 f) \<longleftrightarrow>
    HasMagic kEventMagic f \<and> ReadU16 f 4 = 1 \<and> ReadU16 f 6 = k \<and>
    ReadU32 f 8 = of_nat (length f - 24) \<and> ReadU64 f 12 = s \<and>
    ReadU32 f 20 = FrameChecksum f (length f)"
proof -
  let ?h = "frame_head k s (length f - 24)"
  have f: "f = take 20 f @ sub_bytes 20 4 f @ drop 24 f"
    using append_take_drop_id [of 20 f] append_take_drop_id [of 4 "drop 20 f"]
    by (simp add: sub_bytes_def)
  have "f = event_frame k s (drop 24 f) \<longleftrightarrow>
      take 20 f = ?h \<and> sub_bytes 20 4 f = le_bytes 4 (crc32 (?h @ drop 24 f))"
    using assms
    by (subst (1) f) (simp add: event_frame_def Let_def length_sub_bytes)
  also have "\<dots> \<longleftrightarrow> take 20 f = ?h \<and> ReadU32 f 20 = FrameChecksum f (length f)"
    using assms by (auto simp: f32.read_eq_iff FrameChecksum_crc32 sub_bytes_def)
  finally show ?thesis using assms by (auto simp: frame_head_iff)
qed

section \<open>What the encoders write\<close>

lemma finish_frame:
  assumes "n = 24 + length p" "n \<le> length out" "w = of_nat (length p)"
    and "W ((frame_head k s (length p) @ zeros 4) @ zeros (length p) @ drop n out) =
         (frame_head k s (length p) @ zeros 4) @ p @ drop n out"
  shows "RewriteFrameChecksum (W (BeginFrame out n k w s)) n = event_frame k s p @ drop n out"
  using assms by (simp add: BeginFrame_eq RewriteFrameChecksum_eq del: append_assoc)

lemmas fill_simps = put_bytes_next put_byte_next field_writes

lemma EncodeProcessViolationFrame_eq:
  "EncodeProcessViolationFrame pid op s (Some out) =
     (if 5 < op then (Encode_kInvalidOperation, Some out, 0)
      else encoded_frame 8 s (process_payload pid op) out)"
proof -
  have "29 \<le> length out \<Longrightarrow>
    RewriteFrameChecksum ((WriteU32 (BeginFrame out 29 8 5 s) 24 pid)[28 := op]) 29
      = event_frame 8 s (process_payload pid op) @ drop 29 out"
    by (rule finish_frame [where W = "\<lambda>out. (WriteU32 out 24 pid)[28 := op]"])
       (simp_all add: process_payload_def fill_simps del: append_assoc)
  then show ?thesis
    by (simp add: EncodeProcessViolationFrame_def encoded_frame_def process_payload_def Let_def)
qed

lemma EncodeChildInjectionFailureFrame_eq:
  "EncodeChildInjectionFailureFrame parent child reason s (Some out) =
     (if parent = 0 \<or> child = 0 \<or> s = 0 then (Encode_kInvalidArgument, Some out, 0)
      else if 4 < reason then (Encode_kInvalidOperation, Some out, 0)
      else encoded_frame 6 s (child_payload parent child reason) out)"
proof -
  have "33 \<le> length out \<Longrightarrow>
    RewriteFrameChecksum ((WriteU32 (WriteU32 (BeginFrame out 33 6 9 s) 24 parent) 28 child)[32 := reason]) 33
      = event_frame 6 s (child_payload parent child reason) @ drop 33 out"
    by (rule finish_frame [where W = "\<lambda>out. (WriteU32 (WriteU32 out 24 parent) 28 child)[32 := reason]"])
       (simp_all add: child_payload_def fill_simps del: append_assoc)
  then show ?thesis
    by (simp add: EncodeChildInjectionFailureFrame_def encoded_frame_def child_payload_def Let_def)
qed

lemma EncodeEventsDroppedFrame_eq:
  "EncodeEventsDroppedFrame pid n s (Some out) =
     (if n = 0 then (Encode_kInvalidArgument, Some out, 0)
      else encoded_frame 9 s (dropped_payload pid n) out)"
proof -
  have "36 \<le> length out \<Longrightarrow>
    RewriteFrameChecksum (WriteU64 (WriteU32 (BeginFrame out 36 9 12 s) 24 pid) 28 n) 36
      = event_frame 9 s (dropped_payload pid n) @ drop 36 out"
    by (rule finish_frame [where W = "\<lambda>out. WriteU64 (WriteU32 out 24 pid) 28 n"])
       (simp_all add: dropped_payload_def fill_simps del: append_assoc)
  then show ?thesis
    by (simp add: EncodeEventsDroppedFrame_def encoded_frame_def dropped_payload_def Let_def)
qed

lemma RegistryViolationFrameLength_eq:
  "RegistryViolationFrameLength u key =
     (case key of None \<Rightarrow> 0 | Some k \<Rightarrow>
        if c_str k \<noteq> [] \<and> length (c_str k) \<le> 4096 \<and> u (c_str k) then 33 + length (c_str k) else 0)"
  by (auto simp: RegistryViolationFrameLength_def bounded_scan_0 take_c_str IsValidUtf8_def Let_def
      split: option.split)

lemma EncodeRegistryViolationFrame_eq:
  "EncodeRegistryViolationFrame u pid op key s (Some out) =
     (if 8 < op then (Encode_kInvalidOperation, Some out, 0)
      else if RegistryViolationFrameLength u key = 0 then (Encode_kInvalidRegistryKey, Some out, 0)
      else encoded_frame 3 s (registry_payload pid op (c_str (the key))) out)"
proof -
  { fix k assume key: "key = Some k" "RegistryViolationFrameLength u key \<noteq> 0"
    let ?k = "c_str k" and ?n = "33 + length (c_str k)"
    have "?n \<le> length out \<Longrightarrow>
      RewriteFrameChecksum (put_bytes (WriteU32 ((WriteU32
        (BeginFrame out ?n 3 (of_nat (?n - 24)) s) 24 pid)[28 := op]) 29 (of_nat (length ?k))) 33 ?k) ?n
        = event_frame 3 s (registry_payload pid op ?k) @ drop ?n out"
      by (rule finish_frame [where W = "\<lambda>out. put_bytes (WriteU32 ((WriteU32 out 24 pid)[28 := op])
            29 (of_nat (length ?k))) 33 ?k"])
         (simp_all add: registry_payload_def fill_simps del: append_assoc of_nat_add)
    with key have ?thesis
      by (simp add: EncodeRegistryViolationFrame_def RegistryViolationFrameLength_eq encoded_frame_def
          registry_payload_def Let_def take_c_str split: if_splits)
  }
  moreover have ?thesis if "RegistryViolationFrameLength u key = 0"
    using that by (simp add: EncodeRegistryViolationFrame_def)
  ultimately show ?thesis
    by (cases key) (auto simp: RegistryViolationFrameLength_def)
qed

lemma EncodeNetworkViolationFrame_eq:
  assumes wf: "length (ep_address e) = 16"
  shows "EncodeNetworkViolationFrame pid op e s (Some out) =
     (if 2 < op then (Encode_kInvalidOperation, Some out, 0)
      else if ep_family e \<noteq> 4 \<and> ep_family e \<noteq> 6 then (Encode_kInvalidAddress, Some out, 0)
      else encoded_frame 4 s (network_payload pid op e) out)"
proof -
  have "n = 32 + length (address_bytes e) \<Longrightarrow> n \<le> length out \<Longrightarrow>
    RewriteFrameChecksum (WriteU16 (put_bytes (((WriteU32 (BeginFrame out n 4 (of_nat (n - 24)) s) 24 pid)
       [28 := op])[29 := ep_family e]) 30 (address_bytes e)) (30 + length (address_bytes e)) (ep_port e)) n
      = event_frame 4 s (network_payload pid op e) @ drop n out" for n
    by (rule finish_frame [where W = "\<lambda>out. WriteU16 (put_bytes (((WriteU32 out 24 pid)
       [28 := op])[29 := ep_family e]) 30 (address_bytes e)) (30 + length (address_bytes e)) (ep_port e)"])
       (simp_all add: network_payload_def fill_simps del: append_assoc of_nat_add)
  with wf show ?thesis
    by (cases "ep_family e = 4")
      (auto simp: EncodeNetworkViolationFrame_def encoded_frame_def network_payload_def Let_def
       address_bytes_def)
qed

lemma domain_scan_eq:
  assumes "n \<le> 254"
  shows "domain_scan n d =
    (if list_all (\<lambda>b. 0x21 \<le> b \<and> b \<le> 0x7e) (take (254 - n) (c_str d))
     then Some (min 254 (n + length (c_str d))) else None)"
  using assms
proof (induction n d rule: domain_scan.induct)
  case (1 n)
  then show ?case by (simp add: c_str_def)
next
  case (2 n byte rest)
  show ?case
  proof (cases "n \<le> 253 \<and> byte \<noteq> 0")
    case True
    then have s: "254 - n = Suc (253 - n)" by linarith
    have "domain_scan (Suc n) rest =
       (if list_all (\<lambda>b. 0x21 \<le> b \<and> b \<le> 0x7e) (take (253 - n) (c_str rest))
        then Some (min 254 (Suc n + length (c_str rest))) else None)"
      if "\<not> (byte < 0x21 \<or> 0x7e < byte)"
      using 2 True that by simp
    then show ?thesis using True by (auto simp: s c_str_def not_less)
  next
    case False
    then show ?thesis using 2 by (auto simp: c_str_def)
  qed
qed

lemma DomainNetworkViolationFrameLength_eq:
  "DomainNetworkViolationFrameLength d =
     (case d of None \<Rightarrow> 0 | Some d \<Rightarrow> if domain_ok (c_str d) then 34 + length (c_str d) else 0)"
  by (auto simp: DomainNetworkViolationFrameLength_def domain_scan_eq domain_ok_def split: option.split)

lemma EncodeDomainNetworkViolationFrame_eq:
  "EncodeDomainNetworkViolationFrame pid op d s (Some out) =
     (if 2 < op then (Encode_kInvalidOperation, Some out, 0)
      else if DomainNetworkViolationFrameLength d = 0 then (Encode_kInvalidDomain, Some out, 0)
      else encoded_frame 4 s (domain_payload pid op (c_str (the d))) out)"
proof -
  { fix k assume key: "d = Some k" "DomainNetworkViolationFrameLength d \<noteq> 0"
    let ?k = "c_str k" and ?n = "34 + length (c_str k)"
    have "?n \<le> length out \<Longrightarrow>
      RewriteFrameChecksum (put_bytes (WriteU32 ((WriteU32
        (BeginFrame out ?n 4 (of_nat (?n - 24)) s) 24 pid)[28 := op, 29 := 0]) 30 (of_nat (length ?k))) 34 ?k) ?n
        = event_frame 4 s (domain_payload pid op ?k) @ drop ?n out"
      by (rule finish_frame [where W = "\<lambda>out. put_bytes (WriteU32 ((WriteU32 out 24 pid)[28 := op, 29 := 0])
            30 (of_nat (length ?k))) 34 ?k"])
         (simp_all add: domain_payload_def fill_simps del: append_assoc of_nat_add)
    with key have ?thesis
      by (simp add: EncodeDomainNetworkViolationFrame_def DomainNetworkViolationFrameLength_eq encoded_frame_def
          domain_payload_def Let_def take_c_str split: if_splits)
  }
  moreover have ?thesis if "DomainNetworkViolationFrameLength d = 0"
    using that by (simp add: EncodeDomainNetworkViolationFrame_def)
  ultimately show ?thesis
    by (cases d) (auto simp: DomainNetworkViolationFrameLength_def)
qed

lemma length_utf16_bytes [simp, layout_simps]: "length (utf16_bytes p) = length p * 2"
  by (induction p) (simp_all add: utf16_bytes_def)

lemma write_utf16:
  assumes "length a = off" and "n \<le> length p"
  shows "fold (\<lambda>i out. WriteU16 out (off + i * 2) (p ! i)) [0..<n] (a @ zeros (length p * 2) @ t) =
    (a @ utf16_bytes (take n p)) @ zeros ((length p - n) * 2) @ t"
  using assms(2)
proof (induction n)
  case 0
  then show ?case by (simp add: utf16_bytes_def)
next
  case (Suc n)
  then have eq: "utf16_bytes (take (Suc n) p) = utf16_bytes (take n p) @ le_bytes 2 (p ! n)"
    by (simp add: utf16_bytes_def take_Suc_conv_app_nth)
  have "fold (\<lambda>i out. WriteU16 out (off + i * 2) (p ! i)) [0..<Suc n] (a @ zeros (length p * 2) @ t) =
    put_bytes ((a @ utf16_bytes (take n p)) @ zeros ((length p - n) * 2) @ t) (off + n * 2) (le_bytes 2 (p ! n))"
    using Suc by (simp add: field_writes)
  also have "\<dots> = ((a @ utf16_bytes (take n p)) @ le_bytes 2 (p ! n)) @ zeros ((length p - n) * 2 - 2) @ t"
    using Suc assms(1) by (subst put_bytes_next) auto
  also have "(length p - n) * 2 - 2 = (length p - Suc n) * 2" by simp
  finally show ?case by (simp add: eq)
qed

lemma FilesystemViolationFrameLength_eq:
  "FilesystemViolationFrameLength path =
     (case path of None \<Rightarrow> 0 | Some p \<Rightarrow>
        if c_str p \<noteq> [] \<and> length (c_str p) \<le> 32767 then 33 + length (c_str p) * 2 else 0)"
  by (auto simp: FilesystemViolationFrameLength_def bounded_scan_0 Let_def split: option.split)

lemma EncodeFilesystemViolationFrame_eq:
  "EncodeFilesystemViolationFrame pid op path s (Some out) =
     (if 6 < op then (Encode_kInvalidOperation, Some out, 0)
      else if FilesystemViolationFrameLength path = 0 then (Encode_kInvalidPath, Some out, 0)
      else encoded_frame 2 s (filesystem_payload pid op (c_str (the path))) out)"
proof -
  { fix k assume key: "path = Some k" "FilesystemViolationFrameLength path \<noteq> 0"
    let ?k = "c_str k" and ?n = "33 + length (c_str k) * 2"
    have nth: "fold (\<lambda>i out. WriteU16 out (33 + i * 2) (k ! i)) [0..<length ?k] out =
       fold (\<lambda>i out. WriteU16 out (33 + i * 2) (?k ! i)) [0..<length ?k] out" for out
      by (rule fold_cong) (auto simp: c_str_def takeWhile_nth)
    have "?n \<le> length out \<Longrightarrow>
      RewriteFrameChecksum (fold (\<lambda>i out. WriteU16 out (33 + i * 2) (k ! i)) [0..<length ?k] (WriteU32 ((WriteU32
        (BeginFrame out ?n 2 (of_nat (?n - 24)) s) 24 pid)[28 := op]) 29 (of_nat (length ?k)))) ?n
        = event_frame 2 s (filesystem_payload pid op ?k) @ drop ?n out"
      unfolding nth
      by (rule finish_frame [where W = "\<lambda>out. fold (\<lambda>i out. WriteU16 out (33 + i * 2) (?k ! i)) [0..<length ?k]
          (WriteU32 ((WriteU32 out 24 pid)[28 := op])
            29 (of_nat (length ?k)))"])
         (simp_all add: filesystem_payload_def put_bytes_next put_byte_next f32.write_put write_utf16 del: append_assoc of_nat_add)
    with key have ?thesis
      by (simp add: EncodeFilesystemViolationFrame_def FilesystemViolationFrameLength_eq encoded_frame_def
          filesystem_payload_def Let_def mult.commute split: if_splits)
  }
  moreover have ?thesis if "FilesystemViolationFrameLength path = 0"
    using that by (simp add: EncodeFilesystemViolationFrame_def)
  ultimately show ?thesis
    by (cases path) (auto simp: FilesystemViolationFrameLength_def)
qed

section \<open>What the validators accept\<close>

lemma ValidateEventFrame_fields:
  "ValidateEventFrame (Some f) = Event_kSuccess \<longleftrightarrow>
     24 \<le> length f \<and> length f - 24 < 2 ^ 32 \<and> 1 \<le> ReadU16 f 6 \<and> ReadU16 f 6 \<le> 9 \<and>
     f = event_frame (ReadU16 f 6) (ReadU64 f 12) (drop 24 f)"
proof (cases "24 \<le> length f")
  case True
  have len: "unat (ReadU32 f 8) = length f - 24 \<longleftrightarrow>
      length f - 24 < 2 ^ 32 \<and> ReadU32 f 8 = of_nat (length f - 24)"
    by (simp add: unat_eq_of_nat_iff)
  show ?thesis
    unfolding event_frame_iff [OF True] ValidateEventFrame_def
    using True len by (auto simp: not_less word_1_le)
qed (simp add: ValidateEventFrame_def)

lemma event_frame_fields:
  fixes k :: u16 and s :: u64 and p :: bytes
  defines "f \<equiv> event_frame k s p"
  shows "ReadU16 f 6 = k" "ReadU64 f 12 = s" "drop 24 f = p"
    "ReadU32 f 8 = of_nat (length p)" "ReadU16 f 4 = 1" "HasMagic kEventMagic f"
    "ReadU32 f 20 = FrameChecksum f (length f)"
proof -
  show p: "drop 24 f = p" by (simp add: f_def event_frame_def Let_def)
  have "f = event_frame k s (drop 24 f)" by (simp only: p) (simp add: f_def)
  then show "ReadU16 f 6 = k" "ReadU64 f 12 = s" "ReadU32 f 8 = of_nat (length p)" "ReadU16 f 4 = 1"
    "HasMagic kEventMagic f" "ReadU32 f 20 = FrameChecksum f (length f)"
    using event_frame_iff [of f k s] p by (auto simp: f_def)
qed

lemma ValidateEventFrame_iff:
  "ValidateEventFrame (Some f) = Event_kSuccess \<longleftrightarrow>
     (\<exists>kind sequence payload. 1 \<le> kind \<and> kind \<le> kEventsDroppedKind \<and> length payload < 2 ^ 32 \<and>
        f = event_frame kind sequence payload)"
proof
  assume "ValidateEventFrame (Some f) = Event_kSuccess"
  then show "\<exists>kind sequence payload. 1 \<le> kind \<and> kind \<le> kEventsDroppedKind \<and> length payload < 2 ^ 32 \<and>
      f = event_frame kind sequence payload"
    unfolding ValidateEventFrame_fields by (metis length_drop)
next
  assume "\<exists>kind sequence payload. 1 \<le> kind \<and> kind \<le> kEventsDroppedKind \<and> length payload < 2 ^ 32 \<and>
      f = event_frame kind sequence payload"
  then show "ValidateEventFrame (Some f) = Event_kSuccess"
    by (auto simp: ValidateEventFrame_fields event_frame_fields)
qed

lemma event_frame_corrupt:
  assumes i: "i < length (event_frame k s p)" and b: "b \<noteq> event_frame k s p ! i"
    and eq: "(event_frame k s p)[i := b] = event_frame k' s' p'"
  shows False
proof -
  define f g where "f = event_frame k s p" and "g = event_frame k' s' p'"
  have g: "g = f[i := b]" using eq by (simp add: f_def g_def)
  have len: "length g = length f" "24 \<le> length f" by (simp_all add: g f_def)
  have crc: "ReadU32 f 20 = crc32 (take 20 f @ drop 24 f)" "ReadU32 g 20 = crc32 (take 20 g @ drop 24 g)"
    using event_frame_fields(7) [of k s p] event_frame_fields(7) [of k' s' p'] len
    by (simp_all add: f_def g_def FrameChecksum_crc32 sub_bytes_def)
  have c4: "sub_bytes 20 4 f = le_bytes 4 (ReadU32 f 20)" "sub_bytes 20 4 g = le_bytes 4 (ReadU32 g 20)"
    using len by (simp_all add: f32.enc_read)
  have i': "i < length f" "b \<noteq> f ! i" using i b by (simp_all add: f_def)
  consider "i < 20" | "20 \<le> i" "i < 24" | "24 \<le> i" by linarith
  then show False
  proof cases
    case 1
    then have "sub_bytes 20 4 g = sub_bytes 20 4 f" by (simp add: g sub_bytes_update_other)
    then have "crc32 (take 20 g @ drop 24 g) = crc32 (take 20 f @ drop 24 f)"
      using crc c4 by simp
    moreover have "take 20 g @ drop 24 g = take i f @ b # (drop (Suc i) (take 20 f) @ drop 24 f)"
      using 1 i' by (simp add: g list_update_split take_Cons' drop_Cons' drop_take)
    moreover have "take 20 f @ drop 24 f = take i f @ f ! i # (drop (Suc i) (take 20 f) @ drop 24 f)"
      using 1 len id_take_nth_drop [of i "take 20 f"] by simp
    ultimately show False using i' by (metis crc32_single_byte)
  next
    case 2
    then have "take 20 g @ drop 24 g = take 20 f @ drop 24 f" by (simp add: g)
    then have "sub_bytes 20 4 g = sub_bytes 20 4 f" using crc c4 by simp
    then have "g ! i = f ! i"
      using 2 len nth_sub_bytes [of "i - 20" 4 20 f] nth_sub_bytes [of "i - 20" 4 20 g] by simp
    then show False using i' by (simp add: g)
  next
    case 3
    then have "sub_bytes 20 4 g = sub_bytes 20 4 f" by (simp add: g sub_bytes_update_other)
    then have "crc32 (take 20 g @ drop 24 g) = crc32 (take 20 f @ drop 24 f)"
      using crc c4 by simp
    moreover have "take 20 g @ drop 24 g = (take 20 f @ sub_bytes 24 (i - 24) f) @ b # drop (Suc i) f"
      using 3 i' by (simp add: g list_update_split sub_bytes_def drop_take)
    moreover have "take 20 f @ drop 24 f = (take 20 f @ sub_bytes 24 (i - 24) f) @ f ! i # drop (Suc i) f"
      using 3 i' id_take_nth_drop [of "i - 24" "drop 24 f"] by (simp add: sub_bytes_def)
    ultimately show False using i' by (metis crc32_single_byte)
  qed
qed

section \<open>The contract of the encoders\<close>

text \<open>
  A violation encoder with arguments \<open>'a\<close> writes one fixed kind of frame.  \<open>refuse\<close> is the
  status with which it rejects its arguments, \<open>payload\<close> the payload it otherwise writes and
  \<open>wf\<close> what the C++ type of the arguments guarantees.
\<close>

locale frame_encoder =
  fixes enc :: "'a \<Rightarrow> u64 \<Rightarrow> byte_ptr \<Rightarrow> encode_result"
    and kind :: u16
    and payload :: "'a \<Rightarrow> bytes"
    and refuse :: "'a \<Rightarrow> u64 \<Rightarrow> FrameEncodeStatus option"
    and wf :: "'a \<Rightarrow> bool"
  assumes null_buffer: "enc a s None = (Encode_kInvalidArgument, None, 0)"
    and known_kind: "1 \<le> kind" "kind \<le> kEventsDroppedKind"
    and payload_bound: "wf a \<Longrightarrow> refuse a s = None \<Longrightarrow> length (payload a) < 2 ^ 32"
    and refuse_status: "refuse a s \<noteq> Some Encode_kSuccess"
    and enc_buffer: "wf a \<Longrightarrow> enc a s (Some out) =
      (case refuse a s of Some status \<Rightarrow> (status, Some out, 0) | None \<Rightarrow> encoded_frame kind s (payload a) out)"
begin

lemma success_iff:
  assumes "wf a"
  shows "fst (enc a s (Some out)) = Encode_kSuccess \<longleftrightarrow>
    refuse a s = None \<and> 24 + length (payload a) \<le> length out"
  using assms refuse_status [of a s]
  by (auto simp: enc_buffer encoded_frame_def Let_def split: option.splits)

lemma success_frame:
  assumes "wf a" and "enc a s (Some out) = (Encode_kSuccess, out', n)"
  shows "out' = Some (event_frame kind s (payload a) @ drop n out)" "n = 24 + length (payload a)"
    "n \<le> length out" "refuse a s = None"
  using assms refuse_status [of a s]
  by (auto simp: enc_buffer encoded_frame_def Let_def split: option.splits if_splits)

lemma success_valid:
  assumes "wf a" and "enc a s (Some out) = (Encode_kSuccess, out', n)"
  shows "ValidateEventFrame (Some (take n (the out'))) = Event_kSuccess"
proof -
  note f = success_frame [OF assms]
  have "take n (the out') = event_frame kind s (payload a)" using f by simp
  then show ?thesis
    unfolding ValidateEventFrame_iff using known_kind payload_bound [OF assms(1) f(4)] by blast
qed

lemma failure_unchanged:
  assumes "wf a" and "enc a s out = (status, out', n)" and "status \<noteq> Encode_kSuccess"
  shows "out' = out" "n = 0"
  using assms
  by (cases out; auto simp: null_buffer enc_buffer encoded_frame_def Let_def
      split: option.splits if_splits)+

end

lemma length_payloads [layout_simps]:
  "length (filesystem_payload pid op path) = 9 + length path * 2"
  "length (process_payload pid op) = 5"
  "length (child_payload pid child op) = 9"
  "length (registry_payload pid op key) = 9 + length key"
  "length (ep_address e) = 16 \<Longrightarrow> length (network_payload pid op e) = (if ep_family e = 4 then 12 else 24)"
  "length (domain_payload pid op d) = 10 + length d"
  "length (dropped_payload pid n) = 12"
  by (simp_all add: filesystem_payload_def process_payload_def child_payload_def registry_payload_def
      network_payload_def address_bytes_def domain_payload_def dropped_payload_def)

lemma encoders_null:
  "EncodeFilesystemViolationFrame pid op path s None = (Encode_kInvalidArgument, None, 0)"
  "EncodeProcessViolationFrame pid op s None = (Encode_kInvalidArgument, None, 0)"
  "EncodeChildInjectionFailureFrame pid child op s None = (Encode_kInvalidArgument, None, 0)"
  "EncodeRegistryViolationFrame u pid op key s None = (Encode_kInvalidArgument, None, 0)"
  "EncodeNetworkViolationFrame pid op e s None = (Encode_kInvalidArgument, None, 0)"
  "EncodeDomainNetworkViolationFrame pid op d s None = (Encode_kInvalidArgument, None, 0)"
  "EncodeEventsDroppedFrame pid n s None = (Encode_kInvalidArgument, None, 0)"
  by (simp_all add: EncodeFilesystemViolationFrame_def EncodeProcessViolationFrame_def
      EncodeChildInjectionFailureFrame_def EncodeRegistryViolationFrame_def
      EncodeNetworkViolationFrame_def EncodeDomainNetworkViolationFrame_def EncodeEventsDroppedFrame_def)

interpretation fs_frame: frame_encoder
  "\<lambda>(pid, op, path). EncodeFilesystemViolationFrame pid op path" 2
  "\<lambda>(pid, op, path). filesystem_payload pid op (c_str (the path))"
  "\<lambda>(pid, op, path) _. if 6 < op then Some Encode_kInvalidOperation
     else if FilesystemViolationFrameLength path = 0 then Some Encode_kInvalidPath else None" "\<lambda>_. True"
  by unfold_locales
    (auto simp: encoders_null length_payloads EncodeFilesystemViolationFrame_eq
      FilesystemViolationFrameLength_eq split: if_splits option.splits)

interpretation process_frame: frame_encoder
  "\<lambda>(pid, op). EncodeProcessViolationFrame pid op" 8 "\<lambda>(pid, op). process_payload pid op"
  "\<lambda>(pid, op) _. if 5 < op then Some Encode_kInvalidOperation else None" "\<lambda>_. True"
  by unfold_locales
    (auto simp: encoders_null length_payloads EncodeProcessViolationFrame_eq split: if_splits)

interpretation child_frame: frame_encoder
  "\<lambda>(parent, child, reason). EncodeChildInjectionFailureFrame parent child reason" 6
  "\<lambda>(parent, child, reason). child_payload parent child reason"
  "\<lambda>(parent, child, reason) s. if parent = 0 \<or> child = 0 \<or> s = 0 then Some Encode_kInvalidArgument
     else if 4 < reason then Some Encode_kInvalidOperation else None" "\<lambda>_. True"
  by unfold_locales
    (auto simp: encoders_null length_payloads EncodeChildInjectionFailureFrame_eq split: if_splits)

interpretation registry_frame: frame_encoder
  "\<lambda>(u, pid, op, key). EncodeRegistryViolationFrame u pid op key" 3
  "\<lambda>(u, pid, op, key). registry_payload pid op (c_str (the key))"
  "\<lambda>(u, pid, op, key) _. if 8 < op then Some Encode_kInvalidOperation
     else if RegistryViolationFrameLength u key = 0 then Some Encode_kInvalidRegistryKey else None" "\<lambda>_. True"
  by unfold_locales
    (auto simp: encoders_null length_payloads EncodeRegistryViolationFrame_eq
      RegistryViolationFrameLength_eq split: if_splits option.splits)

interpretation network_frame: frame_encoder
  "\<lambda>(pid, op, e). EncodeNetworkViolationFrame pid op e" 4
  "\<lambda>(pid, op, e). network_payload pid op e"
  "\<lambda>(pid, op, e) _. if 2 < op then Some Encode_kInvalidOperation
     else if ep_family e \<noteq> 4 \<and> ep_family e \<noteq> 6 then Some Encode_kInvalidAddress else None"
  "\<lambda>(pid, op, e). length (ep_address e) = 16"
  by unfold_locales
    (auto simp: encoders_null length_payloads EncodeNetworkViolationFrame_eq split: if_splits)

interpretation domain_frame: frame_encoder
  "\<lambda>(pid, op, d). EncodeDomainNetworkViolationFrame pid op d" 4
  "\<lambda>(pid, op, d). domain_payload pid op (c_str (the d))"
  "\<lambda>(pid, op, d) _. if 2 < op then Some Encode_kInvalidOperation
     else if DomainNetworkViolationFrameLength d = 0 then Some Encode_kInvalidDomain else None" "\<lambda>_. True"
  by unfold_locales
    (auto simp: encoders_null length_payloads EncodeDomainNetworkViolationFrame_eq
      DomainNetworkViolationFrameLength_eq domain_ok_def split: if_splits option.splits)

interpretation dropped_frame: frame_encoder
  "\<lambda>(pid, n). EncodeEventsDroppedFrame pid n" 9 "\<lambda>(pid, n). dropped_payload pid n"
  "\<lambda>(pid, n) _. if n = 0 then Some Encode_kInvalidArgument else None" "\<lambda>_. True"
  by unfold_locales
    (auto simp: encoders_null length_payloads EncodeEventsDroppedFrame_eq split: if_splits)

section \<open>The ready frame\<close>

lemma zero8: "le_bytes 8 (0 :: u64) = zeros 8"
  by (simp add: zeros_def le_bytes_def eval_nat_numeral)

lemma EncodeReadyFrame_eq:
  assumes "length nonce = 16"
  shows "EncodeReadyFrame nonce = event_frame 1 0 nonce"
proof -
  have fill: "replicate 40 0 = [] @ zeros 40 @ []" by (simp add: zeros_def)
  have "WriteU32 (WriteU16 (WriteU16 (put_bytes (replicate 40 0) 0 kEventMagic) 4 1) 6 1) 8 16 =
      (((kEventMagic @ le_bytes 2 (1 :: u16)) @ le_bytes 2 (1 :: u16)) @ le_bytes 4 (16 :: u32)) @ zeros 28 @ []"
    unfolding fill by (simp add: field_writes put_bytes_next del: append_assoc append_Nil append_Nil2)
  also have "\<dots> = (frame_head 1 0 (length nonce) @ zeros 4) @ zeros 16 @ []"
    using assms zeros_add [of 8 20] zeros_add [of 4 16] by (simp add: frame_head_def zero8)
  finally have head: "WriteU32 (WriteU16 (WriteU16 (put_bytes (replicate 40 0) 0 kEventMagic) 4 1) 6 1) 8 16 =
      (frame_head 1 0 (length nonce) @ zeros 4) @ zeros 16 @ []" .
  have "put_bytes ((frame_head 1 0 (length nonce) @ zeros 4) @ zeros 16 @ []) 24 nonce =
      (frame_head 1 0 (length nonce) @ zeros 4) @ nonce @ []"
    using assms by (simp add: put_bytes_eq)
  then show ?thesis
    using assms head RewriteFrameChecksum_eq [of 40 nonce 1 0 "[]"]
    by (simp add: EncodeReadyFrame_def Let_def)
qed

lemma ValidateReadyFrame_iff:
  assumes "length nonce = 16"
  shows "ValidateReadyFrame (Some f) nonce = Ready_kSuccess \<longleftrightarrow> f = EncodeReadyFrame nonce"
proof -
  have "ValidateReadyFrame (Some f) nonce = Ready_kSuccess \<longleftrightarrow>
      length f = 40 \<and> f = event_frame 1 0 (drop 24 f) \<and> drop 24 f = nonce"
  proof (cases "length f = 40")
    case True
    have zero: "SequenceIsZero f \<longleftrightarrow> ReadU64 f 12 = 0"
      using True by (auto simp: SequenceIsZero_def fold_or_eq_0 f64.read_eq_iff zero8 zeros_def
          list_eq_iff_nth_eq length_sub_bytes nth_sub_bytes)
    have "NonceMatches (drop 24 f) nonce \<longleftrightarrow> drop 24 f = nonce"
      using assms True by (simp add: NonceMatches_def ConstantTimeEqual_iff)
    then show ?thesis
      using True zero event_frame_iff [of f 1 0] unfolding ValidateReadyFrame_def by auto
  qed (simp add: ValidateReadyFrame_def)
  also have "\<dots> \<longleftrightarrow> f = event_frame 1 0 nonce"
    using assms by (auto simp: event_frame_fields)
  finally show ?thesis using assms by (simp add: EncodeReadyFrame_eq)
qed

section \<open>Properties\<close>

text \<open>
  C9. \<open>ValidateEventFrame\<close> accepts exactly the byte strings that are the header with one of
  the known kinds 1 to 9, any sequence number, the length of the payload and the CRC-32 of
  header and payload, followed by the payload; it rejects the null pointer.
\<close>

theorem event_frame_language:
  "ValidateEventFrame ptr = Event_kSuccess \<longleftrightarrow>
     (\<exists>kind sequence payload. kReadyKind \<le> kind \<and> kind \<le> kEventsDroppedKind \<and>
        length payload < 2 ^ 32 \<and> ptr = Some (event_frame kind sequence payload))"
proof (cases ptr)
  case None
  then show ?thesis by (simp add: ValidateEventFrame_def)
next
  case (Some f)
  then show ?thesis by (simp add: ValidateEventFrame_iff)
qed

text \<open>
  C13. Changing any single byte of an accepted event frame, wherever it is, makes
  \<open>ValidateEventFrame\<close> reject the frame.
\<close>

theorem event_frame_corruption_rejected:
  assumes "ValidateEventFrame (Some f) = Event_kSuccess" and "i < length f" and "b \<noteq> f ! i"
  shows "ValidateEventFrame (Some (f[i := b])) \<noteq> Event_kSuccess"
  using assms unfolding ValidateEventFrame_iff by (metis event_frame_corrupt)

theorem event_frame_corruption_rejected_witness:
  "ValidateEventFrame (Some ((event_frame 9 7 (replicate 12 1))[0 := 0])) \<noteq> Event_kSuccess"
proof (rule event_frame_corruption_rejected)
  show "ValidateEventFrame (Some (event_frame 9 7 (replicate 12 1))) = Event_kSuccess"
    unfolding ValidateEventFrame_iff by (intro exI [of _ 9] exI [of _ 7] exI [of _ "replicate 12 1"]) simp
  show "(0 :: u8) \<noteq> event_frame 9 7 (replicate 12 1) ! 0"
    by (simp add: event_frame_def Let_def frame_head_def kEventMagic_def ascii_def)
qed simp

text \<open>
  The ready handshake: for a 16-byte nonce \<open>ValidateReadyFrame\<close> succeeds on exactly one
  input, the frame \<open>EncodeReadyFrame\<close> builds for that nonce.
\<close>

theorem ready_frame_exact:
  assumes "length nonce = kReadyNonceLength"
  shows "ValidateReadyFrame ptr nonce = Ready_kSuccess \<longleftrightarrow> ptr = Some (EncodeReadyFrame nonce)"
proof (cases ptr)
  case None
  then show ?thesis by (simp add: ValidateReadyFrame_def)
next
  case (Some f)
  then show ?thesis using assms by (simp add: ValidateReadyFrame_iff)
qed

theorem ready_frame_exact_witness:
  "ValidateReadyFrame (Some (EncodeReadyFrame (replicate 16 7))) (replicate 16 7) = Ready_kSuccess"
  using ready_frame_exact [of "replicate 16 7" "Some (EncodeReadyFrame (replicate 16 7))"] by simp

lemma frame_lengths_zero:
  "FilesystemViolationFrameLength path = 0 \<longleftrightarrow> \<not> path_ok path"
  "RegistryViolationFrameLength u key = 0 \<longleftrightarrow> \<not> key_ok u key"
  "DomainNetworkViolationFrameLength name = 0 \<longleftrightarrow> \<not> name_ok name"
  by (auto simp: FilesystemViolationFrameLength_eq RegistryViolationFrameLength_eq DomainNetworkViolationFrameLength_eq
      path_ok_def key_ok_def name_ok_def domain_ok_def split: option.split)

lemmas encoders_on_buffer =
  EncodeFilesystemViolationFrame_eq EncodeProcessViolationFrame_eq EncodeChildInjectionFailureFrame_eq
  EncodeRegistryViolationFrame_eq EncodeNetworkViolationFrame_eq EncodeDomainNetworkViolationFrame_eq
  EncodeEventsDroppedFrame_eq

lemma encoders_on_null:
  "EncodeFilesystemViolationFrame pid op path s None = (Encode_kInvalidArgument, None, 0)"
  "EncodeProcessViolationFrame pid op s None = (Encode_kInvalidArgument, None, 0)"
  "EncodeChildInjectionFailureFrame pid child op s None = (Encode_kInvalidArgument, None, 0)"
  "EncodeRegistryViolationFrame u pid op key s None = (Encode_kInvalidArgument, None, 0)"
  "EncodeNetworkViolationFrame pid op e s None = (Encode_kInvalidArgument, None, 0)"
  "EncodeDomainNetworkViolationFrame pid op name s None = (Encode_kInvalidArgument, None, 0)"
  "EncodeEventsDroppedFrame pid dropped s None = (Encode_kInvalidArgument, None, 0)"
  by (simp_all add: EncodeFilesystemViolationFrame_def EncodeProcessViolationFrame_def EncodeChildInjectionFailureFrame_def
      EncodeRegistryViolationFrame_def EncodeNetworkViolationFrame_def EncodeDomainNetworkViolationFrame_def
      EncodeEventsDroppedFrame_def)

text \<open>
  C14. The exact result of the seven violation encoders, on every branch.  Without a buffer they return
  \<open>kInvalidArgument\<close>.  With one, an operation outside its enumeration is refused, and so are a path that
  is missing, empty or longer than 32767 code units, a key that is missing, empty, longer than 4096 bytes or not UTF-8, and a
  domain that is missing, empty, longer than 253 bytes or not of printable ASCII; a family other than the two; and zero
  where an identifier or a count must not be zero.  A refused call leaves the buffer as it was.  All
  other calls write the frame with the documented payload in front of the untouched rest of the buffer, or
  return \<open>kInsufficientBuffer\<close> if it does not fit.
\<close>

theorem violation_encoders_exact:
  assumes "length (ep_address e) = 16"
  shows "(EncodeFilesystemViolationFrame pid op path s buffer =
      (case buffer of None \<Rightarrow> (Encode_kInvalidArgument, None, 0) | Some out \<Rightarrow>
         if FilesystemOperation_kEnumerate < op then (Encode_kInvalidOperation, Some out, 0)
         else if \<not> path_ok path then (Encode_kInvalidPath, Some out, 0)
         else encoded_frame kFilesystemViolationKind s (filesystem_payload pid op (c_str (the path))) out)) \<and>
    (EncodeProcessViolationFrame pid op s buffer =
      (case buffer of None \<Rightarrow> (Encode_kInvalidArgument, None, 0) | Some out \<Rightarrow>
         if ProcessOperation_kExternalDelegation < op then (Encode_kInvalidOperation, Some out, 0)
         else encoded_frame kProcessViolationKind s (process_payload pid op) out)) \<and>
    (EncodeChildInjectionFailureFrame pid child op s buffer =
      (case buffer of None \<Rightarrow> (Encode_kInvalidArgument, None, 0) | Some out \<Rightarrow>
         if pid = 0 \<or> child = 0 \<or> s = 0 then (Encode_kInvalidArgument, Some out, 0)
         else if ChildInjectionFailureReason_kMitigationFailed < op then (Encode_kInvalidOperation, Some out, 0)
         else encoded_frame kChildInjectionFailureKind s (child_payload pid child op) out)) \<and>
    (EncodeRegistryViolationFrame is_utf8 pid op key s buffer =
      (case buffer of None \<Rightarrow> (Encode_kInvalidArgument, None, 0) | Some out \<Rightarrow>
         if RegistryOperation_kUnsupportedTransactional < op then (Encode_kInvalidOperation, Some out, 0)
         else if \<not> key_ok is_utf8 key then (Encode_kInvalidRegistryKey, Some out, 0)
         else encoded_frame kRegistryViolationKind s (registry_payload pid op (c_str (the key))) out)) \<and>
    (EncodeNetworkViolationFrame pid op e s buffer =
      (case buffer of None \<Rightarrow> (Encode_kInvalidArgument, None, 0) | Some out \<Rightarrow>
         if NetworkOperation_kSend < op then (Encode_kInvalidOperation, Some out, 0)
         else if ep_family e \<noteq> NetworkAddressFamily_kIpv4 \<and> ep_family e \<noteq> NetworkAddressFamily_kIpv6
         then (Encode_kInvalidAddress, Some out, 0)
         else encoded_frame kNetworkViolationKind s (network_payload pid op e) out)) \<and>
    (EncodeDomainNetworkViolationFrame pid op name s buffer =
      (case buffer of None \<Rightarrow> (Encode_kInvalidArgument, None, 0) | Some out \<Rightarrow>
         if NetworkOperation_kSend < op then (Encode_kInvalidOperation, Some out, 0)
         else if \<not> name_ok name then (Encode_kInvalidDomain, Some out, 0)
         else encoded_frame kNetworkViolationKind s (domain_payload pid op (c_str (the name))) out)) \<and>
    (EncodeEventsDroppedFrame pid dropped s buffer =
      (case buffer of None \<Rightarrow> (Encode_kInvalidArgument, None, 0) | Some out \<Rightarrow>
         if dropped = 0 then (Encode_kInvalidArgument, Some out, 0)
         else encoded_frame kEventsDroppedKind s (dropped_payload pid dropped) out))"
proof (cases buffer)
  case None
  then show ?thesis by (simp add: encoders_on_null)
next
  case (Some out)
  show ?thesis
    unfolding Some option.case frame_lengths_zero [symmetric]
    by (intro conjI encoders_on_buffer assms)
qed

theorem violation_encoders_exact_witness:
  "EncodeNetworkViolationFrame 7 1 \<lparr>ep_family = 4, ep_address = replicate 16 1, ep_port = 443\<rparr> 3
      (Some (replicate 40 0)) =
     encoded_frame 4 3
       (network_payload 7 1 \<lparr>ep_family = 4, ep_address = replicate 16 1, ep_port = 443\<rparr>)
       (replicate 40 0) \<and>
   EncodeEventsDroppedFrame 7 5 3 None = (Encode_kInvalidArgument, None, 0)"
  using violation_encoders_exact
      [of "\<lparr>ep_family = 4, ep_address = replicate 16 1, ep_port = 443\<rparr>" 7 1 None 3 "Some (replicate 40 0)"]
    violation_encoders_exact
      [of "\<lparr>ep_family = 4, ep_address = replicate 16 1, ep_port = 443\<rparr>" 7 1 None 3 None 0 "\<lambda>_. True" None None 5]
  by simp

end
