(* ===== verification/PolicyReader.thy ===== *)
theory PolicyReader
  imports Wire "HOL-Library.Monad_Syntax"
begin

text \<open>
  The bounds-checked cursor \<open>Reader\<close> with which \<open>policy_payload.cpp\<close>,
  \<open>network_policy.cpp\<close>, \<open>filesystem_policy.cpp\<close> and \<open>registry_policy.cpp\<close> walk through a
  policy body.  The state of a reader is the unread rest of its input: the bytes from
  \<open>bytes_ + offset_\<close> on, \<open>length_ - offset_\<close> of them.  A read returns \<open>None\<close> where the source
  returns \<open>false\<close>, and otherwise the value and the advanced reader.

  A section of the policy body is described by a serialisation and a well-formedness
  predicate.  The locale \<open>recogniser\<close> states that a validator accepts exactly the
  serialisations of well-formed values, \<open>record_loader\<close> what a loader returns on them; both
  lift the contract from one record to a counted sequence.
\<close>

section \<open>Definitions\<close>

type_synonym Reader = bytes

definition ReadBytes :: "nat \<Rightarrow> Reader \<Rightarrow> (bytes \<times> Reader) option" where
  "ReadBytes count r = (if length r < count then None else Some (take count r, drop count r))"

definition ReaderU8 :: "Reader \<Rightarrow> (u8 \<times> Reader) option" where
  "ReaderU8 r = do { (bytes, r) \<leftarrow> ReadBytes 1 r; Some (bytes ! 0, r) }"

definition ReaderU16 :: "Reader \<Rightarrow> (u16 \<times> Reader) option" where
  "ReaderU16 r = do { (bytes, r) \<leftarrow> ReadBytes 2 r; Some (ReadU16 bytes 0, r) }"

definition ReadCount :: "Reader \<Rightarrow> (nat \<times> Reader) option" where
  "ReadCount r = do { (bytes, r) \<leftarrow> ReadBytes 4 r; Some (unat (ReadU32 bytes 0), r) }"

definition ReadSizedBytes :: "Reader \<Rightarrow> (bytes \<times> Reader) option" where
  "ReadSizedBytes r = do { (count, r) \<leftarrow> ReadCount r; ReadBytes count r }"

definition Finished :: "Reader \<Rightarrow> bool" where
  "Finished r = (r = [])"

text \<open>
  The counted loops \<^verbatim>\<open>for (i = 0; i < n; ++i)\<close> whose body returns \<open>false\<close> on the first
  malformed record: without and with values that are pushed to a vector.
\<close>

fun repeat_read :: "nat \<Rightarrow> (Reader \<Rightarrow> Reader option) \<Rightarrow> Reader \<Rightarrow> Reader option" where
  "repeat_read 0 step r = Some r"
| "repeat_read (Suc n) step r = do { r \<leftarrow> step r; repeat_read n step r }"

fun read_many :: "nat \<Rightarrow> (Reader \<Rightarrow> ('a \<times> Reader) option) \<Rightarrow> Reader \<Rightarrow> ('a list \<times> Reader) option" where
  "read_many 0 step r = Some ([], r)"
| "read_many (Suc n) step r =
     do { (x, r) \<leftarrow> step r; (xs, r) \<leftarrow> read_many n step r; Some (x # xs, r) }"

text \<open>The serialised form of a count, of a sized byte string and of a counted sequence.\<close>

definition ser_count :: "nat \<Rightarrow> bytes" where
  "ser_count n = le_bytes 4 (of_nat n :: u32)"

definition ser_sized :: "bytes \<Rightarrow> bytes" where
  "ser_sized bs = ser_count (length bs) @ bs"

definition ser_list :: "('a \<Rightarrow> bytes) \<Rightarrow> 'a list \<Rightarrow> bytes" where
  "ser_list ser xs = ser_count (length xs) @ concat (map ser xs)"

abbreviation count_ok :: "nat \<Rightarrow> bool" where
  "count_ok n \<equiv> n < 2 ^ 32"

section \<open>Primitive reads\<close>

lemma length_ser_count [simp]: "length (ser_count n) = 4"
  by (simp add: ser_count_def)

lemma ReadBytes_Some [simp]: "ReadBytes n r = Some (b, r') \<longleftrightarrow> length b = n \<and> r = b @ r'"
  by (auto simp: ReadBytes_def)

lemma ReadBytes_append [simp]: "length b = n \<Longrightarrow> ReadBytes n (b @ t) = Some (b, t)"
  by (simp add: ReadBytes_def)

lemma ReaderU8_Some [simp]: "ReaderU8 r = Some (b, r') \<longleftrightarrow> r = b # r'"
  by (cases r) (auto simp: ReaderU8_def ReadBytes_def)

lemma ReaderU8_Cons [simp]: "ReaderU8 (b # t) = Some (b, t)"
  by (simp add: ReaderU8_def ReadBytes_def)

lemma ReaderU8_Nil [simp]: "ReaderU8 [] = None"
  by (simp add: ReaderU8_def ReadBytes_def)

lemma read_le_bytes:
  "ReadU16 (le_bytes 2 v) 0 = v" "ReadU32 (le_bytes 4 w) 0 = w"
  by (simp_all add: f16.read_eq_iff f32.read_eq_iff sub_bytes_def)

lemma le_bytes_read:
  "length b = 2 \<Longrightarrow> le_bytes 2 (ReadU16 b 0) = b" "length c = 4 \<Longrightarrow> le_bytes 4 (ReadU32 c 0) = c"
  by (simp_all add: f16.enc_read f32.enc_read sub_bytes_def)

lemma ReaderU16_Some [simp]: "ReaderU16 r = Some (v, r') \<longleftrightarrow> r = le_bytes 2 v @ r'"
  by (auto simp: ReaderU16_def bind_eq_Some_conv read_le_bytes le_bytes_read)

lemma ReaderU16_append [simp]: "ReaderU16 (le_bytes 2 v @ t) = Some (v, t)"
  by simp

lemma ReadCount_Some [simp]: "ReadCount r = Some (n, r') \<longleftrightarrow> count_ok n \<and> r = ser_count n @ r'"
proof
  assume "ReadCount r = Some (n, r')"
  then obtain b where b: "length b = 4" "r = b @ r'" "n = unat (ReadU32 b 0)"
    by (auto simp: ReadCount_def bind_eq_Some_conv)
  then have "n < 2 ^ 32" "of_nat n = ReadU32 b 0"
    using unat_eq_of_nat_iff [of "ReadU32 b 0" n] by auto
  then show "count_ok n \<and> r = ser_count n @ r'"
    using b by (simp add: ser_count_def le_bytes_read)
next
  assume "count_ok n \<and> r = ser_count n @ r'"
  then show "ReadCount r = Some (n, r')"
    by (simp add: ReadCount_def ser_count_def read_le_bytes unat_of_nat_less)
qed

lemma ReadCount_append [simp]: "count_ok n \<Longrightarrow> ReadCount (ser_count n @ t) = Some (n, t)"
  by simp

lemma ReadSizedBytes_Some [simp]:
  "ReadSizedBytes r = Some (b, r') \<longleftrightarrow> count_ok (length b) \<and> r = ser_sized b @ r'"
  by (auto simp: ReadSizedBytes_def ser_sized_def bind_eq_Some_conv)

lemma ReadSizedBytes_append [simp]:
  "count_ok (length b) \<Longrightarrow> ReadSizedBytes (ser_sized b @ t) = Some (b, t)"
  by simp

lemma ser_count_inject:
  "count_ok m \<Longrightarrow> count_ok n \<Longrightarrow> ser_count m @ s = ser_count n @ t \<longleftrightarrow> m = n \<and> s = t"
  using ReadCount_append by fastforce

lemma ser_sized_inject:
  "count_ok (length a) \<Longrightarrow> count_ok (length b) \<Longrightarrow> ser_sized a @ s = ser_sized b @ t \<longleftrightarrow> a = b \<and> s = t"
  using ReadSizedBytes_append [of a s] ReadSizedBytes_append [of b t]
  by (metis option.inject prod.inject)

section \<open>Recognisers and parsers of records\<close>

locale recogniser =
  fixes val :: "Reader \<Rightarrow> Reader option"
    and ser :: "'a \<Rightarrow> bytes"
    and wf :: "'a \<Rightarrow> bool"
  assumes val_sound: "val r = Some r' \<Longrightarrow> \<exists>x. wf x \<and> r = ser x @ r'"
    and val_complete: "wf x \<Longrightarrow> val (ser x @ t) = Some t"
    and ser_unique: "wf x \<Longrightarrow> wf y \<Longrightarrow> ser x @ s = ser y @ t \<Longrightarrow> x = y \<and> s = t"
begin

lemma repeat_sound:
  "repeat_read n val r = Some r' \<Longrightarrow>
     \<exists>xs. length xs = n \<and> list_all wf xs \<and> r = concat (map ser xs) @ r'"
proof (induction n arbitrary: r)
  case 0
  then show ?case by simp
next
  case (Suc n)
  then obtain s where s: "val r = Some s" "repeat_read n val s = Some r'"
    by (auto simp: bind_eq_Some_conv)
  obtain x where x: "wf x" "r = ser x @ s" using val_sound [OF s(1)] by blast
  obtain xs where xs: "length xs = n" "list_all wf xs" "s = concat (map ser xs) @ r'"
    using Suc.IH [OF s(2)] by blast
  show ?case by (rule exI [of _ "x # xs"]) (simp add: x xs)
qed

lemma repeat_complete:
  "list_all wf xs \<Longrightarrow> repeat_read (length xs) val (concat (map ser xs) @ t) = Some t"
  by (induction xs) (simp_all add: val_complete)

lemma repeat_unique:
  "length xs = length ys \<Longrightarrow> list_all wf xs \<Longrightarrow> list_all wf ys \<Longrightarrow>
   concat (map ser xs) @ s = concat (map ser ys) @ t \<Longrightarrow> xs = ys \<and> s = t"
proof (induction xs ys rule: list_induct2)
  case Nil
  then show ?case by simp
next
  case (Cons x xs y ys)
  then have "x = y \<and> concat (map ser xs) @ s = concat (map ser ys) @ t"
    using ser_unique [of x y] by simp
  then show ?case using Cons by simp
qed

lemma counted_recognises:
  "do { (n, r) \<leftarrow> ReadCount r; if ok n then repeat_read n val r else None } = Some r' \<longleftrightarrow>
     (\<exists>xs. ok (length xs) \<and> count_ok (length xs) \<and> list_all wf xs \<and> r = ser_list ser xs @ r')"
proof
  assume "do { (n, r) \<leftarrow> ReadCount r; if ok n then repeat_read n val r else None } = Some r'"
  then obtain n s where n: "count_ok n" "r = ser_count n @ s" "ok n" "repeat_read n val s = Some r'"
    by (auto simp: bind_eq_Some_conv split: if_splits)
  obtain xs where "length xs = n" "list_all wf xs" "s = concat (map ser xs) @ r'"
    using repeat_sound [OF n(4)] by blast
  then show "\<exists>xs. ok (length xs) \<and> count_ok (length xs) \<and> list_all wf xs \<and> r = ser_list ser xs @ r'"
    using n by (intro exI [of _ xs]) (simp add: ser_list_def)
qed (auto simp: ser_list_def repeat_complete)

lemma counted_unique:
  assumes "count_ok (length xs)" "count_ok (length ys)" "list_all wf xs" "list_all wf ys"
    "ser_list ser xs @ s = ser_list ser ys @ t"
  shows "xs = ys \<and> s = t"
proof -
  have "ser_count (length xs) @ (concat (map ser xs) @ s) = ser_count (length ys) @ (concat (map ser ys) @ t)"
    using assms(5) by (simp add: ser_list_def)
  then have "length xs = length ys \<and> concat (map ser xs) @ s = concat (map ser ys) @ t"
    using ser_count_inject [OF assms(1,2)] by blast
  then show ?thesis using repeat_unique assms(3,4) by blast
qed

lemma recognises: "val r = Some r' \<longleftrightarrow> (\<exists>x. wf x \<and> r = ser x @ r')"
  using val_sound val_complete by blast

end

text \<open>
  A loader keeps the values and refuses some records of the validated format: on the
  serialisation of a well-formed record it returns the loaded value if the record is \<open>ok\<close>.
\<close>

locale record_loader =
  fixes par :: "Reader \<Rightarrow> ('b \<times> Reader) option"
    and ser :: "'a \<Rightarrow> bytes"
    and wf :: "'a \<Rightarrow> bool"
    and ok :: "'a \<Rightarrow> bool"
    and loaded :: "'a \<Rightarrow> 'b"
  assumes load_record: "wf x \<Longrightarrow> par (ser x @ t) = (if ok x then Some (loaded x, t) else None)"
begin

lemma load_many:
  "list_all wf xs \<Longrightarrow>
   read_many (length xs) par (concat (map ser xs) @ t) =
     (if list_all ok xs then Some (map loaded xs, t) else None)"
  by (induction xs) (simp_all add: load_record)

end

interpretation count_loader: record_loader ReadCount ser_count count_ok "\<lambda>_. True" "\<lambda>n. n"
  by unfold_locales simp

interpretation sized_loader: record_loader ReadSizedBytes ser_sized "\<lambda>b. count_ok (length b)" "\<lambda>_. True" "\<lambda>b. b"
  by unfold_locales simp

end
