(* ===== verification/PolicyPayload.thy ===== *)
theory PolicyPayload
  imports PolicyReader
begin

text \<open>
  \<open>src/native/protocol/policy_payload.cpp\<close>: validation of the policy envelope (magic,
  version, lengths, SHA-256 digest) and of the grammar of its body.  One definition per
  function; \<open>sha256\<close> and \<open>is_utf8\<close> stand for the operating system's hash and UTF-8 check.

  The specification is an abstract policy \<open>policy_body\<close> with its serialisation.  The
  validator is shown to accept exactly the serialisations of well-formed abstract
  policies, and the serialisation to be injective on them, so that the loaders of the
  three policies read one and the same policy.
\<close>

section \<open>Definitions\<close>

definition kPolicyMagic :: bytes where
  "kPolicyMagic = ascii ''BLP1''"

abbreviation (input) kPolicyEnvelopeLength :: nat where "kPolicyEnvelopeLength \<equiv> 44"
abbreviation (input) kPolicyVersionOffset :: nat where "kPolicyVersionOffset \<equiv> 4"
abbreviation (input) kPolicyHeaderLengthOffset :: nat where "kPolicyHeaderLengthOffset \<equiv> 6"
abbreviation (input) kPolicyBodyLengthOffset :: nat where "kPolicyBodyLengthOffset \<equiv> 8"
abbreviation (input) kPolicyDigestOffset :: nat where "kPolicyDigestOffset \<equiv> 12"
abbreviation (input) kPolicyMaximumBodyLength :: nat where "kPolicyMaximumBodyLength \<equiv> 1048576"
abbreviation (input) kNetworkCategoryLimit :: nat where "kNetworkCategoryLimit \<equiv> 1024"
abbreviation (input) kNetworkTotalLimit :: nat where "kNetworkTotalLimit \<equiv> 2048"
abbreviation (input) kRegistryTotalLimit :: nat where "kRegistryTotalLimit \<equiv> 2124"

datatype PolicyPayloadStatus =
    Policy_kValid
  | Policy_kTruncatedHeader
  | Policy_kInvalidMagic
  | Policy_kUnsupportedVersion
  | Policy_kInvalidHeaderLength
  | Policy_kBodyTooLarge
  | Policy_kLengthMismatch
  | Policy_kDigestFailure
  | Policy_kDigestMismatch
  | Policy_kInvalidBody

subsection \<open>The grammar of the body\<close>

definition ValidateFilesystemComponent :: "u8 \<Rightarrow> Reader \<Rightarrow> Reader option" where
  "ValidateFilesystemComponent kind record = do {
     (component_kind, record) \<leftarrow> ReaderU8 record;
     (code_units, record) \<leftarrow> ReadCount record;
     if (kind = 5 \<and> (component_kind \<noteq> 3 \<or> code_units = 0)) \<or>
        (kind \<noteq> 5 \<and> (2 < component_kind \<or> (component_kind = 1 \<and> code_units \<noteq> 0))) \<or>
        0x7FFFFFFFFFFFFFFF < code_units
     then None
     else do { (_, record) \<leftarrow> ReadBytes (code_units * 2) record; Some record } }"

definition ValidateFilesystemRule :: "Reader \<Rightarrow> Reader option" where
  "ValidateFilesystemRule reader = do {
     (record_length, reader) \<leftarrow> ReadCount reader;
     (record_bytes, reader) \<leftarrow> ReadBytes record_length reader;
     (kind, record) \<leftarrow> ReaderU8 record_bytes;
     if 5 < kind then None
     else do {
       (component_count, record) \<leftarrow> ReadCount record;
       if kind = 5 \<and> component_count \<noteq> 1 then None
       else do {
         record \<leftarrow> repeat_read component_count (ValidateFilesystemComponent kind) record;
         if Finished record then Some reader else None } } }"

definition ValidateFilesystem :: "Reader \<Rightarrow> Reader option" where
  "ValidateFilesystem reader = do {
     (rule_count, reader) \<leftarrow> ReadCount reader;
     repeat_read rule_count ValidateFilesystemRule reader }"

definition ValidateDomainEntry :: "Reader \<Rightarrow> Reader option" where
  "ValidateDomainEntry reader = do {
     (wildcard, reader) \<leftarrow> ReaderU8 reader;
     if 1 < wildcard then None
     else do {
       (domain, reader) \<leftarrow> ReadSizedBytes reader;
       if length domain = 0 \<or> \<not> list_all (\<lambda>value. value \<le> 0x7f) domain then None
       else Some reader } }"

definition ValidateAddressEntry :: "Reader \<Rightarrow> Reader option" where
  "ValidateAddressEntry reader = do {
     (family, reader) \<leftarrow> ReaderU8 reader;
     (prefix, reader) \<leftarrow> ReaderU8 reader;
     if family = 4 \<and> prefix \<le> 32 then map_option snd (ReadBytes 4 reader)
     else if family = 6 \<and> prefix \<le> 128 then map_option snd (ReadBytes 16 reader)
     else None }"

definition ValidatePortEntry :: "Reader \<Rightarrow> Reader option" where
  "ValidatePortEntry reader = do {
     (start, reader) \<leftarrow> ReaderU16 reader;
     (stop, reader) \<leftarrow> ReaderU16 reader;
     if start = 0 \<or> stop < start then None else Some reader }"

definition ValidateAllowList :: "Reader \<Rightarrow> Reader option" where
  "ValidateAllowList reader = do {
     (domains, reader) \<leftarrow> ReadCount reader;
     if kNetworkCategoryLimit < domains then None
     else do {
       reader \<leftarrow> repeat_read domains ValidateDomainEntry reader;
       (addresses, reader) \<leftarrow> ReadCount reader;
       if kNetworkCategoryLimit < addresses then None
       else do {
         reader \<leftarrow> repeat_read addresses ValidateAddressEntry reader;
         (ports, reader) \<leftarrow> ReadCount reader;
         if kNetworkCategoryLimit < ports \<or> kNetworkTotalLimit - addresses < domains \<or>
            kNetworkTotalLimit - ports < domains + addresses
         then None
         else repeat_read ports ValidatePortEntry reader } } }"

definition ValidateNetwork :: "Reader \<Rightarrow> Reader option" where
  "ValidateNetwork reader = do {
     (mode, reader) \<leftarrow> ReaderU8 reader;
     if mode \<le> 1 then Some reader
     else if mode = 2 then ValidateAllowList reader else None }"

text \<open>\<open>is_utf8\<close> is the verdict of \<open>MultiByteToWideChar\<close> on a non-empty byte string.\<close>

definition IsUtf8 :: "(bytes \<Rightarrow> bool) \<Rightarrow> bytes \<Rightarrow> bool" where
  "IsUtf8 is_utf8 bytes =
     (if length bytes = 0 \<or> 0x7FFFFFFF < length bytes then False else is_utf8 bytes)"

definition ValidateRegistryComponent :: "(bytes \<Rightarrow> bool) \<Rightarrow> Reader \<Rightarrow> Reader option" where
  "ValidateRegistryComponent is_utf8 reader = do {
     (bytes, reader) \<leftarrow> ReadSizedBytes reader;
     if IsUtf8 is_utf8 bytes then Some reader else None }"

definition ValidateRegistryRule :: "(bytes \<Rightarrow> bool) \<Rightarrow> Reader \<Rightarrow> Reader option" where
  "ValidateRegistryRule is_utf8 reader = do {
     (kind, reader) \<leftarrow> ReaderU8 reader;
     if 5 < kind then None
     else do {
       (hive, reader) \<leftarrow> ReaderU8 reader;
       if 4 < hive then None
       else do {
         (components, reader) \<leftarrow> ReadCount reader;
         repeat_read components (ValidateRegistryComponent is_utf8) reader } } }"

definition ValidateRegistry :: "(bytes \<Rightarrow> bool) \<Rightarrow> Reader \<Rightarrow> Reader option" where
  "ValidateRegistry is_utf8 reader = do {
     (rules, reader) \<leftarrow> ReadCount reader;
     if kRegistryTotalLimit < rules then None
     else repeat_read rules (ValidateRegistryRule is_utf8) reader }"

definition ValidateBody :: "(bytes \<Rightarrow> bool) \<Rightarrow> bytes \<Rightarrow> bool" where
  "ValidateBody is_utf8 body =
     (case do {
        (child_policy, reader) \<leftarrow> ReaderU8 body;
        if 3 < child_policy then None
        else do {
          reader \<leftarrow> ValidateFilesystem reader;
          reader \<leftarrow> ValidateNetwork reader;
          ValidateRegistry is_utf8 reader } }
      of None \<Rightarrow> False | Some reader \<Rightarrow> Finished reader)"

subsection \<open>The envelope\<close>

text \<open>
  \<open>HashPayload\<close> feeds the bytes before the digest and the body to one SHA-256 object;
  \<open>sha256\<close> stands for that computation and is \<open>None\<close> if a BCrypt call fails.
\<close>

definition HashPayload :: "(bytes \<Rightarrow> bytes option) \<Rightarrow> bytes \<Rightarrow> nat \<Rightarrow> bytes option" where
  "HashPayload sha256 payload body_length =
     sha256 (take kPolicyDigestOffset payload @ sub_bytes kPolicyEnvelopeLength body_length payload)"

definition ValidatePolicyPayload ::
  "(bytes \<Rightarrow> bytes option) \<Rightarrow> (bytes \<Rightarrow> bool) \<Rightarrow> byte_ptr \<Rightarrow> PolicyPayloadStatus" where
  "ValidatePolicyPayload sha256 is_utf8 ptr =
     (case ptr of
        None \<Rightarrow> Policy_kTruncatedHeader
      | Some payload \<Rightarrow>
          if length payload < kPolicyEnvelopeLength then Policy_kTruncatedHeader
          else if \<not> HasMagic kPolicyMagic payload then Policy_kInvalidMagic
          else if ReadU16 payload kPolicyVersionOffset \<noteq> 1 then Policy_kUnsupportedVersion
          else if ReadU16 payload kPolicyHeaderLengthOffset \<noteq> of_nat kPolicyEnvelopeLength
          then Policy_kInvalidHeaderLength
          else let body_length = unat (ReadU32 payload kPolicyBodyLengthOffset)
            in if kPolicyMaximumBodyLength < body_length then Policy_kBodyTooLarge
            else if body_length \<noteq> length payload - kPolicyEnvelopeLength
            then Policy_kLengthMismatch
            else (case HashPayload sha256 payload body_length of
                None \<Rightarrow> Policy_kDigestFailure
              | Some digest \<Rightarrow>
                  if sub_bytes kPolicyDigestOffset 32 payload \<noteq> digest
                  then Policy_kDigestMismatch
                  else if \<not> ValidateBody is_utf8 (drop kPolicyEnvelopeLength payload)
                  then Policy_kInvalidBody
                  else Policy_kValid))"

subsection \<open>Abstract policies\<close>

text \<open>
  What a policy body says: rules are kept as the raw field values of their records.  A
  component of a filesystem rule is its kind and its UTF-16 code units as bytes.
\<close>

type_synonym fs_component = "u8 \<times> bytes"

type_synonym fs_rule = "u8 \<times> fs_component list"

type_synonym domain_entry = "u8 \<times> bytes"

type_synonym address_entry = "u8 \<times> u8 \<times> bytes"

type_synonym port_entry = "u16 \<times> u16"

type_synonym registry_entry = "u8 \<times> u8 \<times> bytes list"

datatype network_section =
    Network_mode u8
  | Network_allow "domain_entry list" "address_entry list" "port_entry list"

record policy_body =
  pb_child :: u8
  pb_filesystem :: "fs_rule list"
  pb_network :: network_section
  pb_registry :: "registry_entry list"

definition ser_fs_component :: "fs_component \<Rightarrow> bytes" where
  "ser_fs_component c = (case c of (kind, units) \<Rightarrow> kind # ser_count (length units div 2) @ units)"

definition wf_fs_component :: "u8 \<Rightarrow> fs_component \<Rightarrow> bool" where
  "wf_fs_component rule_kind c = (case c of (kind, units) \<Rightarrow>
     even (length units) \<and> count_ok (length units div 2) \<and>
     (if rule_kind = 5 then kind = 3 \<and> units \<noteq> []
      else kind \<le> 2 \<and> (kind = 1 \<longrightarrow> units = [])))"

definition fs_record :: "fs_rule \<Rightarrow> bytes" where
  "fs_record rule = (case rule of (kind, components) \<Rightarrow> kind # ser_list ser_fs_component components)"

definition ser_fs_rule :: "fs_rule \<Rightarrow> bytes" where
  "ser_fs_rule rule = ser_sized (fs_record rule)"

definition wf_fs_rule :: "fs_rule \<Rightarrow> bool" where
  "wf_fs_rule rule = (case rule of (kind, components) \<Rightarrow>
     kind \<le> 5 \<and> (kind = 5 \<longrightarrow> length components = 1) \<and> count_ok (length components) \<and>
     list_all (wf_fs_component kind) components \<and> count_ok (length (fs_record rule)))"

definition ser_domain :: "domain_entry \<Rightarrow> bytes" where
  "ser_domain d = (case d of (wildcard, name) \<Rightarrow> wildcard # ser_sized name)"

definition wf_domain :: "domain_entry \<Rightarrow> bool" where
  "wf_domain d = (case d of (wildcard, name) \<Rightarrow>
     wildcard \<le> 1 \<and> name \<noteq> [] \<and> count_ok (length name) \<and> list_all (\<lambda>b. b \<le> 0x7f) name)"

definition ser_address :: "address_entry \<Rightarrow> bytes" where
  "ser_address a = (case a of (family, prefix, address) \<Rightarrow> family # prefix # address)"

definition wf_address :: "address_entry \<Rightarrow> bool" where
  "wf_address a = (case a of (family, prefix, address) \<Rightarrow>
     (family = 4 \<and> prefix \<le> 32 \<and> length address = 4) \<or>
     (family = 6 \<and> prefix \<le> 128 \<and> length address = 16))"

definition ser_port :: "port_entry \<Rightarrow> bytes" where
  "ser_port p = (case p of (start, stop) \<Rightarrow> le_bytes 2 start @ le_bytes 2 stop)"

definition wf_port :: "port_entry \<Rightarrow> bool" where
  "wf_port p = (case p of (start, stop) \<Rightarrow> start \<noteq> 0 \<and> start \<le> stop)"

fun ser_network :: "network_section \<Rightarrow> bytes" where
  "ser_network (Network_mode mode) = [mode]"
| "ser_network (Network_allow ds as ps) =
     2 # ser_list ser_domain ds @ ser_list ser_address as @ ser_list ser_port ps"

fun wf_network :: "network_section \<Rightarrow> bool" where
  "wf_network (Network_mode mode) = (mode \<le> 1)"
| "wf_network (Network_allow ds as ps) =
     (length ds \<le> kNetworkCategoryLimit \<and> length as \<le> kNetworkCategoryLimit \<and>
      length ps \<le> kNetworkCategoryLimit \<and>
      length ds + length as + length ps \<le> kNetworkTotalLimit \<and>
      list_all wf_domain ds \<and> list_all wf_address as \<and> list_all wf_port ps)"

definition ser_registry_entry :: "registry_entry \<Rightarrow> bytes" where
  "ser_registry_entry e = (case e of (kind, hive, components) \<Rightarrow> kind # hive # ser_list ser_sized components)"

definition wf_registry_entry :: "(bytes \<Rightarrow> bool) \<Rightarrow> registry_entry \<Rightarrow> bool" where
  "wf_registry_entry is_utf8 e = (case e of (kind, hive, components) \<Rightarrow>
     kind \<le> 5 \<and> hive \<le> 4 \<and> count_ok (length components) \<and> list_all (IsUtf8 is_utf8) components)"

definition ser_body :: "policy_body \<Rightarrow> bytes" where
  "ser_body b = pb_child b # ser_list ser_fs_rule (pb_filesystem b) @ ser_network (pb_network b) @
     ser_list ser_registry_entry (pb_registry b)"

definition wf_body :: "(bytes \<Rightarrow> bool) \<Rightarrow> policy_body \<Rightarrow> bool" where
  "wf_body is_utf8 b =
     (pb_child b \<le> 3 \<and> count_ok (length (pb_filesystem b)) \<and> list_all wf_fs_rule (pb_filesystem b) \<and>
      wf_network (pb_network b) \<and> length (pb_registry b) \<le> kRegistryTotalLimit \<and>
      list_all (wf_registry_entry is_utf8) (pb_registry b))"

definition policy_head :: "nat \<Rightarrow> bytes" where
  "policy_head body_length =
     kPolicyMagic @ le_bytes 2 (1 :: u16) @ le_bytes 2 (44 :: u16) @ le_bytes 4 (of_nat body_length :: u32)"

definition policy_envelope :: "bytes \<Rightarrow> bytes \<Rightarrow> bytes" where
  "policy_envelope digest body = policy_head (length body) @ digest @ body"

section \<open>The validator accepts exactly the serialisations\<close>

lemma half_pos: "even (length u) \<Longrightarrow> u \<noteq> [] \<Longrightarrow> 0 < length u div 2"
proof -
  have "even n \<Longrightarrow> 0 < n \<Longrightarrow> 0 < n div 2" for n :: nat by presburger
  then show "even (length u) \<Longrightarrow> u \<noteq> [] \<Longrightarrow> 0 < length u div 2" by simp
qed

interpretation fs_component: recogniser "ValidateFilesystemComponent k" ser_fs_component "wf_fs_component k" for k
proof
  fix r r' assume "ValidateFilesystemComponent k r = Some r'"
  then obtain c n u where c: "r = c # ser_count n @ u @ r'" "count_ok n" "length u = n * 2"
    "\<not> ((k = 5 \<and> (c \<noteq> 3 \<or> n = 0)) \<or> (k \<noteq> 5 \<and> (2 < c \<or> (c = 1 \<and> n \<noteq> 0))))"
    by (auto simp: ValidateFilesystemComponent_def bind_eq_Some_conv split: if_splits)
  then show "\<exists>x. wf_fs_component k x \<and> r = ser_fs_component x @ r'"
    by (intro exI [of _ "(c, u)"]) (auto simp: wf_fs_component_def ser_fs_component_def)
next
  fix x t assume "wf_fs_component k x"
  then show "ValidateFilesystemComponent k (ser_fs_component x @ t) = Some t"
    by (cases x) (auto simp: ValidateFilesystemComponent_def wf_fs_component_def ser_fs_component_def half_pos split: if_splits)
next
  fix x y s t assume wf: "wf_fs_component k x" "wf_fs_component k y"
    and eq: "ser_fs_component x @ s = ser_fs_component y @ t"
  obtain c u d v where xy: "x = (c, u)" "y = (d, v)" by (cases x, cases y)
  have "length u div 2 = length v div 2" "c = d" "u @ s = v @ t"
    using wf eq ser_count_inject [of "length u div 2" "length v div 2" "u @ s" "v @ t"]
    by (auto simp: xy wf_fs_component_def ser_fs_component_def)
  moreover have "length u = length v"
    using wf calculation(1) by (auto simp: xy wf_fs_component_def elim!: evenE)
  ultimately show "x = y \<and> s = t" by (simp add: xy)
qed

interpretation fs_rule: recogniser ValidateFilesystemRule ser_fs_rule wf_fs_rule
proof
  fix r r' assume "ValidateFilesystemRule r = Some r'"
  then obtain rec k n s where c: "count_ok (length rec)" "r = ser_sized rec @ r'" "rec = k # ser_count n @ s" "\<not> 5 < k"
    "count_ok n" "\<not> (k = 5 \<and> n \<noteq> 1)" "repeat_read n (ValidateFilesystemComponent k) s = Some []"
    by (auto simp: ValidateFilesystemRule_def ser_sized_def Finished_def bind_eq_Some_conv split: if_splits)
  obtain cs where cs: "length cs = n" "list_all (wf_fs_component k) cs" "s = concat (map ser_fs_component cs)"
    using fs_component.repeat_sound [OF c(7)] by auto
  show "\<exists>x. wf_fs_rule x \<and> r = ser_fs_rule x @ r'"
    using c cs by (intro exI [of _ "(k, cs)"]) (auto simp: wf_fs_rule_def ser_fs_rule_def fs_record_def ser_list_def)
next
  fix x t assume wf: "wf_fs_rule x"
  obtain k cs where x: "x = (k, cs)" by (cases x)
  have "repeat_read (length cs) (ValidateFilesystemComponent k) (concat (map ser_fs_component cs)) = Some []"
    using fs_component.repeat_complete [of k cs "[]"] wf by (simp add: x wf_fs_rule_def)
  moreover have "ReadCount (ser_fs_rule x @ t) = Some (length (fs_record x), fs_record x @ t)"
    "ReaderU8 (fs_record x) = Some (k, ser_list ser_fs_component cs)"
    "ReadCount (ser_list ser_fs_component cs) = Some (length cs, concat (map ser_fs_component cs))"
    "\<not> 5 < k" "\<not> (k = 5 \<and> length cs \<noteq> 1)"
    using wf by (auto simp: x wf_fs_rule_def ser_fs_rule_def ser_sized_def fs_record_def ser_list_def)
  ultimately show "ValidateFilesystemRule (ser_fs_rule x @ t) = Some t"
    by (simp only: ValidateFilesystemRule_def Option.bind.simps prod.case ReadBytes_append
        Finished_def if_False if_True refl)
next
  fix x y s t assume wf: "wf_fs_rule x" "wf_fs_rule y" and eq: "ser_fs_rule x @ s = ser_fs_rule y @ t"
  obtain k cs l ds where xy: "x = (k, cs)" "y = (l, ds)" by (cases x, cases y)
  have eq2: "fs_record x = fs_record y" "s = t"
    using wf eq ser_sized_inject [of "fs_record x" "fs_record y" s t] by (auto simp: xy wf_fs_rule_def ser_fs_rule_def)
  then have "k = l" "ser_list ser_fs_component cs @ [] = ser_list ser_fs_component ds @ []" by (auto simp: xy fs_record_def)
  then have "cs = ds" using wf fs_component.counted_unique [of cs ds k "[]" "[]"] by (auto simp: xy wf_fs_rule_def)
  with \<open>k = l\<close> eq2 show "x = y \<and> s = t" by (simp add: xy)
qed

interpretation net_domain: recogniser ValidateDomainEntry ser_domain wf_domain
proof
  fix r r' assume "ValidateDomainEntry r = Some r'"
  then show "\<exists>x. wf_domain x \<and> r = ser_domain x @ r'"
    by (fastforce simp: ValidateDomainEntry_def wf_domain_def ser_domain_def bind_eq_Some_conv not_less split: if_splits)
next
  fix x t assume "wf_domain x"
  then show "ValidateDomainEntry (ser_domain x @ t) = Some t"
    by (auto simp: ValidateDomainEntry_def wf_domain_def ser_domain_def split: prod.splits)
next
  fix x y s t assume "wf_domain x" "wf_domain y" "ser_domain x @ s = ser_domain y @ t"
  then show "x = y \<and> s = t"
    by (auto simp: wf_domain_def ser_domain_def ser_sized_inject split: prod.splits)
qed

interpretation net_address: recogniser ValidateAddressEntry ser_address wf_address
proof
  fix r r' assume "ValidateAddressEntry r = Some r'"
  then show "\<exists>x. wf_address x \<and> r = ser_address x @ r'"
    by (fastforce simp: ValidateAddressEntry_def wf_address_def ser_address_def bind_eq_Some_conv split: if_splits)
next
  fix x t assume "wf_address x"
  then show "ValidateAddressEntry (ser_address x @ t) = Some t"
    by (auto simp: ValidateAddressEntry_def wf_address_def ser_address_def split: prod.splits)
next
  fix x y s t assume "wf_address x" "wf_address y" "ser_address x @ s = ser_address y @ t"
  then show "x = y \<and> s = t"
    by (auto simp: wf_address_def ser_address_def split: prod.splits)
qed

interpretation net_port: recogniser ValidatePortEntry ser_port wf_port
proof
  fix r r' assume "ValidatePortEntry r = Some r'"
  then show "\<exists>x. wf_port x \<and> r = ser_port x @ r'"
    by (auto simp: ValidatePortEntry_def wf_port_def ser_port_def bind_eq_Some_conv not_less split: if_splits)
next
  fix x t assume "wf_port x"
  then show "ValidatePortEntry (ser_port x @ t) = Some t"
    by (auto simp: ValidatePortEntry_def wf_port_def ser_port_def split: prod.splits)
next
  fix x y s t assume "wf_port x" "wf_port y" "ser_port x @ s = ser_port y @ t"
  then show "x = y \<and> s = t"
    by (auto simp: wf_port_def ser_port_def split: prod.splits)
qed

interpretation reg_component: recogniser "ValidateRegistryComponent u" ser_sized "IsUtf8 u" for u
proof
  have ok: "IsUtf8 u b \<Longrightarrow> count_ok (length b)" for u b
    by (auto simp: IsUtf8_def split: if_splits)
  { fix r r' assume "ValidateRegistryComponent u r = Some r'"
    then show "\<exists>x. IsUtf8 u x \<and> r = ser_sized x @ r'"
      by (auto simp: ValidateRegistryComponent_def bind_eq_Some_conv split: if_splits) }
  { fix x t assume "IsUtf8 u x"
    then show "ValidateRegistryComponent u (ser_sized x @ t) = Some t"
      using ok by (simp add: ValidateRegistryComponent_def) }
  { fix x y s t assume "IsUtf8 u x" "IsUtf8 u y" "ser_sized x @ s = ser_sized y @ t"
    then show "x = y \<and> s = t" using ok ser_sized_inject by blast }
qed

lemma if_swap: "(if a then None else b) = (if \<not> a then b else None)"
  by simp

lemma registry_components_iff:
  "do { (n, r) \<leftarrow> ReadCount r; repeat_read n (ValidateRegistryComponent u) r } = Some r' \<longleftrightarrow>
     (\<exists>cs. count_ok (length cs) \<and> list_all (IsUtf8 u) cs \<and> r = ser_list ser_sized cs @ r')"
  using reg_component.counted_recognises [where ok = "\<lambda>_. True" and u = u and r = r and r' = r'] by simp

lemma ValidateRegistryRule_Cons:
  "ValidateRegistryRule u (k # h # r) =
     (if k \<le> 5 \<and> h \<le> 4
      then do { (n, r) \<leftarrow> ReadCount r; repeat_read n (ValidateRegistryComponent u) r } else None)"
  by (auto simp: ValidateRegistryRule_def not_less)

lemma ValidateRegistryRule_Some:
  "ValidateRegistryRule u r = Some r' \<Longrightarrow> \<exists>k h s. r = k # h # s"
  by (auto simp: ValidateRegistryRule_def bind_eq_Some_conv split: if_splits)

interpretation reg_rule: recogniser "ValidateRegistryRule u" ser_registry_entry "wf_registry_entry u" for u
proof
  { fix r r' assume a: "ValidateRegistryRule u r = Some r'"
    obtain k h s where r: "r = k # h # s" using ValidateRegistryRule_Some [OF a] by blast
    have b: "k \<le> 5" "h \<le> 4" "do { (n, s) \<leftarrow> ReadCount s; repeat_read n (ValidateRegistryComponent u) s } = Some r'"
      using a by (simp_all only: r ValidateRegistryRule_Cons option.distinct split: if_splits)
    obtain cs where "count_ok (length cs)" "list_all (IsUtf8 u) cs" "s = ser_list ser_sized cs @ r'"
      using b(3) unfolding registry_components_iff by blast
    then show "\<exists>x. wf_registry_entry u x \<and> r = ser_registry_entry x @ r'"
      using r b by (intro exI [of _ "(k, h, cs)"]) (simp add: wf_registry_entry_def ser_registry_entry_def) }
  { fix x t assume wf: "wf_registry_entry u x"
    obtain k h cs where x: "x = (k, h, cs)" by (cases x)
    have "do { (n, s) \<leftarrow> ReadCount (ser_list ser_sized cs @ t); repeat_read n (ValidateRegistryComponent u) s } = Some t"
      unfolding registry_components_iff using wf by (intro exI [of _ cs]) (simp add: x wf_registry_entry_def)
    then show "ValidateRegistryRule u (ser_registry_entry x @ t) = Some t"
      using wf by (simp add: x ValidateRegistryRule_Cons wf_registry_entry_def ser_registry_entry_def) }
  { fix x y s t
    assume wf: "wf_registry_entry u x" "wf_registry_entry u y" and eq: "ser_registry_entry x @ s = ser_registry_entry y @ t"
    obtain k h cs l i ds where xy: "x = (k, h, cs)" "y = (l, i, ds)" by (cases x, cases y)
    have e: "k = l" "h = i" "ser_list ser_sized cs @ s = ser_list ser_sized ds @ t"
      using eq by (simp_all add: xy ser_registry_entry_def)
    have "cs = ds \<and> s = t"
      by (rule reg_component.counted_unique [OF _ _ _ _ e(3), where u = u]) (use wf in \<open>auto simp: xy wf_registry_entry_def\<close>)
    then show "x = y \<and> s = t" using e xy by simp }
qed

lemma ValidateFilesystem_iff:
  "ValidateFilesystem r = Some r' \<longleftrightarrow>
     (\<exists>rules. count_ok (length rules) \<and> list_all wf_fs_rule rules \<and> r = ser_list ser_fs_rule rules @ r')"
  using fs_rule.counted_recognises [where ok = "\<lambda>_. True"] by (simp add: ValidateFilesystem_def)

lemma ValidateRegistry_iff:
  "ValidateRegistry u r = Some r' \<longleftrightarrow>
     (\<exists>rules. length rules \<le> kRegistryTotalLimit \<and> list_all (wf_registry_entry u) rules \<and>
        r = ser_list ser_registry_entry rules @ r')"
proof -
  have "ValidateRegistry u r = do { (n, r) \<leftarrow> ReadCount r;
      if n \<le> kRegistryTotalLimit then repeat_read n (ValidateRegistryRule u) r else None }"
    by (simp add: ValidateRegistry_def not_less [symmetric] if_swap)
  then show ?thesis
    by (simp only: reg_rule.counted_recognises) auto
qed

lemma ValidateAllowList_iff:
  "ValidateAllowList r = Some r' \<longleftrightarrow>
     (\<exists>ds as ps. wf_network (Network_allow ds as ps) \<and>
        r = ser_list ser_domain ds @ ser_list ser_address as @ ser_list ser_port ps @ r')"
proof
  assume "ValidateAllowList r = Some r'"
  then obtain nd r1 r2 na r3 r4 np r5 where a:
    "count_ok nd" "r = ser_count nd @ r1" "nd \<le> 1024" "repeat_read nd ValidateDomainEntry r1 = Some r2"
    "count_ok na" "r2 = ser_count na @ r3" "na \<le> 1024" "repeat_read na ValidateAddressEntry r3 = Some r4"
    "count_ok np" "r4 = ser_count np @ r5" "np \<le> 1024" "nd + na + np \<le> 2048"
    "repeat_read np ValidatePortEntry r5 = Some r'"
    by (auto simp: ValidateAllowList_def bind_eq_Some_conv not_less split: if_splits)
  obtain ds as ps where
    "length ds = nd" "list_all wf_domain ds" "r1 = concat (map ser_domain ds) @ r2"
    "length as = na" "list_all wf_address as" "r3 = concat (map ser_address as) @ r4"
    "length ps = np" "list_all wf_port ps" "r5 = concat (map ser_port ps) @ r'"
    using net_domain.repeat_sound [OF a(4)] net_address.repeat_sound [OF a(8)]
      net_port.repeat_sound [OF a(13)] by blast
  with a show "\<exists>ds as ps. wf_network (Network_allow ds as ps) \<and>
      r = ser_list ser_domain ds @ ser_list ser_address as @ ser_list ser_port ps @ r'"
    by (intro exI [of _ ds] exI [of _ as] exI [of _ ps]) (simp add: ser_list_def)
next
  assume "\<exists>ds as ps. wf_network (Network_allow ds as ps) \<and>
      r = ser_list ser_domain ds @ ser_list ser_address as @ ser_list ser_port ps @ r'"
  then obtain ds as ps where w: "wf_network (Network_allow ds as ps)"
    and r: "r = ser_list ser_domain ds @ ser_list ser_address as @ ser_list ser_port ps @ r'" by blast
  show "ValidateAllowList r = Some r'"
    using w unfolding r
    by (simp add: ValidateAllowList_def ser_list_def net_domain.repeat_complete net_address.repeat_complete
        net_port.repeat_complete not_less) linarith
qed

lemma ValidateNetwork_iff:
  "ValidateNetwork r = Some r' \<longleftrightarrow> (\<exists>n. wf_network n \<and> r = ser_network n @ r')"
proof
  assume "ValidateNetwork r = Some r'"
  then consider m where "r = m # r'" "m \<le> 1" | s where "r = 2 # s" "ValidateAllowList s = Some r'"
    by (auto simp: ValidateNetwork_def bind_eq_Some_conv split: if_splits)
  then show "\<exists>n. wf_network n \<and> r = ser_network n @ r'"
  proof cases
    case 1
    then show ?thesis by (intro exI [of _ "Network_mode m"]) simp
  next
    case 2
    then obtain ds as ps where "wf_network (Network_allow ds as ps)"
      "s = ser_list ser_domain ds @ ser_list ser_address as @ ser_list ser_port ps @ r'"
      unfolding ValidateAllowList_iff by blast
    then show ?thesis using 2 by (intro exI [of _ "Network_allow ds as ps"]) simp
  qed
next
  assume "\<exists>n. wf_network n \<and> r = ser_network n @ r'"
  then obtain n where n: "wf_network n" "r = ser_network n @ r'" by blast
  then show "ValidateNetwork r = Some r'"
  proof (cases n)
    case (Network_allow ds as ps)
    have "ValidateAllowList (ser_list ser_domain ds @ ser_list ser_address as @ ser_list ser_port ps @ r') = Some r'"
      using n Network_allow ValidateAllowList_iff by blast
    then show ?thesis using n Network_allow by (simp add: ValidateNetwork_def)
  qed (simp add: ValidateNetwork_def)
qed

lemma ser_network_unique:
  assumes "wf_network m" "wf_network n" "ser_network m @ s = ser_network n @ t"
  shows "m = n \<and> s = t"
proof (cases m; cases n)
  fix ds as ps es bs qs
  assume mn: "m = Network_allow ds as ps" "n = Network_allow es bs qs"
  have w: "count_ok (length ds)" "count_ok (length as)" "count_ok (length ps)"
    "count_ok (length es)" "count_ok (length bs)" "count_ok (length qs)"
    "list_all wf_domain ds" "list_all wf_address as" "list_all wf_port ps"
    "list_all wf_domain es" "list_all wf_address bs" "list_all wf_port qs"
    using assms mn by auto
  have "ser_list ser_domain ds @ (ser_list ser_address as @ ser_list ser_port ps @ s) =
      ser_list ser_domain es @ (ser_list ser_address bs @ ser_list ser_port qs @ t)"
    using assms(3) mn by simp
  from net_domain.counted_unique [OF w(1,4,7,10) this]
  have d: "ds = es" "ser_list ser_address as @ (ser_list ser_port ps @ s) = ser_list ser_address bs @ (ser_list ser_port qs @ t)"
    by simp_all
  from net_address.counted_unique [OF w(2,5,8,11) d(2)]
  have a: "as = bs" "ser_list ser_port ps @ s = ser_list ser_port qs @ t" by simp_all
  from net_port.counted_unique [OF w(3,6,9,12) a(2)] show ?thesis using d a mn by simp
qed (use assms in auto)

interpretation net_section: recogniser ValidateNetwork ser_network wf_network
  using ValidateNetwork_iff ser_network_unique by unfold_locales blast+

lemma ValidateBody_iff: "ValidateBody u body \<longleftrightarrow> (\<exists>b. wf_body u b \<and> body = ser_body b)"
proof
  assume "ValidateBody u body"
  then obtain c r1 r2 r3 where a: "body = c # r1" "c \<le> 3" "ValidateFilesystem r1 = Some r2"
    "ValidateNetwork r2 = Some r3" "ValidateRegistry u r3 = Some []"
    by (auto simp: ValidateBody_def Finished_def bind_eq_Some_conv not_less split: option.splits if_splits)
  obtain fs n rs where
    "count_ok (length fs)" "list_all wf_fs_rule fs" "r1 = ser_list ser_fs_rule fs @ r2"
    "wf_network n" "r2 = ser_network n @ r3"
    "length rs \<le> kRegistryTotalLimit" "list_all (wf_registry_entry u) rs" "r3 = ser_list ser_registry_entry rs @ []"
    using a(3-5) unfolding ValidateFilesystem_iff ValidateNetwork_iff ValidateRegistry_iff by blast
  with a show "\<exists>b. wf_body u b \<and> body = ser_body b"
    by (intro exI [of _ "\<lparr>pb_child = c, pb_filesystem = fs, pb_network = n, pb_registry = rs\<rparr>"])
       (simp add: wf_body_def ser_body_def)
next
  assume "\<exists>b. wf_body u b \<and> body = ser_body b"
  then obtain b where wf: "wf_body u b" and body: "body = ser_body b" by blast
  have f: "ValidateFilesystem (ser_list ser_fs_rule (pb_filesystem b) @ t) = Some t" for t
    using wf unfolding ValidateFilesystem_iff wf_body_def by blast
  have r: "ValidateRegistry u (ser_list ser_registry_entry (pb_registry b)) = Some []"
    using wf unfolding ValidateRegistry_iff wf_body_def by auto
  have "ValidateNetwork (ser_network (pb_network b) @ t) = Some t" for t
    using wf by (auto simp: wf_body_def net_section.val_complete)
  with f r wf show "ValidateBody u body"
    by (simp add: body ValidateBody_def ser_body_def Finished_def wf_body_def not_less)
qed

lemma ser_body_unique:
  assumes "wf_body u a" "wf_body u b" "ser_body a = ser_body b"
  shows "a = b"
proof -
  have f: "ser_list ser_fs_rule (pb_filesystem a) @ (ser_network (pb_network a) @ ser_list ser_registry_entry (pb_registry a)) =
     ser_list ser_fs_rule (pb_filesystem b) @ (ser_network (pb_network b) @ ser_list ser_registry_entry (pb_registry b))"
    and c: "pb_child a = pb_child b"
    using assms(3) by (simp_all add: ser_body_def)
  have 1: "pb_filesystem a = pb_filesystem b \<and> ser_network (pb_network a) @ ser_list ser_registry_entry (pb_registry a) =
     ser_network (pb_network b) @ ser_list ser_registry_entry (pb_registry b)"
    using fs_rule.counted_unique [OF _ _ _ _ f] assms by (simp add: wf_body_def)
  then have 2: "pb_network a = pb_network b \<and> ser_list ser_registry_entry (pb_registry a) = ser_list ser_registry_entry (pb_registry b)"
    using ser_network_unique assms by (meson wf_body_def)
  have "pb_registry a = pb_registry b"
    using reg_rule.counted_unique [where u = u and s = "[]" and t = "[]" and xs = "pb_registry a" and ys = "pb_registry b"] 2 assms
    by (auto simp: wf_body_def)
  with 1 2 c show ?thesis by simp
qed

section \<open>The envelope\<close>

lemma length_kPolicyMagic [simp]: "length kPolicyMagic = 4"
  by (simp add: kPolicyMagic_def)

lemma length_policy_head [simp]: "length (policy_head n) = 12"
  by (simp add: policy_head_def)

lemma policy_head_iff:
  assumes "12 \<le> length p"
  shows "take 12 p = policy_head n \<longleftrightarrow>
    HasMagic kPolicyMagic p \<and> ReadU16 p 4 = 1 \<and> ReadU16 p 6 = 44 \<and> ReadU32 p 8 = of_nat n"
proof -
  have "take 12 p = sub_bytes 0 4 p @ sub_bytes 4 2 p @ sub_bytes 6 2 p @ sub_bytes 8 4 p"
    using sub_bytes_split [of 4 12 0 p] sub_bytes_split [of 2 8 4 p] sub_bytes_split [of 2 6 6 p]
    by (simp add: sub_bytes_0)
  then show ?thesis
    using assms by (simp add: policy_head_def HasMagic_sub_bytes length_sub_bytes f16.read_eq_iff f32.read_eq_iff)
qed

lemma envelope_split: "p = take 12 p @ sub_bytes 12 32 p @ drop 44 p"
  using append_take_drop_id [of 12 p] append_take_drop_id [of 32 "drop 12 p"]
  by (simp add: sub_bytes_def)

lemma ValidatePolicyPayload_fields:
  "ValidatePolicyPayload sha u (Some p) = Policy_kValid \<longleftrightarrow>
     44 \<le> length p \<and> length p - 44 \<le> kPolicyMaximumBodyLength \<and> take 12 p = policy_head (length p - 44) \<and>
     sha (take 12 p @ drop 44 p) = Some (sub_bytes 12 32 p) \<and> ValidateBody u (drop 44 p)"
proof (cases "44 \<le> length p")
  case True
  define n where "n = length p - 44"
  have "ValidatePolicyPayload sha u (Some p) = Policy_kValid \<longleftrightarrow>
      HasMagic kPolicyMagic p \<and> ReadU16 p 4 = 1 \<and> ReadU16 p 6 = 44 \<and> n \<le> kPolicyMaximumBodyLength \<and>
      unat (ReadU32 p 8) = n \<and> HashPayload sha p n = Some (sub_bytes 12 32 p) \<and> ValidateBody u (drop 44 p)"
    using True by (auto simp: ValidatePolicyPayload_def Let_def n_def split: option.split)
  also have "\<dots> \<longleftrightarrow> n \<le> kPolicyMaximumBodyLength \<and> take 12 p = policy_head n \<and>
      HashPayload sha p n = Some (sub_bytes 12 32 p) \<and> ValidateBody u (drop 44 p)"
    using True by (auto simp: policy_head_iff unat_eq_of_nat_iff)
  also have "HashPayload sha p n = sha (take 12 p @ drop 44 p)"
    by (simp add: HashPayload_def sub_bytes_def n_def)
  finally show ?thesis using True by (auto simp: n_def)
qed (simp add: ValidatePolicyPayload_def)

lemma ValidatePolicyPayload_envelope:
  assumes "wf_body u b" "length (ser_body b) \<le> kPolicyMaximumBodyLength"
    "sha (policy_head (length (ser_body b)) @ ser_body b) = Some digest" "length digest = 32"
  shows "ValidatePolicyPayload sha u (Some (policy_envelope digest (ser_body b))) = Policy_kValid"
    "drop 44 (policy_envelope digest (ser_body b)) = ser_body b"
proof -
  let ?p = "policy_envelope digest (ser_body b)"
  have "length ?p - 44 = length (ser_body b)" "44 \<le> length ?p" "take 12 ?p = policy_head (length (ser_body b))"
    "drop 44 ?p = ser_body b" "sub_bytes 12 32 ?p = digest"
    using assms(4) by (simp_all add: policy_envelope_def sub_bytes_def)
  moreover have "ValidateBody u (ser_body b)" using assms(1) ValidateBody_iff by blast
  ultimately show "ValidatePolicyPayload sha u (Some ?p) = Policy_kValid" "drop 44 ?p = ser_body b"
    unfolding ValidatePolicyPayload_fields using assms by simp_all
qed

section \<open>Properties\<close>

text \<open>
  C15. The grammar of the policy body: \<open>ValidateBody\<close> accepts a byte string if and only if it is
  the serialisation of a well-formed policy (rule kinds, component kinds, counts, limits and
  UTF-8 names), and then of exactly one.
\<close>

theorem policy_body_language:
  "ValidateBody is_utf8 body \<longleftrightarrow> (\<exists>!b. wf_body is_utf8 b \<and> body = ser_body b)"
  unfolding ValidateBody_iff using ser_body_unique by blast

text \<open>
  C5. \<open>ValidatePolicyPayload\<close> accepts exactly the envelopes (magic, version, header length, body
  length, SHA-256 digest of header and body) of well-formed policies of at most 1 MiB.
\<close>

theorem policy_payload_language:
  "ValidatePolicyPayload sha256 is_utf8 ptr = Policy_kValid \<longleftrightarrow>
     (\<exists>b digest. wf_body is_utf8 b \<and> length (ser_body b) \<le> kPolicyMaximumBodyLength \<and>
        length digest = 32 \<and> sha256 (policy_head (length (ser_body b)) @ ser_body b) = Some digest \<and>
        ptr = Some (policy_envelope digest (ser_body b)))"
proof (cases ptr)
  case None
  then show ?thesis by (simp add: ValidatePolicyPayload_def)
next
  case (Some p)
  show ?thesis
  proof
    assume "ValidatePolicyPayload sha256 is_utf8 ptr = Policy_kValid"
    then have v: "44 \<le> length p" "length p - 44 \<le> kPolicyMaximumBodyLength"
      "take 12 p = policy_head (length p - 44)"
      "sha256 (take 12 p @ drop 44 p) = Some (sub_bytes 12 32 p)" "ValidateBody is_utf8 (drop 44 p)"
      using Some ValidatePolicyPayload_fields by auto
    then obtain b where b: "wf_body is_utf8 b" "drop 44 p = ser_body b"
      using ValidateBody_iff by blast
    have "length (ser_body b) = length p - 44" using b(2) by (metis length_drop)
    moreover have "p = policy_envelope (sub_bytes 12 32 p) (ser_body b)"
      using envelope_split [of p] v(3) b(2) calculation by (simp add: policy_envelope_def)
    ultimately show "\<exists>b digest. wf_body is_utf8 b \<and> length (ser_body b) \<le> kPolicyMaximumBodyLength \<and>
        length digest = 32 \<and> sha256 (policy_head (length (ser_body b)) @ ser_body b) = Some digest \<and>
        ptr = Some (policy_envelope digest (ser_body b))"
      using v b Some by (intro exI [of _ b] exI [of _ "sub_bytes 12 32 p"]) (simp add: length_sub_bytes)
  next
    assume "\<exists>b digest. wf_body is_utf8 b \<and> length (ser_body b) \<le> kPolicyMaximumBodyLength \<and>
        length digest = 32 \<and> sha256 (policy_head (length (ser_body b)) @ ser_body b) = Some digest \<and>
        ptr = Some (policy_envelope digest (ser_body b))"
    then obtain b digest where b: "wf_body is_utf8 b" "length (ser_body b) \<le> kPolicyMaximumBodyLength"
      "length digest = 32" "sha256 (policy_head (length (ser_body b)) @ ser_body b) = Some digest"
      "p = policy_envelope digest (ser_body b)"
      using Some by blast
    then show "ValidatePolicyPayload sha256 is_utf8 ptr = Policy_kValid"
      using Some ValidatePolicyPayload_envelope(1) [where sha = sha256, OF b(1,2,4,3)] by simp
  qed
qed

end
