(* ===== verification/NetworkPolicy.thy ===== *)
theory NetworkPolicy
  imports PolicyPayload
begin

text \<open>
  \<open>src/native/hook/network/network_policy.cpp\<close>: loading the network section of a policy and
  the decisions on domains, addresses and ports.

  Shown: \<open>IsCanonicalDomain\<close> is the label grammar of host names without dotted-quad IPv4
  addresses; address rules match exactly on their prefix bits; \<open>Load\<close> succeeds exactly on
  the policies whose allow list is canonical and then returns the rules of that policy;
  the decisions are the membership questions of the three rule lists.
\<close>

section \<open>Definitions\<close>

datatype Mode = Mode_kUnrestricted | Mode_kDenied | Mode_kAllowList

text \<open>An address family is its underlying value, because \<open>DecideAddress\<close> range-checks it.\<close>

abbreviation (input) AddressFamily_kIpv4 :: u8 where "AddressFamily_kIpv4 \<equiv> 4"
abbreviation (input) AddressFamily_kIpv6 :: u8 where "AddressFamily_kIpv6 \<equiv> 6"

datatype Decision = Decision_kAllow | Decision_kDeny

datatype PolicyLoadStatus =
    Load_kValid
  | Load_kInvalidPayload
  | Load_kInvalidNetworkPolicy
  | Load_kOutOfMemory

abbreviation (input) kMaximumRulesPerCategory :: nat where "kMaximumRulesPerCategory \<equiv> 1024"
abbreviation (input) kMaximumTotalRules :: nat where "kMaximumTotalRules \<equiv> 2048"
abbreviation (input) kMaximumDomainLength :: nat where "kMaximumDomainLength \<equiv> 253"

record DomainRule =
  ascii_domain :: bytes
  wildcard :: bool

record AddressRule =
  rule_family :: u8
  prefix_length :: u8
  rule_address :: bytes

record PortRule =
  port_start :: u16
  port_end :: u16

record NetworkImpl =
  domains :: "DomainRule list"
  addresses :: "AddressRule list"
  ports :: "PortRule list"

record NetworkPolicy =
  policy_mode :: Mode
  policy_impl :: "NetworkImpl option"

subsection \<open>Host names\<close>

abbreviation (input) chr_dot :: u8 where "chr_dot \<equiv> 0x2E"
abbreviation (input) chr_hyphen :: u8 where "chr_hyphen \<equiv> 0x2D"

definition is_digit :: "u8 \<Rightarrow> bool" where
  "is_digit b = (0x30 \<le> b \<and> b \<le> 0x39)"

definition is_lower :: "u8 \<Rightarrow> bool" where
  "is_lower b = (0x61 \<le> b \<and> b \<le> 0x7A)"

text \<open>The loop variables of \<open>IsCanonicalDomain\<close>.\<close>

record canonical_state =
  label_length :: nat
  label_count :: nat
  all_labels_numeric :: bool
  ipv4_candidate :: bool
  numeric_label :: nat
  first_is_hyphen :: bool
  last_is_hyphen :: bool

definition canonical_init :: canonical_state where
  "canonical_init = \<lparr>label_length = 0, label_count = 1, all_labels_numeric = True,
     ipv4_candidate = True, numeric_label = 0, first_is_hyphen = False, last_is_hyphen = False\<rparr>"

text \<open>One iteration; \<open>None\<close> is the early \<open>return false\<close>.\<close>

definition canonical_step :: "u8 \<Rightarrow> canonical_state \<Rightarrow> canonical_state option" where
  "canonical_step byte st =
     (if byte = chr_dot then
        if label_length st = 0 \<or> 63 < label_length st \<or> first_is_hyphen st \<or> last_is_hyphen st
        then None
        else Some (st\<lparr>label_count := label_count st + 1, label_length := 0,
               first_is_hyphen := False, last_is_hyphen := False, numeric_label := 0\<rparr>)
      else if \<not> (is_lower byte \<or> is_digit byte \<or> byte = chr_hyphen) then None
      else
        let st = (if label_length st = 0 then st\<lparr>first_is_hyphen := (byte = chr_hyphen)\<rparr> else st);
            st = st\<lparr>label_length := label_length st + 1, last_is_hyphen := (byte = chr_hyphen)\<rparr>;
            st = (if is_digit byte then
                    if ipv4_candidate st then
                      let digit = unat (byte - 0x30)
                      in if 25 < numeric_label st \<or> 255 < numeric_label st * 10 + digit
                         then st\<lparr>ipv4_candidate := False\<rparr>
                         else st\<lparr>numeric_label := numeric_label st * 10 + digit\<rparr>
                    else st
                  else st\<lparr>all_labels_numeric := False\<rparr>)
        in if 63 < label_length st then None else Some st)"

fun canonical_scan :: "bytes \<Rightarrow> canonical_state \<Rightarrow> canonical_state option" where
  "canonical_scan [] st = Some st"
| "canonical_scan (byte # rest) st =
     (case canonical_step byte st of None \<Rightarrow> None | Some st' \<Rightarrow> canonical_scan rest st')"

definition IsCanonicalDomain :: "bytes \<Rightarrow> bool" where
  "IsCanonicalDomain domain =
     (if domain = [] \<or> kMaximumDomainLength < length domain \<or> hd domain = chr_dot \<or>
         last domain = chr_dot
      then False
      else case canonical_scan domain canonical_init of
          None \<Rightarrow> False
        | Some st \<Rightarrow>
            label_length st \<noteq> 0 \<and> \<not> first_is_hyphen st \<and> \<not> last_is_hyphen st \<and>
            \<not> (all_labels_numeric st \<and> ipv4_candidate st \<and> label_count st = 4))"

definition DomainMatches :: "DomainRule \<Rightarrow> bytes \<Rightarrow> bool" where
  "DomainMatches rule candidate =
     (if \<not> wildcard rule then candidate = ascii_domain rule
      else if length candidate \<le> length (ascii_domain rule) + 1 \<or>
              drop (length candidate - length (ascii_domain rule)) candidate \<noteq> ascii_domain rule
      then False
      else candidate ! (length candidate - length (ascii_domain rule) - 1) = chr_dot)"

subsection \<open>Addresses\<close>

definition HostBitsAreZero :: "bytes \<Rightarrow> nat \<Rightarrow> u8 \<Rightarrow> bool" where
  "HostBitsAreZero address address_length prefix =
     (let full_bytes = unat prefix div 8;
          remaining_bits = unat prefix mod 8;
          host_mask = (2 ^ (8 - remaining_bits) - 1 :: u8)
      in if remaining_bits \<noteq> 0 \<and> address ! full_bytes AND host_mask \<noteq> 0 then False
         else let first_host_byte = full_bytes + (if remaining_bits = 0 then 0 else 1)
              in list_all (\<lambda>byte. byte = 0)
                   (sub_bytes first_host_byte (address_length - first_host_byte) address))"

definition AddressMatches :: "AddressRule \<Rightarrow> u8 \<Rightarrow> byte_ptr \<Rightarrow> bool" where
  "AddressMatches rule family ptr =
     (let expected_length = (if family = AddressFamily_kIpv4 then 4 else 16)
      in case ptr of
          None \<Rightarrow> False
        | Some candidate \<Rightarrow>
            if rule_family rule \<noteq> family \<or> length candidate \<noteq> expected_length then False
            else let full_bytes = unat (prefix_length rule) div 8
              in if take full_bytes (rule_address rule) \<noteq> take full_bytes candidate then False
              else let remaining_bits = unat (prefix_length rule) mod 8
                in if remaining_bits = 0 then True
                   else let mask = (push_bit (8 - remaining_bits) 0xff :: u8)
                     in rule_address rule ! full_bytes AND mask = candidate ! full_bytes AND mask)"

subsection \<open>Loading\<close>

definition SkipRecord :: "Reader \<Rightarrow> Reader option" where
  "SkipRecord body = do {
     (record_length, body) \<leftarrow> ReadCount body;
     (_, body) \<leftarrow> ReadBytes record_length body;
     Some body }"

definition ReadNetworkMode :: "Reader \<Rightarrow> (u8 \<times> Reader) option" where
  "ReadNetworkMode body = do {
     (child_policy, body) \<leftarrow> ReaderU8 body;
     (filesystem_rule_count, body) \<leftarrow> ReadCount body;
     body \<leftarrow> repeat_read filesystem_rule_count SkipRecord body;
     ReaderU8 body }"

definition LoadDomainRule :: "Reader \<Rightarrow> (DomainRule \<times> Reader) option" where
  "LoadDomainRule body = do {
     (wildcard_byte, body) \<leftarrow> ReaderU8 body;
     if 1 < wildcard_byte then None
     else do {
       (domain_length, body) \<leftarrow> ReadCount body;
       if domain_length = 0 \<or> kMaximumDomainLength < domain_length then None
       else do {
         (domain_bytes, body) \<leftarrow> ReadBytes domain_length body;
         let rule = \<lparr>ascii_domain = domain_bytes, wildcard = (wildcard_byte \<noteq> 0)\<rparr>;
         if \<not> IsCanonicalDomain (ascii_domain rule) then None else Some (rule, body) } } }"

definition LoadAddressRule :: "Reader \<Rightarrow> (AddressRule \<times> Reader) option" where
  "LoadAddressRule body = do {
     (family, body) \<leftarrow> ReaderU8 body;
     (prefix, body) \<leftarrow> ReaderU8 body;
     address_length \<leftarrow> (if family = 4 \<and> prefix \<le> 32 then Some 4
                       else if family = 6 \<and> prefix \<le> 128 then Some 16 else None);
     (address_bytes, body) \<leftarrow> ReadBytes address_length body;
     let rule = \<lparr>rule_family = family, prefix_length = prefix,
                  rule_address = put_bytes (replicate 16 0) 0 address_bytes\<rparr>;
     if \<not> HostBitsAreZero (rule_address rule) address_length prefix then None
     else Some (rule, body) }"

text \<open>The port loop; \<open>previous\<close> is \<open>None\<close> in the first iteration, else \<open>previous_end\<close>.\<close>

fun LoadPortRules :: "nat \<Rightarrow> u16 option \<Rightarrow> Reader \<Rightarrow> (PortRule list \<times> Reader) option" where
  "LoadPortRules 0 previous body = Some ([], body)"
| "LoadPortRules (Suc n) previous body = do {
     (start, body) \<leftarrow> ReaderU16 body;
     (stop, body) \<leftarrow> ReaderU16 body;
     if start = 0 \<or> stop < start \<or>
        (case previous of None \<Rightarrow> False | Some previous_end \<Rightarrow> start \<le> previous_end)
     then None
     else do {
       (rules, body) \<leftarrow> LoadPortRules n (Some stop) body;
       Some (\<lparr>port_start = start, port_end = stop\<rparr> # rules, body) } }"

definition LoadAllowList :: "Reader \<Rightarrow> NetworkImpl option" where
  "LoadAllowList body = do {
     (domain_count, body) \<leftarrow> ReadCount body;
     if kMaximumRulesPerCategory < domain_count then None
     else do {
       (ds, body) \<leftarrow> read_many domain_count LoadDomainRule body;
       (address_count, body) \<leftarrow> ReadCount body;
       if kMaximumRulesPerCategory < address_count \<or>
          kMaximumTotalRules - address_count < domain_count
       then None
       else do {
         (as, body) \<leftarrow> read_many address_count LoadAddressRule body;
         (port_count, body) \<leftarrow> ReadCount body;
         if kMaximumRulesPerCategory < port_count \<or>
            kMaximumTotalRules - port_count < domain_count + address_count
         then None
         else do {
           (ps, body) \<leftarrow> LoadPortRules port_count None body;
           Some \<lparr>domains = ds, addresses = as, ports = ps\<rparr> } } } }"

text \<open>
  \<open>NetworkPolicy::Load\<close>: the status and \<open>policy\<close> (\<open>None\<close> after the initial \<open>reset\<close>).
  Allocations succeed.
\<close>

definition NetworkPolicy_Load ::
  "(bytes \<Rightarrow> bytes option) \<Rightarrow> (bytes \<Rightarrow> bool) \<Rightarrow> byte_ptr \<Rightarrow> PolicyLoadStatus \<times> NetworkPolicy option" where
  "NetworkPolicy_Load sha256 is_utf8 ptr =
     (if ValidatePolicyPayload sha256 is_utf8 ptr \<noteq> Policy_kValid then (Load_kInvalidPayload, None)
      else case ReadNetworkMode (drop kPolicyEnvelopeLength (the ptr)) of
          None \<Rightarrow> (Load_kInvalidNetworkPolicy, None)
        | Some (network_mode, body) \<Rightarrow>
            if 2 < network_mode then (Load_kInvalidNetworkPolicy, None)
            else
              (case (if network_mode = 2 then LoadAllowList body
                     else Some \<lparr>domains = [], addresses = [], ports = []\<rparr>) of
                 None \<Rightarrow> (Load_kInvalidNetworkPolicy, None)
               | Some implementation \<Rightarrow>
                   let mode = (if network_mode = 0 then Mode_kUnrestricted
                               else if network_mode = 1 then Mode_kDenied else Mode_kAllowList)
                   in (Load_kValid, Some \<lparr>policy_mode = mode, policy_impl = Some implementation\<rparr>)))"

subsection \<open>Decisions\<close>

definition DecideConnect :: "NetworkPolicy \<Rightarrow> Decision" where
  "DecideConnect policy =
     (if policy_mode policy = Mode_kUnrestricted then Decision_kAllow else Decision_kDeny)"

text \<open>\<open>std::tolower\<close> in the C locale.\<close>

definition tolower :: "u8 \<Rightarrow> u8" where
  "tolower b = (if 0x41 \<le> b \<and> b \<le> 0x5A then b + 0x20 else b)"

definition DecideDomain :: "NetworkPolicy \<Rightarrow> char_ptr \<Rightarrow> Decision" where
  "DecideDomain policy ptr =
     (if policy_mode policy = Mode_kUnrestricted then Decision_kAllow
      else if policy_mode policy \<noteq> Mode_kAllowList \<or> ptr = None \<or> policy_impl policy = None
      then Decision_kDeny
      else let candidate = map tolower (c_str (the ptr))
        in if \<not> IsCanonicalDomain candidate then Decision_kDeny
           else if list_ex (\<lambda>rule. DomainMatches rule candidate) (domains (the (policy_impl policy)))
           then Decision_kAllow else Decision_kDeny)"

definition DecideAddress :: "NetworkPolicy \<Rightarrow> u8 \<Rightarrow> byte_ptr \<Rightarrow> Decision" where
  "DecideAddress policy family address =
     (if policy_mode policy = Mode_kUnrestricted then Decision_kAllow
      else if policy_mode policy \<noteq> Mode_kAllowList \<or> policy_impl policy = None \<or>
              (family \<noteq> AddressFamily_kIpv4 \<and> family \<noteq> AddressFamily_kIpv6)
      then Decision_kDeny
      else if list_ex (\<lambda>rule. AddressMatches rule family address)
                (addresses (the (policy_impl policy)))
      then Decision_kAllow else Decision_kDeny)"

definition DecidePort :: "NetworkPolicy \<Rightarrow> u16 \<Rightarrow> Decision" where
  "DecidePort policy port =
     (if policy_mode policy = Mode_kUnrestricted then Decision_kAllow
      else if policy_mode policy \<noteq> Mode_kAllowList \<or> policy_impl policy = None then Decision_kDeny
      else if list_ex (\<lambda>rule. port_start rule \<le> port \<and> port \<le> port_end rule)
                (ports (the (policy_impl policy)))
      then Decision_kAllow else Decision_kDeny)"

subsection \<open>Specification\<close>

text \<open>The labels of a host name, what a label may look like, and dotted-quad IPv4 addresses.\<close>

fun labels :: "bytes \<Rightarrow> bytes list" where
  "labels [] = [[]]"
| "labels (b # bs) =
     (if b = chr_dot then [] # labels bs else (b # hd (labels bs)) # tl (labels bs))"

definition ldh :: "u8 \<Rightarrow> bool" where
  "ldh b = (is_lower b \<or> is_digit b \<or> b = chr_hyphen)"

definition label_ok :: "bytes \<Rightarrow> bool" where
  "label_ok l = (l \<noteq> [] \<and> length l \<le> 63 \<and> list_all ldh l \<and> hd l \<noteq> chr_hyphen \<and> last l \<noteq> chr_hyphen)"

definition decimal :: "bytes \<Rightarrow> nat" where
  "decimal l = fold (\<lambda>b n. n * 10 + unat (b - 0x30)) l 0"

definition dotted_quad :: "bytes list \<Rightarrow> bool" where
  "dotted_quad ls = (length ls = 4 \<and> list_all (\<lambda>l. list_all is_digit l \<and> decimal l \<le> 255) ls)"

definition host_name :: "bytes \<Rightarrow> bool" where
  "host_name d = (length d \<le> kMaximumDomainLength \<and> list_all label_ok (labels d) \<and> \<not> dotted_quad (labels d))"

text \<open>What the loop variables say about the finished labels \<open>ds\<close> and the current one.\<close>

definition scan_inv :: "canonical_state \<Rightarrow> bytes list \<Rightarrow> bytes \<Rightarrow> bool" where
  "scan_inv st ds cur =
     (label_length st = length cur \<and> length cur \<le> 63 \<and> list_all ldh cur \<and>
      label_count st = length ds + 1 \<and>
      first_is_hyphen st = (cur \<noteq> [] \<and> hd cur = chr_hyphen) \<and>
      last_is_hyphen st = (cur \<noteq> [] \<and> last cur = chr_hyphen) \<and>
      all_labels_numeric st = list_all (list_all is_digit) (ds @ [cur]) \<and>
      (all_labels_numeric st \<longrightarrow>
         ipv4_candidate st = list_all (\<lambda>l. decimal l \<le> 255) (ds @ [cur]) \<and>
         (ipv4_candidate st \<longrightarrow> numeric_label st = decimal cur)))"

definition scan_accepts :: "canonical_state \<Rightarrow> bool" where
  "scan_accepts st = (label_length st \<noteq> 0 \<and> \<not> first_is_hyphen st \<and> \<not> last_is_hyphen st \<and>
     \<not> (all_labels_numeric st \<and> ipv4_candidate st \<and> label_count st = 4))"

text \<open>Bits of an address in network order, and what \<open>Load\<close> guarantees of a rule.\<close>

definition addr_bit :: "bytes \<Rightarrow> nat \<Rightarrow> bool" where
  "addr_bit address i = bit (address ! (i div 8)) (7 - i mod 8)"

definition wf_address_rule :: "AddressRule \<Rightarrow> bool" where
  "wf_address_rule rule =
     (length (rule_address rule) = 16 \<and>
      (rule_family rule = AddressFamily_kIpv4 \<and> prefix_length rule \<le> 32 \<or>
       rule_family rule = AddressFamily_kIpv6 \<and> prefix_length rule \<le> 128))"

text \<open>The loaded form of a validated entry, and which entries \<open>Load\<close> refuses.\<close>

definition domain_rule :: "domain_entry \<Rightarrow> DomainRule" where
  "domain_rule d = \<lparr>ascii_domain = snd d, wildcard = (fst d \<noteq> 0)\<rparr>"

definition address_rule :: "address_entry \<Rightarrow> AddressRule" where
  "address_rule a = (case a of (family, prefix, address) \<Rightarrow>
     \<lparr>rule_family = family, prefix_length = prefix,
      rule_address = put_bytes (replicate 16 0) 0 address\<rparr>)"

definition address_ok :: "address_entry \<Rightarrow> bool" where
  "address_ok a = (case a of (family, prefix, address) \<Rightarrow>
     HostBitsAreZero (put_bytes (replicate 16 0) 0 address) (length address) prefix)"

definition port_rule :: "port_entry \<Rightarrow> PortRule" where
  "port_rule p = \<lparr>port_start = fst p, port_end = snd p\<rparr>"

fun ports_ok :: "u16 option \<Rightarrow> port_entry list \<Rightarrow> bool" where
  "ports_ok previous [] = True"
| "ports_ok previous (p # ps) =
     ((case previous of None \<Rightarrow> True | Some previous_end \<Rightarrow> previous_end < fst p) \<and> ports_ok (Some (snd p)) ps)"

fun network_ok :: "network_section \<Rightarrow> bool" where
  "network_ok (Network_mode mode) = True"
| "network_ok (Network_allow ds as ps) =
     (list_all (\<lambda>d. host_name (snd d)) ds \<and> list_all address_ok as \<and> ports_ok None ps)"

fun network_loaded :: "network_section \<Rightarrow> NetworkPolicy" where
  "network_loaded (Network_mode mode) =
     \<lparr>policy_mode = (if mode = 0 then Mode_kUnrestricted else Mode_kDenied),
      policy_impl = Some \<lparr>domains = [], addresses = [], ports = []\<rparr>\<rparr>"
| "network_loaded (Network_allow ds as ps) =
     \<lparr>policy_mode = Mode_kAllowList,
      policy_impl = Some \<lparr>domains = map domain_rule ds, addresses = map address_rule as,
        ports = map port_rule ps\<rparr>\<rparr>"

text \<open>What a policy allows, said of its entries.\<close>

fun allows_domain :: "network_section \<Rightarrow> bytes \<Rightarrow> bool" where
  "allows_domain (Network_mode mode) name = (mode = 0)"
| "allows_domain (Network_allow ds as ps) name =
     (host_name name \<and>
      (\<exists>(w, d) \<in> set ds. if w \<noteq> 0 then \<exists>sub. sub \<noteq> [] \<and> name = sub @ [chr_dot] @ d else name = d))"

fun allows_address :: "network_section \<Rightarrow> u8 \<Rightarrow> bytes \<Rightarrow> bool" where
  "allows_address (Network_mode mode) family address = (mode = 0)"
| "allows_address (Network_allow ds as ps) family address =
     (\<exists>(f, p, a) \<in> set as. f = family \<and> length address = length a \<and>
        (\<forall>i < unat p. addr_bit address i = addr_bit a i))"

fun allows_port :: "network_section \<Rightarrow> u16 \<Rightarrow> bool" where
  "allows_port (Network_mode mode) port = (mode = 0)"
| "allows_port (Network_allow ds as ps) port = (\<exists>(first, final) \<in> set ps. first \<le> port \<and> port \<le> final)"

fun network_mode_byte :: "network_section \<Rightarrow> u8" where
  "network_mode_byte (Network_mode mode) = mode"
| "network_mode_byte (Network_allow ds as ps) = 2"

text \<open>A small policy for the concrete instances below.\<close>

definition sample_body :: policy_body where
  "sample_body = \<lparr>pb_child = 0, pb_filesystem = [],
     pb_network = Network_allow [(1, ascii ''ok.io'')] [(4, 8, [10, 0, 0, 0])] [(443, 443)],
     pb_registry = []\<rparr>"

section \<open>Host names\<close>

lemma labels_not_Nil [simp]: "labels d \<noteq> []"
  by (cases d) auto

lemma labels_snoc_dot: "labels (d @ [chr_dot]) = labels d @ [[]]"
  by (induction d) auto

lemma decimal_snoc: "decimal (l @ [b]) = decimal l * 10 + unat (b - 0x30)"
  by (simp add: decimal_def)

lemma ldh_not_dot: "ldh b \<Longrightarrow> b \<noteq> chr_dot"
  by (auto simp: ldh_def is_lower_def is_digit_def word_le_nat_alt)

lemma scan_inv_init: "scan_inv canonical_init [] []"
  by (simp add: scan_inv_def canonical_init_def decimal_def)

lemma canonical_step_dot:
  assumes "scan_inv st ds cur"
  shows "if label_ok cur then \<exists>st'. canonical_step chr_dot st = Some st' \<and> scan_inv st' (ds @ [cur]) []
    else canonical_step chr_dot st = None"
  using assms by (auto simp: canonical_step_def scan_inv_def label_ok_def decimal_def)

lemma canonical_step_reject:
  assumes "scan_inv st ds cur" "b \<noteq> chr_dot" "\<not> (ldh b \<and> length cur < 63)"
  shows "canonical_step b st = None"
  using assms by (cases "ldh b"; cases cur) (auto simp: canonical_step_def scan_inv_def ldh_def Let_def)

lemma canonical_step_fields:
  assumes "b \<noteq> chr_dot" "ldh b" "label_length st < 63"
  shows "\<exists>st'. canonical_step b st = Some st' \<and>
    label_length st' = label_length st + 1 \<and> label_count st' = label_count st \<and>
    first_is_hyphen st' = (if label_length st = 0 then b = chr_hyphen else first_is_hyphen st) \<and>
    last_is_hyphen st' = (b = chr_hyphen) \<and>
    all_labels_numeric st' = (all_labels_numeric st \<and> is_digit b) \<and>
    (is_digit b \<longrightarrow> ipv4_candidate st' = (ipv4_candidate st \<and> numeric_label st * 10 + unat (b - 0x30) \<le> 255)) \<and>
    (is_digit b \<longrightarrow> ipv4_candidate st' \<longrightarrow> numeric_label st' = numeric_label st * 10 + unat (b - 0x30))"
  using assms unfolding canonical_step_def ldh_def Let_def
  by (cases "is_digit b"; cases "ipv4_candidate st";
      cases "255 < numeric_label st * 10 + unat (b - 0x30)"; cases "25 < numeric_label st"; simp)

lemma canonical_step_other:
  assumes inv: "scan_inv st ds cur" and b: "b \<noteq> chr_dot" "ldh b" "length cur < 63"
  shows "\<exists>st'. canonical_step b st = Some st' \<and> scan_inv st' ds (cur @ [b])"
proof -
  have len: "label_length st < 63" using inv b by (simp add: scan_inv_def)
  obtain st' where st': "canonical_step b st = Some st'"
    "label_length st' = label_length st + 1" "label_count st' = label_count st"
    "first_is_hyphen st' = (if label_length st = 0 then b = chr_hyphen else first_is_hyphen st)"
    "last_is_hyphen st' = (b = chr_hyphen)"
    "all_labels_numeric st' = (all_labels_numeric st \<and> is_digit b)"
    "is_digit b \<Longrightarrow> ipv4_candidate st' = (ipv4_candidate st \<and> numeric_label st * 10 + unat (b - 0x30) \<le> 255)"
    "is_digit b \<Longrightarrow> ipv4_candidate st' \<Longrightarrow> numeric_label st' = numeric_label st * 10 + unat (b - 0x30)"
    using canonical_step_fields [OF b(1,2) len] by blast
  have fh: "first_is_hyphen st' = (hd (cur @ [b]) = chr_hyphen)"
    using inv st'(4) by (cases cur) (auto simp: scan_inv_def)
  have num: "all_labels_numeric st' = list_all (list_all is_digit) (ds @ [cur @ [b]])"
    using inv st'(6) by (auto simp: scan_inv_def)
  have quad: "ipv4_candidate st' = list_all (\<lambda>l. decimal l \<le> 255) (ds @ [cur @ [b]]) \<and>
      (ipv4_candidate st' \<longrightarrow> numeric_label st' = decimal (cur @ [b]))" if "all_labels_numeric st'"
  proof -
    have d: "is_digit b" "all_labels_numeric st" using that st'(6) by auto
    then have c: "ipv4_candidate st = list_all (\<lambda>l. decimal l \<le> 255) (ds @ [cur])"
      "ipv4_candidate st \<Longrightarrow> numeric_label st = decimal cur"
      using inv by (auto simp: scan_inv_def)
    show ?thesis
      using st'(7,8) d c by (cases "ipv4_candidate st") (auto simp: decimal_snoc)
  qed
  show ?thesis
    using inv st' b fh num quad by (auto simp: scan_inv_def)
qed

lemma canonical_scan_labels:
  assumes "scan_inv st ds cur"
  shows "(case canonical_scan bs st of None \<Rightarrow> False | Some st' \<Rightarrow> scan_accepts st') \<longleftrightarrow>
    list_all label_ok ((cur @ hd (labels bs)) # tl (labels bs)) \<and>
    \<not> dotted_quad (ds @ (cur @ hd (labels bs)) # tl (labels bs))"
  using assms
proof (induction bs arbitrary: st ds cur)
  case Nil
  have "scan_accepts st \<longleftrightarrow> label_ok cur \<and> \<not> dotted_quad (ds @ [cur])"
    using Nil unfolding scan_accepts_def scan_inv_def label_ok_def dotted_quad_def
    by (auto simp: list_all_iff)
  then show ?case by simp
next
  case (Cons b bs)
  consider "b = chr_dot" "label_ok cur" | "b = chr_dot" "\<not> label_ok cur"
    | "b \<noteq> chr_dot" "ldh b" "length cur < 63" | "b \<noteq> chr_dot" "\<not> (ldh b \<and> length cur < 63)"
    by blast
  then show ?case
  proof cases
    case 1
    then obtain st' where st': "canonical_step b st = Some st'" "scan_inv st' (ds @ [cur]) []"
      using canonical_step_dot [OF Cons.prems] by auto
    show ?thesis using Cons.IH [OF st'(2)] 1 st'(1) by simp
  next
    case 2
    then show ?thesis using canonical_step_dot [OF Cons.prems] by simp
  next
    case 3
    then obtain st' where st': "canonical_step b st = Some st'" "scan_inv st' ds (cur @ [b])"
      using canonical_step_other [OF Cons.prems] by auto
    show ?thesis using Cons.IH [OF st'(2)] 3 st'(1) by simp
  next
    case 4
    have "\<not> label_ok (cur @ b # x)" for x
      using 4 by (auto simp: label_ok_def)
    then show ?thesis using canonical_step_reject [OF Cons.prems 4] 4 by simp
  qed
qed

lemma IsCanonicalDomain_iff: "IsCanonicalDomain d \<longleftrightarrow> host_name d"
proof (cases "d = [] \<or> hd d = chr_dot \<or> last d = chr_dot")
  case True
  have "\<not> list_all label_ok (labels d)"
  proof (cases "d = [] \<or> hd d = chr_dot")
    case True
    then show ?thesis by (cases d) (auto simp: label_ok_def)
  next
    case False
    then have "d = butlast d @ [chr_dot]" using True by (metis append_butlast_last_id)
    then show ?thesis by (metis labels_snoc_dot list_all_append list.pred_inject(2) label_ok_def)
  qed
  then show ?thesis using True by (auto simp: IsCanonicalDomain_def host_name_def)
next
  case False
  have "labels d = ([] @ hd (labels d)) # tl (labels d)" by simp
  then have "(case canonical_scan d canonical_init of None \<Rightarrow> False | Some st \<Rightarrow> scan_accepts st) \<longleftrightarrow>
      list_all label_ok (labels d) \<and> \<not> dotted_quad (labels d)"
    using canonical_scan_labels [OF scan_inv_init, of d] by simp
  then show ?thesis
    using False by (simp add: IsCanonicalDomain_def host_name_def scan_accepts_def not_less cong: option.case_cong)
qed

section \<open>Address rules\<close>

lemma prefix_bits_iff:
  fixes f r :: nat
  assumes "r < 8"
  shows "(\<forall>i < 8 * f + r. P (i div 8) (7 - i mod 8)) \<longleftrightarrow>
    (\<forall>j < f. \<forall>n < 8. P j n) \<and> (\<forall>n < 8. 8 - r \<le> n \<longrightarrow> P f n)"
proof (intro iffI conjI allI impI)
  fix j n :: nat
  assume P: "\<forall>i < 8 * f + r. P (i div 8) (7 - i mod 8)" and "j < f" "n < 8"
  define m where "m = 7 - n"
  have m: "m < 8" "n = 7 - m" using \<open>n < 8\<close> by (auto simp: m_def)
  then have "8 * j + m < 8 * f + r" "(8 * j + m) div 8 = j" "(8 * j + m) mod 8 = m"
    using \<open>j < f\<close> by auto
  then show "P j n" using P m by metis
next
  fix n :: nat
  assume P: "\<forall>i < 8 * f + r. P (i div 8) (7 - i mod 8)" and "n < 8" "8 - r \<le> n"
  define m where "m = 7 - n"
  have m: "m < 8" "n = 7 - m" using \<open>n < 8\<close> by (auto simp: m_def)
  then have "8 * f + m < 8 * f + r" "(8 * f + m) div 8 = f" "(8 * f + m) mod 8 = m"
    using assms \<open>8 - r \<le> n\<close> by auto
  then show "P f n" using P m by metis
next
  fix i assume P: "(\<forall>j < f. \<forall>n < 8. P j n) \<and> (\<forall>n < 8. 8 - r \<le> n \<longrightarrow> P f n)" and i: "i < 8 * f + r"
  show "P (i div 8) (7 - i mod 8)"
  proof (cases "i div 8 < f")
    case True
    then show ?thesis using P by simp
  next
    case False
    then have "i div 8 = f" using i assms by linarith
    moreover have "i mod 8 < r" using i calculation by (metis add_less_cancel_left div_mult_mod_eq mult.commute)
    ultimately show ?thesis using P by auto
  qed
qed

lemma addr_bit_index:
  assumes "n < 8"
  shows "addr_bit a (8 * j + (7 - n)) = bit (a ! j) n"
proof -
  define m where "m = 7 - n"
  have m: "m < 8" "n = 7 - m" using assms by (auto simp: m_def)
  then show ?thesis unfolding m_def [symmetric] by (simp add: addr_bit_def)
qed

lemma word8_eq_iff: "a = b \<longleftrightarrow> (\<forall>n < 8. bit a n = bit b n)" for a b :: u8
  using bit_word_eqI [of a b] by auto

lemma byte_zero_iff: "(\<forall>n < 8. \<not> bit b n) \<longleftrightarrow> b = 0" for b :: u8
  using word8_eq_iff [of b 0] by simp

lemma take_eq_nth_iff:
  "n \<le> length a \<Longrightarrow> n \<le> length b \<Longrightarrow> take n a = take n b \<longleftrightarrow> (\<forall>j < n. a ! j = b ! j)"
  by (auto simp: list_eq_iff_nth_eq)

lemma mask_eq_iff:
  fixes a b :: u8
  assumes "0 < r" "r < 8"
  shows "a AND push_bit (8 - r) 0xff = b AND push_bit (8 - r) 0xff \<longleftrightarrow>
    (\<forall>n < 8. 8 - r \<le> n \<longrightarrow> bit a n = bit b n)"
proof -
  have ff: "bit (0xff :: u8) n \<longleftrightarrow> n < 8" for n
  proof -
    have eq: "(0xff :: u8) = mask 8" by (simp add: mask_eq_exp_minus_1)
    show ?thesis unfolding eq bit_mask_iff by simp
  qed
  have "bit (push_bit (8 - r) (0xff :: u8)) n \<longleftrightarrow> 8 - r \<le> n \<and> n < 8" for n
    unfolding bit_push_bit_iff ff using assms by auto
  then show ?thesis
    unfolding word8_eq_iff [of "a AND push_bit (8 - r) 0xff"] by (auto simp: bit_simps)
qed

lemma AddressMatches_iff:
  assumes "wf_address_rule rule"
  shows "AddressMatches rule family ptr \<longleftrightarrow>
    (\<exists>candidate. ptr = Some candidate \<and> rule_family rule = family \<and>
       length candidate = (if family = AddressFamily_kIpv4 then 4 else 16) \<and>
       (\<forall>i < unat (prefix_length rule). addr_bit (rule_address rule) i = addr_bit candidate i))"
proof (cases "\<exists>c. ptr = Some c \<and> rule_family rule = family \<and> length c = (if family = AddressFamily_kIpv4 then 4 else 16)")
  case True
  then obtain c where c: "ptr = Some c" "rule_family rule = family" "length c = (if family = AddressFamily_kIpv4 then 4 else 16)"
    by blast
  define f r where "f = unat (prefix_length rule) div 8" and "r = unat (prefix_length rule) mod 8"
  have p: "unat (prefix_length rule) = 8 * f + r" by (simp add: f_def r_def)
  have "r < 8" by (simp add: r_def)
  have fl: "f \<le> length c" "f \<le> length (rule_address rule)"
    using assms c by (auto simp: wf_address_rule_def f_def word_le_nat_alt split: if_splits)
  have "AddressMatches rule family ptr \<longleftrightarrow> (\<forall>j < f. rule_address rule ! j = c ! j) \<and>
      (\<forall>n < 8. 8 - r \<le> n \<longrightarrow> bit (rule_address rule ! f) n = bit (c ! f) n)"
  proof (cases "r = 0")
    case True
    then show ?thesis using c fl
      by (auto simp: AddressMatches_def f_def [symmetric] r_def [symmetric] take_eq_nth_iff)
  next
    case False
    then show ?thesis using c fl mask_eq_iff [of r] \<open>r < 8\<close>
      by (auto simp: AddressMatches_def f_def [symmetric] r_def [symmetric] take_eq_nth_iff)
  qed
  also have "\<dots> \<longleftrightarrow> (\<forall>i < 8 * f + r. bit (rule_address rule ! (i div 8)) (7 - i mod 8) = bit (c ! (i div 8)) (7 - i mod 8))"
    using prefix_bits_iff [OF \<open>r < 8\<close>, of f "\<lambda>j n. bit (rule_address rule ! j) n = bit (c ! j) n"]
    by (simp add: word8_eq_iff)
  finally show ?thesis using c by (simp add: p addr_bit_def)
qed (auto simp: AddressMatches_def split: option.splits)

lemma mask_zero_iff:
  fixes a :: u8
  assumes "0 < r" "r < 8"
  shows "a AND (2 ^ (8 - r) - 1) = 0 \<longleftrightarrow> (\<forall>n < 8. n < 8 - r \<longrightarrow> \<not> bit a n)"
proof -
  have "(2 ^ (8 - r) - 1 :: u8) = mask (8 - r)" by (simp add: mask_eq_exp_minus_1)
  then show ?thesis
    unfolding word8_eq_iff [of "a AND _"] by (auto simp: bit_simps)
qed

lemma HostBitsAreZero_iff:
  assumes "unat p \<le> 8 * len" "len \<le> length address"
  shows "HostBitsAreZero address len p \<longleftrightarrow> (\<forall>i. unat p \<le> i \<and> i < 8 * len \<longrightarrow> \<not> addr_bit address i)"
proof -
  define f r where "f = unat p div 8" and "r = unat p mod 8"
  have p: "unat p = 8 * f + r" by (simp add: f_def r_def)
  have "r < 8" by (simp add: r_def)
  define g where "g = f + (if r = 0 then 0 else 1)"
  have g: "g \<le> len" using assms p \<open>r < 8\<close> by (auto simp: g_def)
  have tail: "list_all (\<lambda>b. b = 0) (sub_bytes g (len - g) address) \<longleftrightarrow> (\<forall>j. g \<le> j \<and> j < len \<longrightarrow> address ! j = 0)"
  proof -
    have "list_all (\<lambda>b. b = 0) (sub_bytes g (len - g) address) \<longleftrightarrow> (\<forall>j < len - g. address ! (g + j) = 0)"
      using assms g by (auto simp: list_all_length length_sub_bytes nth_sub_bytes)
    also have "\<dots> \<longleftrightarrow> (\<forall>j. g \<le> j \<and> j < len \<longrightarrow> address ! j = 0)"
      by (metis add_diff_inverse_nat le_add1 less_diff_conv2 linorder_not_less nat_add_left_cancel_less le_add_diff_inverse g)
    finally show ?thesis .
  qed
  have "HostBitsAreZero address len p \<longleftrightarrow> (r \<noteq> 0 \<longrightarrow> (\<forall>n < 8. n < 8 - r \<longrightarrow> \<not> bit (address ! f) n)) \<and>
      (\<forall>j. g \<le> j \<and> j < len \<longrightarrow> (\<forall>n < 8. \<not> bit (address ! j) n))"
  proof -
    have h: "HostBitsAreZero address len p \<longleftrightarrow> \<not> (r \<noteq> 0 \<and> address ! f AND (2 ^ (8 - r) - 1) \<noteq> 0) \<and>
        list_all (\<lambda>b. b = 0) (sub_bytes g (len - g) address)"
      unfolding HostBitsAreZero_def Let_def f_def [symmetric] r_def [symmetric] g_def [symmetric] by simp
    show ?thesis
      unfolding h tail byte_zero_iff using mask_zero_iff [of r "address ! f"] \<open>r < 8\<close> by blast
  qed
  also have "\<dots> \<longleftrightarrow> (\<forall>i. unat p \<le> i \<and> i < 8 * len \<longrightarrow> \<not> addr_bit address i)"
  proof (intro iffI allI impI conjI)
    fix i assume z: "(r \<noteq> 0 \<longrightarrow> (\<forall>n < 8. n < 8 - r \<longrightarrow> \<not> bit (address ! f) n)) \<and>
      (\<forall>j. g \<le> j \<and> j < len \<longrightarrow> (\<forall>n < 8. \<not> bit (address ! j) n))" and i: "unat p \<le> i \<and> i < 8 * len"
    have j: "i div 8 < len" "f \<le> i div 8" using i p by auto
    show "\<not> addr_bit address i"
    proof (cases "g \<le> i div 8")
      case True
      then show ?thesis using z j by (simp add: addr_bit_def)
    next
      case False
      then have e: "i div 8 = f" "r \<noteq> 0" using j by (auto simp: g_def split: if_splits)
      then have "r \<le> i mod 8" using i p by (metis add_le_cancel_left div_mult_mod_eq mult.commute)
      then have "7 - i mod 8 < 8 - r" using \<open>r < 8\<close> by auto
      then show ?thesis using z e by (simp add: addr_bit_def)
    qed
  next
    fix n :: nat assume z: "\<forall>i. unat p \<le> i \<and> i < 8 * len \<longrightarrow> \<not> addr_bit address i" and "r \<noteq> 0" "n < 8" "n < 8 - r"
    then have "f < len" using assms p by auto
    then have "unat p \<le> 8 * f + (7 - n)" "8 * f + (7 - n) < 8 * len"
      using p \<open>n < 8 - r\<close> by linarith+
    then show "\<not> bit (address ! f) n"
      using z addr_bit_index [OF \<open>n < 8\<close>, of address f] by blast
  next
    fix j n :: nat assume z: "\<forall>i. unat p \<le> i \<and> i < 8 * len \<longrightarrow> \<not> addr_bit address i" and j: "g \<le> j \<and> j < len" and "n < 8"
    then have "unat p \<le> 8 * j + (7 - n)" "8 * j + (7 - n) < 8 * len"
      using p \<open>r < 8\<close> by (auto simp: g_def split: if_splits)
    then show "\<not> bit (address ! j) n"
      using z addr_bit_index [OF \<open>n < 8\<close>, of address j] by blast
  qed
  finally show ?thesis .
qed

section \<open>Loading a validated policy\<close>

interpretation domain_loader: record_loader LoadDomainRule ser_domain wf_domain
  "\<lambda>d. host_name (snd d)" domain_rule
proof
  fix d t assume wf: "wf_domain d"
  obtain w n where d: "d = (w, n)" by (cases d)
  show "LoadDomainRule (ser_domain d @ t) = (if host_name (snd d) then Some (domain_rule d, t) else None)"
    using wf
    by (auto simp: d LoadDomainRule_def ser_domain_def wf_domain_def ser_sized_def Let_def
        domain_rule_def IsCanonicalDomain_iff host_name_def not_less)
qed

interpretation address_loader: record_loader LoadAddressRule ser_address wf_address address_ok address_rule
proof
  fix a t assume wf: "wf_address a"
  obtain f p b where a: "a = (f, p, b)" by (cases a)
  show "LoadAddressRule (ser_address a @ t) = (if address_ok a then Some (address_rule a, t) else None)"
    using wf
    by (auto simp: a LoadAddressRule_def ser_address_def wf_address_def Let_def address_ok_def address_rule_def)
qed

lemma LoadPortRules_entries:
  "list_all wf_port ps \<Longrightarrow>
   LoadPortRules (length ps) previous (concat (map ser_port ps) @ t) =
     (if ports_ok previous ps then Some (map port_rule ps, t) else None)"
proof (induction ps arbitrary: previous)
  case Nil
  then show ?case by simp
next
  case (Cons p ps)
  obtain s e where p: "p = (s, e)" by (cases p)
  have "s \<noteq> 0" "s \<le> e" using Cons.prems by (auto simp: p wf_port_def)
  then show ?case
    using Cons by (auto simp: p ser_port_def port_rule_def not_le not_less split: option.split)
qed

lemma LoadAllowList_entries:
  assumes "wf_network (Network_allow ds as ps)"
  shows "LoadAllowList (ser_list ser_domain ds @ ser_list ser_address as @ ser_list ser_port ps @ t) =
    (if network_ok (Network_allow ds as ps) then policy_impl (network_loaded (Network_allow ds as ps)) else None)"
proof -
  have wf: "list_all wf_domain ds" "list_all wf_address as" "list_all wf_port ps"
    "length ds \<le> 1024" "length as \<le> 1024" "length ps \<le> 1024" "length ds + length as + length ps \<le> 2048"
    using assms by auto
  then have n: "\<not> 2048 - length as < length ds" "\<not> 2048 - length ps < length ds + length as" by linarith+
  show ?thesis
    using wf n unfolding LoadAllowList_def ser_list_def
    by (simp add: domain_loader.load_many [OF wf(1)] address_loader.load_many [OF wf(2)]
        LoadPortRules_entries [OF wf(3)])
qed

interpretation skip_record: recogniser SkipRecord ser_sized "\<lambda>b. count_ok (length b)"
proof
  fix r r' assume "SkipRecord r = Some r'"
  then show "\<exists>x. count_ok (length x) \<and> r = ser_sized x @ r'"
    by (auto simp: SkipRecord_def ser_sized_def bind_eq_Some_conv)
next
  fix x t :: bytes assume "count_ok (length x)"
  then show "SkipRecord (ser_sized x @ t) = Some t"
    by (simp add: SkipRecord_def ser_sized_def)
next
  fix x y s t :: bytes
  assume "count_ok (length x)" "count_ok (length y)" "ser_sized x @ s = ser_sized y @ t"
  then show "x = y \<and> s = t" using ser_sized_inject by blast
qed

lemma skip_filesystem:
  assumes "count_ok (length rules)" "list_all wf_fs_rule rules"
  shows "do { (n, body) \<leftarrow> ReadCount (ser_list ser_fs_rule rules @ t); repeat_read n SkipRecord body } = Some t"
proof -
  have eq: "concat (map ser_fs_rule rules) = concat (map ser_sized (map fs_record rules))"
    by (induction rules) (simp_all add: ser_fs_rule_def)
  have "list_all (\<lambda>b. count_ok (length b)) (map fs_record rules)"
    using assms(2) by (auto simp: list_all_iff wf_fs_rule_def)
  from skip_record.repeat_complete [OF this, of t] show ?thesis
    using assms(1) by (simp add: ser_list_def eq del: map_map)
qed

lemma ReadNetworkMode_body:
  assumes "wf_body u b"
  shows "ReadNetworkMode (ser_body b) =
    Some (network_mode_byte (pb_network b), tl (ser_network (pb_network b)) @ ser_list ser_registry_entry (pb_registry b))"
proof -
  have "ser_network (pb_network b) = network_mode_byte (pb_network b) # tl (ser_network (pb_network b))"
    by (cases "pb_network b") simp_all
  then have r: "ReaderU8 (ser_network (pb_network b) @ t) = Some (network_mode_byte (pb_network b), tl (ser_network (pb_network b)) @ t)" for t
    by (metis ReaderU8_Cons append_Cons)
  have fs: "count_ok (length (pb_filesystem b))" "list_all wf_fs_rule (pb_filesystem b)"
    using assms by (auto simp: wf_body_def)
  obtain n body where n: "ReadCount (ser_list ser_fs_rule (pb_filesystem b) @ ser_network (pb_network b) @ ser_list ser_registry_entry (pb_registry b)) = Some (n, body)"
    "repeat_read n SkipRecord body = Some (ser_network (pb_network b) @ ser_list ser_registry_entry (pb_registry b))"
    using skip_filesystem [OF fs] by (fastforce simp: bind_eq_Some_conv simp del: ReadCount_Some)
  then show ?thesis by (simp add: ReadNetworkMode_def ser_body_def r del: ReadCount_Some)
qed

lemma NetworkPolicy_Load_body:
  assumes "wf_body u b" "drop 44 p = ser_body b" "ValidatePolicyPayload sha u (Some p) = Policy_kValid"
  shows "NetworkPolicy_Load sha u (Some p) =
    (if network_ok (pb_network b) then (Load_kValid, Some (network_loaded (pb_network b)))
     else (Load_kInvalidNetworkPolicy, None))"
proof -
  have wf: "wf_network (pb_network b)" using assms by (simp add: wf_body_def)
  show ?thesis
  proof (cases "pb_network b")
    case (Network_mode m)
    then have "m \<le> 1" using wf by simp
    then have "m = 0 \<or> m = 1" "\<not> 2 < m"
      using word_le_sub1 by (auto simp: word_le_nat_alt word_less_nat_alt unat_arith_simps)
    then show ?thesis
      using assms Network_mode ReadNetworkMode_body [OF assms(1)]
      by (auto simp: NetworkPolicy_Load_def)
  next
    case (Network_allow ds as ps)
    then show ?thesis
      using assms wf ReadNetworkMode_body [OF assms(1)] LoadAllowList_entries [of ds as ps]
      by (auto simp: NetworkPolicy_Load_def)
  qed
qed

section \<open>Decisions of a loaded policy\<close>

lemma DomainMatches_iff:
  "DomainMatches rule name \<longleftrightarrow>
     (if wildcard rule then \<exists>sub. sub \<noteq> [] \<and> name = sub @ [chr_dot] @ ascii_domain rule
      else name = ascii_domain rule)"
proof (cases "wildcard rule")
  case True
  let ?d = "ascii_domain rule"
  have "DomainMatches rule name \<Longrightarrow> \<exists>sub. sub \<noteq> [] \<and> name = sub @ [chr_dot] @ ?d"
  proof -
    assume "DomainMatches rule name"
    then have m: "length ?d + 1 < length name" "drop (length name - length ?d) name = ?d"
      "name ! (length name - length ?d - 1) = chr_dot"
      using True by (auto simp: DomainMatches_def split: if_splits)
    let ?k = "length name - length ?d - 1"
    have "name = take ?k name @ name ! ?k # drop (Suc ?k) name"
      using m(1) by (intro id_take_nth_drop) simp
    moreover have "Suc ?k = length name - length ?d" using m(1) by simp
    ultimately have "name = take ?k name @ [chr_dot] @ ?d" using m by simp
    moreover have "take ?k name \<noteq> []" using m(1) by auto
    ultimately show ?thesis by blast
  qed
  moreover have "DomainMatches rule (sub @ [chr_dot] @ ?d)" if "sub \<noteq> []" for sub
    using True that by (auto simp: DomainMatches_def nth_append)
  ultimately show ?thesis using True by auto
qed (simp add: DomainMatches_def)

lemma DecideDomain_loaded:
  "DecideDomain (network_loaded n) (Some d) = Decision_kAllow \<longleftrightarrow> allows_domain n (map tolower (c_str d))"
  by (cases n) (simp_all add: DecideDomain_def Let_def IsCanonicalDomain_iff list_ex_iff DomainMatches_iff
      domain_rule_def case_prod_beta cong: bex_cong if_cong)

lemma DecidePort_loaded:
  "DecidePort (network_loaded n) port = Decision_kAllow \<longleftrightarrow> allows_port n port"
  by (cases n) (auto simp: DecidePort_def list_ex_iff port_rule_def split: if_splits)

lemma wf_address_rule_loaded: "wf_address a \<Longrightarrow> wf_address_rule (address_rule a)"
  by (auto simp: wf_address_def wf_address_rule_def address_rule_def)

lemma address_rule_bits:
  assumes "wf_address (f, p, a)" "i < unat p"
  shows "addr_bit (rule_address (address_rule (f, p, a))) i = addr_bit a i"
proof -
  have "i div 8 < length a"
    using assms by (auto simp: wf_address_def word_le_nat_alt)
  moreover have "length a \<le> 16" using assms by (auto simp: wf_address_def)
  ultimately show ?thesis by (simp add: addr_bit_def address_rule_def nth_put_bytes)
qed

lemma DecideAddress_loaded:
  assumes "wf_network n"
  shows "DecideAddress (network_loaded n) family (Some address) = Decision_kAllow \<longleftrightarrow>
    allows_address n family address"
proof (cases n)
  case (Network_mode m)
  then show ?thesis by (auto simp: DecideAddress_def)
next
  case (Network_allow ds as ps)
  have wf: "\<forall>a \<in> set as. wf_address a" using assms Network_allow by (simp add: list_all_iff)
  have match: "AddressMatches (address_rule (f, p, a)) family (Some address) \<longleftrightarrow>
      f = family \<and> length address = length a \<and> (\<forall>i < unat p. addr_bit address i = addr_bit a i)"
    if "(f, p, a) \<in> set as" for f p a
  proof -
    have w: "wf_address (f, p, a)" using wf that by blast
    then have "length a = (if f = 4 then 4 else 16)" by (auto simp: wf_address_def)
    moreover have "rule_family (address_rule (f, p, a)) = f" "prefix_length (address_rule (f, p, a)) = p"
      by (simp_all add: address_rule_def)
    ultimately show ?thesis
      unfolding AddressMatches_iff [OF wf_address_rule_loaded [OF w]]
      using address_rule_bits [OF w] by auto
  qed
  have fam: "(f, p, a) \<in> set as \<Longrightarrow> f = 4 \<or> f = 6" for f p a
    using wf by (auto simp: wf_address_def)
  have ex: "list_ex (\<lambda>rule. AddressMatches rule family (Some address)) (map address_rule as) \<longleftrightarrow>
      allows_address n family address"
  proof -
    have "(\<exists>x \<in> set as. AddressMatches (address_rule x) family (Some address)) \<longleftrightarrow> allows_address n family address"
      unfolding Network_allow allows_address.simps by (rule bex_cong [OF refl]) (use match in auto)
    then show ?thesis by (simp add: list_ex_iff)
  qed
  have "allows_address n family address \<Longrightarrow> family = 4 \<or> family = 6"
    using fam by (auto simp: Network_allow)
  then show ?thesis
    using ex by (auto simp: DecideAddress_def Network_allow)
qed

lemma wf_sample_body: "wf_body (\<lambda>_. True) sample_body"
  by (simp add: sample_body_def wf_body_def wf_domain_def wf_address_def wf_port_def ascii_def word_le_nat_alt)

lemma length_sample_body: "length (ser_body sample_body) \<le> kPolicyMaximumBodyLength"
  by (simp add: sample_body_def ser_body_def ser_list_def ser_domain_def ser_address_def ser_port_def ser_sized_def)

lemma network_ok_sample: "network_ok (pb_network sample_body)"
proof -
  have "host_name (ascii ''ok.io'')" by code_simp
  moreover have "address_ok (4, 8, [10, 0, 0, 0])" by code_simp
  ultimately show ?thesis by (simp add: sample_body_def)
qed

section \<open>Properties\<close>

text \<open>
  C16. Host names: \<open>IsCanonicalDomain\<close> accepts exactly the names of at most 253 bytes whose
  dot-separated labels have 1 to 63 lower-case letters, digits or inner hyphens, except the
  dotted-quad IPv4 addresses.
\<close>

theorem canonical_domain_grammar: "IsCanonicalDomain d \<longleftrightarrow> host_name d"
  by (rule IsCanonicalDomain_iff)

text \<open>
  C17. Loading the network policy from the envelope of any well-formed policy succeeds exactly
  if the allow list is canonical (host names, zero host bits, ascending disjoint port
  ranges), and then yields the mode and the rules of that policy.
\<close>

theorem network_policy_load_exact:
  assumes "wf_body is_utf8 b" and "length (ser_body b) \<le> kPolicyMaximumBodyLength"
    and "sha256 (policy_head (length (ser_body b)) @ ser_body b) = Some digest" and "length digest = 32"
  shows "NetworkPolicy_Load sha256 is_utf8 (Some (policy_envelope digest (ser_body b))) =
    (if network_ok (pb_network b) then (Load_kValid, Some (network_loaded (pb_network b)))
     else (Load_kInvalidNetworkPolicy, None))"
  using NetworkPolicy_Load_body [OF assms(1)] ValidatePolicyPayload_envelope [where sha = sha256, OF assms] by blast

theorem network_policy_load_exact_witness:
  "NetworkPolicy_Load (\<lambda>_. Some (replicate 32 0)) (\<lambda>_. True)
     (Some (policy_envelope (replicate 32 0) (ser_body sample_body))) =
   (Load_kValid, Some (network_loaded (pb_network sample_body)))"
  using network_policy_load_exact [OF wf_sample_body length_sample_body, of "\<lambda>_. Some (replicate 32 0)" "replicate 32 0"]
    network_ok_sample by simp

text \<open>
  C12. Decisions: every policy that \<open>Load\<close> returns decides as the policy body it was loaded from
  says.  A domain is allowed if and only if its lower-case form is a host name equal to a
  listed domain or a proper subdomain of a wildcard one, an address if and only if it agrees
  with a listed one of its family on the prefix bits, a port if and only if it lies in a
  listed range; everything is allowed without restrictions and nothing if denied.
\<close>

theorem network_decisions_exact:
  assumes "NetworkPolicy_Load sha256 is_utf8 (Some p) = (Load_kValid, Some policy)"
  shows "\<exists>b. wf_body is_utf8 b \<and> drop kPolicyEnvelopeLength p = ser_body b \<and>
    (\<forall>d. DecideDomain policy (Some d) = Decision_kAllow \<longleftrightarrow>
       allows_domain (pb_network b) (map tolower (c_str d))) \<and>
    (\<forall>family a. DecideAddress policy family (Some a) = Decision_kAllow \<longleftrightarrow>
       allows_address (pb_network b) family a) \<and>
    (\<forall>port. DecidePort policy port = Decision_kAllow \<longleftrightarrow> allows_port (pb_network b) port)"
proof -
  have v: "ValidatePolicyPayload sha256 is_utf8 (Some p) = Policy_kValid"
    using assms by (auto simp: NetworkPolicy_Load_def split: if_splits)
  then obtain b where b: "wf_body is_utf8 b" "drop 44 p = ser_body b"
    unfolding ValidatePolicyPayload_fields ValidateBody_iff by blast
  have "policy = network_loaded (pb_network b)"
    using assms NetworkPolicy_Load_body [OF b v] by (auto split: if_splits)
  then show ?thesis
    using b DecideDomain_loaded DecidePort_loaded DecideAddress_loaded [of "pb_network b"]
    by (intro exI [of _ b]) (simp add: wf_body_def)
qed

theorem network_decisions_exact_witness:
  "\<exists>b. ser_body sample_body = ser_body b \<and>
     (DecideDomain (network_loaded (pb_network sample_body)) (Some (ascii ''www.OK.io'')) = Decision_kAllow \<longleftrightarrow>
      allows_domain (pb_network b) (map tolower (c_str (ascii ''www.OK.io''))))"
proof -
  have "NetworkPolicy_Load (\<lambda>_. Some (replicate 32 0)) (\<lambda>_. True) (Some (policy_envelope (replicate 32 0) (ser_body sample_body))) =
      (Load_kValid, Some (network_loaded (pb_network sample_body)))"
    using NetworkPolicy_Load_body [OF wf_sample_body] network_ok_sample
      ValidatePolicyPayload_envelope [OF wf_sample_body length_sample_body, of "\<lambda>_. Some (replicate 32 0)" "replicate 32 0"]
    by simp
  from network_decisions_exact [OF this]
    ValidatePolicyPayload_envelope(2) [OF wf_sample_body length_sample_body, of "\<lambda>_. Some (replicate 32 0)" "replicate 32 0"]
  show ?thesis by auto
qed

end
