(* ===== verification/DnsBindings.thy ===== *)
theory DnsBindings
  imports NetworkPolicy EventFrame
begin

text \<open>
  \<open>src/native/hook/network/dns_binding_table.cpp\<close> and \<open>socket_target_table.cpp\<close>: the two
  fixed-capacity tables of the network hooks.  A table is the list of its slots.  Every
  operation runs under the table's reader/writer lock, so one operation is one step.

  The binding table is shown to refine a set of pairs of a binding and its expiry: \<open>Upsert\<close>
  replaces the pair of its key, the queries are membership questions in the unexpired
  pairs, and keys of occupied slots stay distinct.  The socket table refines a finite map.
\<close>

section \<open>Definitions\<close>

subsection \<open>The binding table\<close>

abbreviation (input) kMaximumCapacity :: nat where "kMaximumCapacity \<equiv> 4096"

datatype BindingStatus =
    Binding_kSuccess
  | Binding_kInvalidArgument
  | Binding_kFull
  | Binding_kAllocationFailed

record BindingKey =
  bk_session :: bytes
  bk_process :: u32
  bk_domain :: char_ptr
  bk_family :: u8
  bk_address :: byte_ptr
  bk_port :: u16

text \<open>A slot; the \<open>domain\<close> array is the string it holds.\<close>

record BindingEntry =
  be_occupied :: bool
  be_session :: bytes
  be_process :: u32
  be_domain :: bytes
  be_family :: u8
  be_address :: bytes
  be_port :: u16
  be_expires_at :: u64

definition empty_entry :: BindingEntry where
  "empty_entry = \<lparr>be_occupied = False, be_session = replicate 16 0, be_process = 0, be_domain = [],
     be_family = AddressFamily_kIpv4, be_address = replicate 16 0, be_port = 0, be_expires_at = 0\<rparr>"

text \<open>
  The loop of \<open>ReadDomainLength\<close> with its variables \<open>length\<close>, \<open>label_length\<close>,
  \<open>first_is_hyphen\<close> and \<open>last_is_hyphen\<close>; \<open>None\<close> is the early \<open>return false\<close>.
\<close>

fun domain_length_scan ::
  "nat \<Rightarrow> nat \<Rightarrow> bool \<Rightarrow> bool \<Rightarrow> bytes \<Rightarrow> (nat \<times> nat \<times> bool \<times> bool) option" where
  "domain_length_scan len lab fh lh [] = Some (len, lab, fh, lh)"
| "domain_length_scan len lab fh lh (byte # rest) =
     (if \<not> (len \<le> kMaximumDomainLength \<and> byte \<noteq> 0) then Some (len, lab, fh, lh)
      else if byte = chr_dot then
        if lab = 0 \<or> 63 < lab \<or> fh \<or> lh then None
        else domain_length_scan (len + 1) 0 False False rest
      else if \<not> (is_lower byte \<or> is_digit byte \<or> byte = chr_hyphen) then None
      else domain_length_scan (len + 1) (lab + 1)
             (if lab = 0 then byte = chr_hyphen else fh) (byte = chr_hyphen) rest)"

definition ReadDomainLength :: "char_ptr \<Rightarrow> nat option" where
  "ReadDomainLength ptr =
     (case ptr of
        None \<Rightarrow> None
      | Some domain \<Rightarrow>
          (case domain_length_scan 0 0 False False domain of
             None \<Rightarrow> None
           | Some (len, lab, fh, lh) \<Rightarrow>
               if len \<noteq> 0 \<and> len \<le> kMaximumDomainLength \<and> lab \<noteq> 0 \<and> lab \<le> 63 \<and> \<not> fh \<and> \<not> lh
               then Some len else None))"

definition expected_address_length :: "u8 \<Rightarrow> nat" where
  "expected_address_length family =
     (if family = AddressFamily_kIpv4 then 4 else if family = AddressFamily_kIpv6 then 16 else 0)"

definition ValidateKey :: "BindingKey \<Rightarrow> nat option" where
  "ValidateKey key =
     (if \<not> all_zero (bk_session key) \<and> bk_process key \<noteq> 0 \<and>
         expected_address_length (bk_family key) \<noteq> 0 \<and> bk_address key \<noteq> None \<and>
         length (the (bk_address key)) = expected_address_length (bk_family key)
      then ReadDomainLength (bk_domain key) else None)"

definition Matches :: "BindingEntry \<Rightarrow> BindingKey \<Rightarrow> bool" where
  "Matches entry key =
     (let address_length = (if bk_family key = AddressFamily_kIpv4 then 4 else 16)
      in be_occupied entry \<and> be_session entry = bk_session key \<and> be_process entry = bk_process key \<and>
         be_family entry = bk_family key \<and> be_port entry = bk_port key \<and>
         be_domain entry = c_str (the (bk_domain key)) \<and>
         take address_length (be_address entry) = take address_length (the (bk_address key)))"

definition DnsBindingTable_Create :: "nat \<Rightarrow> BindingStatus \<times> BindingEntry list option" where
  "DnsBindingTable_Create capacity =
     (if capacity = 0 \<or> kMaximumCapacity < capacity then (Binding_kInvalidArgument, None)
      else (Binding_kSuccess, Some (replicate capacity empty_entry)))"

text \<open>
  The loop of \<open>Upsert\<close>: whether a slot matched, the index of the first free slot and the
  slots afterwards.
\<close>

fun UpsertScan ::
  "BindingKey \<Rightarrow> u64 \<Rightarrow> u64 \<Rightarrow> nat \<Rightarrow> nat option \<Rightarrow> BindingEntry list \<Rightarrow>
     bool \<times> nat option \<times> BindingEntry list" where
  "UpsertScan key now expires_at index available [] = (False, available, [])"
| "UpsertScan key now expires_at index available (entry # rest) =
     (let entry = (if be_occupied entry \<and> be_expires_at entry \<le> now
                   then entry\<lparr>be_occupied := False\<rparr> else entry)
      in if Matches entry key then (True, available, entry\<lparr>be_expires_at := expires_at\<rparr> # rest)
         else let available = (if \<not> be_occupied entry \<and> available = None then Some index
                               else available);
                  (found, available, rest) =
                    UpsertScan key now expires_at (index + 1) available rest
              in (found, available, entry # rest))"

definition BindingTable_Upsert ::
  "BindingEntry list \<Rightarrow> BindingKey \<Rightarrow> u64 \<Rightarrow> u64 \<Rightarrow> BindingStatus \<times> BindingEntry list" where
  "BindingTable_Upsert entries key now ttl =
     (if ttl = 0 \<or> 0xFFFFFFFFFFFFFFFF - now < ttl \<or> ValidateKey key = None
      then (Binding_kInvalidArgument, entries)
      else
        let expires_at = now + ttl;
            (found, available, entries) = UpsertScan key now expires_at 0 None entries
        in if found then (Binding_kSuccess, entries)
           else case available of
               None \<Rightarrow> (Binding_kFull, entries)
             | Some index \<Rightarrow>
                 (Binding_kSuccess,
                  entries[index :=
                    \<lparr>be_occupied = True, be_session = bk_session key, be_process = bk_process key,
                     be_domain = take (the (ValidateKey key)) (the (bk_domain key)),
                     be_family = bk_family key,
                     be_address = put_bytes (replicate 16 0) 0 (the (bk_address key)),
                     be_port = bk_port key, be_expires_at = expires_at\<rparr>]))"

definition BindingTable_IsAuthorized :: "BindingEntry list \<Rightarrow> BindingKey \<Rightarrow> u64 \<Rightarrow> bool" where
  "BindingTable_IsAuthorized entries key now =
     (if ValidateKey key = None then False
      else list_ex (\<lambda>entry. now < be_expires_at entry \<and> Matches entry key) entries)"

definition endpoint_matches ::
  "bytes \<Rightarrow> u32 \<Rightarrow> u8 \<Rightarrow> bytes \<Rightarrow> u16 \<Rightarrow> u64 \<Rightarrow> BindingEntry \<Rightarrow> bool" where
  "endpoint_matches session process family address port now entry =
     (be_occupied entry \<and> now < be_expires_at entry \<and> be_session entry = session \<and>
      be_process entry = process \<and> be_family entry = family \<and>
      (be_port entry = 0 \<or> be_port entry = port) \<and>
      take (length address) (be_address entry) = address)"

definition IsEndpointAuthorized ::
  "BindingEntry list \<Rightarrow> bytes \<Rightarrow> u32 \<Rightarrow> u8 \<Rightarrow> byte_ptr \<Rightarrow> u16 \<Rightarrow> u64 \<Rightarrow> bool" where
  "IsEndpointAuthorized entries session process family address port now =
     (if process = 0 \<or> port = 0 \<or> address = None \<or>
         length (the address) \<noteq> expected_address_length family
      then False
      else list_ex (endpoint_matches session process family (the address) port now) entries)"

text \<open>
  \<open>FindAuthorizedDomain\<close>: the result and the output buffer.  The structured exception
  handlers guard the buffer accesses; the buffer is accessible here.
\<close>

definition FindAuthorizedDomain ::
  "BindingEntry list \<Rightarrow> bytes \<Rightarrow> u32 \<Rightarrow> u8 \<Rightarrow> byte_ptr \<Rightarrow> u16 \<Rightarrow> u64 \<Rightarrow> byte_ptr \<Rightarrow> bool \<times> byte_ptr" where
  "FindAuthorizedDomain entries session process family address port now output =
     (if output = None \<or> the output = [] then (False, output)
      else
        let out = (the output)[0 := 0]
        in if process = 0 \<or> port = 0 \<or> address = None \<or>
              length (the address) \<noteq> expected_address_length family
           then (False, Some out)
           else case find (endpoint_matches session process family (the address) port now) entries of
               None \<Rightarrow> (False, Some out)
             | Some entry \<Rightarrow>
                 if length out < length (be_domain entry) + 1 then (False, Some out)
                 else (True, Some (put_bytes out 0 (be_domain entry @ [0]))))"

definition HasAuthorizedDomain ::
  "BindingEntry list \<Rightarrow> bytes \<Rightarrow> u32 \<Rightarrow> char_ptr \<Rightarrow> u64 \<Rightarrow> bool" where
  "HasAuthorizedDomain entries session process domain now =
     (if all_zero session \<or> process = 0 \<or> ReadDomainLength domain = None then False
      else list_ex (\<lambda>entry. be_occupied entry \<and> now < be_expires_at entry \<and>
             be_session entry = session \<and> be_process entry = process \<and> be_port entry = 0 \<and>
             be_domain entry = c_str (the domain)) entries)"

definition ActiveCount :: "BindingEntry list \<Rightarrow> u64 \<Rightarrow> nat" where
  "ActiveCount entries now =
     length (filter (\<lambda>entry. be_occupied entry \<and> now < be_expires_at entry) entries)"

subsection \<open>The socket table\<close>

datatype SocketTargetStatus =
    Socket_kSuccess
  | Socket_kInvalidArgument
  | Socket_kFull
  | Socket_kAllocationFailed

record SocketEntry =
  se_occupied :: bool
  se_socket :: u64
  se_endpoint :: NetworkEndpoint

definition empty_endpoint :: NetworkEndpoint where
  "empty_endpoint = \<lparr>ep_family = NetworkAddressFamily_kIpv4, ep_address = replicate 16 0, ep_port = 0\<rparr>"

definition empty_socket_entry :: SocketEntry where
  "empty_socket_entry = \<lparr>se_occupied = False, se_socket = 0, se_endpoint = empty_endpoint\<rparr>"

definition ValidSocket :: "u64 \<Rightarrow> bool" where
  "ValidSocket socket = (socket \<noteq> 0 \<and> socket \<noteq> 0xFFFFFFFFFFFFFFFF)"

definition ValidEndpoint :: "NetworkEndpoint \<Rightarrow> bool" where
  "ValidEndpoint endpoint =
     (if ep_port endpoint = 0 then False
      else if ep_family endpoint = NetworkAddressFamily_kIpv6 then True
      else ep_family endpoint = NetworkAddressFamily_kIpv4 \<and> all_zero (drop 4 (ep_address endpoint)))"

definition SocketTargetTable_Create :: "nat \<Rightarrow> SocketTargetStatus \<times> SocketEntry list option" where
  "SocketTargetTable_Create capacity =
     (if capacity = 0 \<or> kMaximumCapacity < capacity then (Socket_kInvalidArgument, None)
      else (Socket_kSuccess, Some (replicate capacity empty_socket_entry)))"

fun SocketUpsertScan ::
  "u64 \<Rightarrow> NetworkEndpoint \<Rightarrow> nat \<Rightarrow> nat option \<Rightarrow> SocketEntry list \<Rightarrow>
     bool \<times> nat option \<times> SocketEntry list" where
  "SocketUpsertScan socket endpoint index available [] = (False, available, [])"
| "SocketUpsertScan socket endpoint index available (entry # rest) =
     (if se_occupied entry \<and> se_socket entry = socket
      then (True, available, entry\<lparr>se_endpoint := endpoint\<rparr> # rest)
      else let available = (if \<not> se_occupied entry \<and> available = None then Some index
                            else available);
               (found, available, rest) =
                 SocketUpsertScan socket endpoint (index + 1) available rest
           in (found, available, entry # rest))"

definition SocketTable_Upsert ::
  "SocketEntry list \<Rightarrow> u64 \<Rightarrow> NetworkEndpoint \<Rightarrow> SocketTargetStatus \<times> SocketEntry list" where
  "SocketTable_Upsert entries socket endpoint =
     (if \<not> ValidSocket socket \<or> \<not> ValidEndpoint endpoint then (Socket_kInvalidArgument, entries)
      else
        let (found, available, entries) = SocketUpsertScan socket endpoint 0 None entries
        in if found then (Socket_kSuccess, entries)
           else case available of
               None \<Rightarrow> (Socket_kFull, entries)
             | Some index \<Rightarrow>
                 (Socket_kSuccess,
                  entries[index := \<lparr>se_occupied = True, se_socket = socket, se_endpoint = endpoint\<rparr>]))"

definition SocketTable_Lookup :: "SocketEntry list \<Rightarrow> u64 \<Rightarrow> bool \<times> NetworkEndpoint" where
  "SocketTable_Lookup entries socket =
     (if \<not> ValidSocket socket then (False, empty_endpoint)
      else case find (\<lambda>entry. se_occupied entry \<and> se_socket entry = socket) entries of
          None \<Rightarrow> (False, empty_endpoint)
        | Some entry \<Rightarrow> (True, se_endpoint entry))"

fun SocketRemoveScan :: "u64 \<Rightarrow> SocketEntry list \<Rightarrow> bool \<times> SocketEntry list" where
  "SocketRemoveScan socket [] = (False, [])"
| "SocketRemoveScan socket (entry # rest) =
     (if se_occupied entry \<and> se_socket entry = socket then (True, empty_socket_entry # rest)
      else let (found, rest) = SocketRemoveScan socket rest in (found, entry # rest))"

definition SocketTable_Remove :: "SocketEntry list \<Rightarrow> u64 \<Rightarrow> bool \<times> SocketEntry list" where
  "SocketTable_Remove entries socket =
     (if \<not> ValidSocket socket then (False, entries) else SocketRemoveScan socket entries)"

subsection \<open>Specification\<close>

text \<open>A binding and its expiry; the pairs that are live at a time.\<close>

datatype binding = Binding (b_session: bytes) (b_process: u32) (b_domain: bytes) (b_family: u8)
  (b_address: bytes) (b_port: u16)

definition entry_binding :: "BindingEntry \<Rightarrow> binding" where
  "entry_binding e = Binding (be_session e) (be_process e) (be_domain e) (be_family e)
     (take (expected_address_length (be_family e)) (be_address e)) (be_port e)"

definition key_binding :: "BindingKey \<Rightarrow> binding" where
  "key_binding k = Binding (bk_session k) (bk_process k) (c_str (the (bk_domain k))) (bk_family k)
     (the (bk_address k)) (bk_port k)"

definition live_bindings :: "BindingEntry list \<Rightarrow> u64 \<Rightarrow> (binding \<times> u64) set" where
  "live_bindings es t =
     set (map (\<lambda>e. (entry_binding e, be_expires_at e))
            (filter (\<lambda>e. be_occupied e \<and> t < be_expires_at e) es))"

definition table_inv :: "BindingEntry list \<Rightarrow> bool" where
  "table_inv es =
     (distinct (map entry_binding (filter be_occupied es)) \<and>
      (\<forall>e \<in> set es. be_occupied e \<longrightarrow>
         be_family e \<in> {AddressFamily_kIpv4, AddressFamily_kIpv6} \<and> length (be_address e) = 16))"

definition host_labels :: "bytes \<Rightarrow> bool" where
  "host_labels d = (length d \<le> kMaximumDomainLength \<and> list_all label_ok (labels d))"

definition scan_ok :: "(nat \<times> nat \<times> bool \<times> bool) option \<Rightarrow> bool" where
  "scan_ok r = (case r of None \<Rightarrow> False
     | Some (n, lab, fh, lh) \<Rightarrow> n \<le> kMaximumDomainLength \<and> lab \<noteq> 0 \<and> lab \<le> 63 \<and> \<not> fh \<and> \<not> lh)"

definition expire :: "u64 \<Rightarrow> BindingEntry \<Rightarrow> BindingEntry" where
  "expire now e = (if be_occupied e \<and> be_expires_at e \<le> now then e\<lparr>be_occupied := False\<rparr> else e)"

definition new_entry :: "BindingKey \<Rightarrow> u64 \<Rightarrow> BindingEntry" where
  "new_entry key expires_at =
     \<lparr>be_occupied = True, be_session = bk_session key, be_process = bk_process key,
      be_domain = take (the (ValidateKey key)) (the (bk_domain key)), be_family = bk_family key,
      be_address = put_bytes (replicate 16 0) 0 (the (bk_address key)),
      be_port = bk_port key, be_expires_at = expires_at\<rparr>"

definition holds :: "u64 \<Rightarrow> SocketEntry \<Rightarrow> bool" where
  "holds socket e = (se_occupied e \<and> se_socket e = socket)"

primrec socket_map :: "SocketEntry list \<Rightarrow> u64 \<Rightarrow> NetworkEndpoint option" where
  "socket_map [] socket = None"
| "socket_map (e # es) socket = (if holds socket e then Some (se_endpoint e) else socket_map es socket)"

definition sockets_inv :: "SocketEntry list \<Rightarrow> bool" where
  "sockets_inv es = distinct (map se_socket (filter se_occupied es))"

definition sample_key :: BindingKey where
  "sample_key = \<lparr>bk_session = replicate 16 1, bk_process = 7, bk_domain = Some (ascii ''ok.io''),
     bk_family = 4, bk_address = Some [10, 0, 0, 1], bk_port = 443\<rparr>"

section \<open>Domains of bindings\<close>

lemma domain_length_scan_ok:
  assumes "lab = length cur" "list_all ldh cur" "fh = (cur \<noteq> [] \<and> hd cur = chr_hyphen)"
    "lh = (cur \<noteq> [] \<and> last cur = chr_hyphen)"
  shows "scan_ok (domain_length_scan n lab fh lh bs) \<longleftrightarrow>
    n + length (c_str bs) \<le> kMaximumDomainLength \<and>
    list_all label_ok ((cur @ hd (labels (c_str bs))) # tl (labels (c_str bs)))"
  using assms
proof (induction n lab fh lh bs arbitrary: cur rule: domain_length_scan.induct)
  case (1 n lab fh lh)
  then show ?case by (auto simp: scan_ok_def label_ok_def)
next
  case (2 n lab fh lh b bs)
  show ?case
  proof (cases "n \<le> 253 \<and> b \<noteq> 0")
    case False
    then show ?thesis using 2 by (auto simp: scan_ok_def label_ok_def c_str_Cons)
  next
    case True
    then have c: "c_str (b # bs) = b # c_str bs" by (simp add: c_str_Cons)
    consider "b = chr_dot" "label_ok cur" | "b = chr_dot" "\<not> label_ok cur"
      | "b \<noteq> chr_dot" "ldh b" | "b \<noteq> chr_dot" "\<not> ldh b" by blast
    then show ?thesis
    proof cases
      case 1
      then have ok: "\<not> (lab = 0 \<or> 63 < lab \<or> fh \<or> lh)" using 2 by (auto simp: label_ok_def)
      have "scan_ok (domain_length_scan (n + 1) 0 False False bs) \<longleftrightarrow> n + 1 + length (c_str bs) \<le> 253 \<and>
          list_all label_ok (([] @ hd (labels (c_str bs))) # tl (labels (c_str bs)))"
        using True 1 ok by (intro "2.IH"(1)) auto
      then show ?thesis using 1 True ok c by simp
    next
      case c2: 2
      then have "lab = 0 \<or> 63 < lab \<or> fh \<or> lh" using "2.prems" by (auto simp: label_ok_def)
      then show ?thesis using c2 True c by (auto simp: scan_ok_def)
    next
      case 3
      have "scan_ok (domain_length_scan (n + 1) (lab + 1) (if lab = 0 then b = chr_hyphen else fh) (b = chr_hyphen) bs)
          \<longleftrightarrow> n + 1 + length (c_str bs) \<le> 253 \<and>
          list_all label_ok (((cur @ [b]) @ hd (labels (c_str bs))) # tl (labels (c_str bs)))"
        using True 3 "2.prems" by (intro "2.IH"(2)) (auto simp: ldh_def)
      then show ?thesis using 3 True c by (simp add: ldh_def)
    next
      case 4
      have "\<not> label_ok (cur @ b # x)" for x using 4 by (auto simp: label_ok_def)
      then show ?thesis using 4 True c by (auto simp: scan_ok_def ldh_def)
    qed
  qed
qed

lemma domain_length_scan_length:
  "domain_length_scan n lab fh lh bs = Some (n', lab', fh', lh') \<Longrightarrow> n' \<le> kMaximumDomainLength \<Longrightarrow>
   n' = n + length (c_str bs)"
  by (induction n lab fh lh bs rule: domain_length_scan.induct) (auto simp: c_str_Cons split: if_splits)

lemma ReadDomainLength_iff:
  "ReadDomainLength ptr = Some n \<longleftrightarrow>
     (\<exists>d. ptr = Some d \<and> host_labels (c_str d) \<and> n = length (c_str d))"
proof (cases ptr)
  case None
  then show ?thesis by (simp add: ReadDomainLength_def)
next
  case (Some d)
  have ok: "scan_ok (domain_length_scan 0 0 False False d) \<longleftrightarrow> host_labels (c_str d)"
    using domain_length_scan_ok [of 0 "[]" False False 0 d] by (simp add: host_labels_def)
  show ?thesis
  proof (cases "domain_length_scan 0 0 False False d")
    case None
    then show ?thesis using ok Some by (simp add: ReadDomainLength_def scan_ok_def)
  next
    case s: (Some r)
    obtain m lab fh lh where r: "r = (m, lab, fh, lh)" by (cases r)
    have m: "m \<le> 253 \<Longrightarrow> m = length (c_str d)"
      using domain_length_scan_length [of 0 0 False False d m lab fh lh] s r by simp
    have "\<not> host_labels (c_str d)" if "c_str d = []"
      using that by (simp add: host_labels_def label_ok_def)
    then show ?thesis
      using ok Some s r m by (auto simp: ReadDomainLength_def scan_ok_def)
  qed
qed

section \<open>The binding table refines a set of bindings\<close>

lemma expire_simps [simp]:
  "entry_binding (expire now e) = entry_binding e" "be_expires_at (expire now e) = be_expires_at e"
  "be_family (expire now e) = be_family e" "be_address (expire now e) = be_address e"
  "be_occupied (expire now e) = (be_occupied e \<and> now < be_expires_at e)"
  by (auto simp: expire_def entry_binding_def not_less)

lemma Matches_iff:
  assumes "ValidateKey key \<noteq> None"
  shows "Matches e key \<longleftrightarrow> be_occupied e \<and> entry_binding e = key_binding key"
proof -
  have "length (the (bk_address key)) = expected_address_length (bk_family key)"
    "expected_address_length (bk_family key) = (if bk_family key = AddressFamily_kIpv4 then 4 else 16)"
    using assms by (auto simp: ValidateKey_def expected_address_length_def split: if_splits)
  then show ?thesis
    by (auto simp: Matches_def entry_binding_def key_binding_def Let_def)
qed

lemma UpsertScan_Cons:
  "UpsertScan key now x i a (e # es) =
     (if Matches (expire now e) key then (True, a, (expire now e)\<lparr>be_expires_at := x\<rparr> # es)
      else case UpsertScan key now x (i + 1) (if \<not> be_occupied (expire now e) \<and> a = None then Some i else a) es of
          (found, available, rest) \<Rightarrow> (found, available, expire now e # rest))"
  unfolding UpsertScan.simps Let_def expire_def [symmetric] by (rule refl)

lemma UpsertScan_found:
  "UpsertScan key now x i a es = (True, a', es') \<Longrightarrow>
   \<exists>xs e ys. es = xs @ e # ys \<and> Matches (expire now e) key \<and> (\<forall>y \<in> set xs. \<not> Matches (expire now y) key) \<and>
     es' = map (expire now) xs @ (expire now e)\<lparr>be_expires_at := x\<rparr> # ys"
proof (induction es arbitrary: i a es')
  case Nil
  then show ?case by simp
next
  case (Cons e es)
  show ?case
  proof (cases "Matches (expire now e) key")
    case True
    then show ?thesis using Cons.prems
      by (intro exI [of _ "[]"] exI [of _ e] exI [of _ es]) (simp only: UpsertScan_Cons if_True prod.inject list.map append_Nil list.set ball_empty simp_thms)
  next
    case False
    then obtain a1 es1 where s: "UpsertScan key now x (i + 1) a1 es = (True, a', es1)" "es' = expire now e # es1"
      using Cons.prems by (simp only: UpsertScan_Cons if_False split: prod.splits) blast
    obtain xs f ys where "es = xs @ f # ys" "Matches (expire now f) key" "\<forall>y \<in> set xs. \<not> Matches (expire now y) key"
      "es1 = map (expire now) xs @ (expire now f)\<lparr>be_expires_at := x\<rparr> # ys"
      using Cons.IH [OF s(1)] by blast
    then show ?thesis using False s(2)
      by (intro exI [of _ "e # xs"] exI [of _ f] exI [of _ ys]) simp
  qed
qed

lemma UpsertScan_not_found:
  "UpsertScan key now x i a es = (False, a', es') \<Longrightarrow>
   es' = map (expire now) es \<and> (\<forall>e \<in> set es. \<not> Matches (expire now e) key) \<and>
   (case a of Some j \<Rightarrow> a' = Some j
    | None \<Rightarrow> (case a' of None \<Rightarrow> \<forall>e \<in> set es'. be_occupied e
              | Some j \<Rightarrow> i \<le> j \<and> j - i < length es' \<and> \<not> be_occupied (es' ! (j - i))))"
proof (induction es arbitrary: i a es')
  case Nil
  then show ?case by (auto split: option.split)
next
  case (Cons e es)
  then have nm: "\<not> Matches (expire now e) key" unfolding UpsertScan_Cons by (auto split: if_splits)
  let ?a = "if \<not> be_occupied (expire now e) \<and> a = None then Some i else a"
  obtain es1 where s: "UpsertScan key now x (i + 1) ?a es = (False, a', es1)" "es' = expire now e # es1"
    using Cons.prems nm by (simp only: UpsertScan_Cons if_False split: prod.splits) blast
  note IH = Cons.IH [OF s(1)]
  show ?case
  proof (cases a)
    case (Some j)
    then show ?thesis using IH nm s(2) by simp
  next
    case None
    show ?thesis
    proof (cases "be_occupied (expire now e)")
      case True
      then have free: "case a' of None \<Rightarrow> \<forall>e \<in> set es1. be_occupied e
          | Some j \<Rightarrow> i + 1 \<le> j \<and> j - (i + 1) < length es1 \<and> \<not> be_occupied (es1 ! (j - (i + 1)))"
        using IH None by simp
      have "case a' of None \<Rightarrow> \<forall>e \<in> set es'. be_occupied e
          | Some j \<Rightarrow> i \<le> j \<and> j - i < length es' \<and> \<not> be_occupied (es' ! (j - i))"
      proof (cases a')
        case None
        then show ?thesis using free True s(2) by (simp del: expire_simps)
      next
        case (Some j)
        then have "Suc i \<le> j" using free by simp
        then have "j - i = Suc (j - (i + 1))" by arith
        then show ?thesis using free Some s(2) by simp
      qed
      then show ?thesis using IH nm s(2) None by (simp del: expire_simps)
    next
      case False
      then show ?thesis using IH nm s(2) None by simp
    qed
  qed
qed

lemma live_bindings_Nil [simp]: "live_bindings [] t = {}"
  by (simp add: live_bindings_def)

lemma live_bindings_Cons:
  "live_bindings (e # es) t =
     (if be_occupied e \<and> t < be_expires_at e then {(entry_binding e, be_expires_at e)} else {}) \<union> live_bindings es t"
  by (auto simp: live_bindings_def)

lemma live_bindings_append: "live_bindings (xs @ ys) t = live_bindings xs t \<union> live_bindings ys t"
  by (auto simp: live_bindings_def)

lemma live_expire:
  assumes "now \<le> t"
  shows "be_occupied (expire now e) \<and> t < be_expires_at e \<longleftrightarrow> be_occupied e \<and> t < be_expires_at e"
  unfolding expire_simps using order.strict_trans1 [OF assms] by blast

lemma live_bindings_expire: "now \<le> t \<Longrightarrow> live_bindings (map (expire now) xs) t = live_bindings xs t"
  by (induction xs) (simp_all only: list.map live_bindings_Cons live_expire expire_simps(1,2))

lemma live_bindings_iff:
  "(k, x) \<in> live_bindings es t \<longleftrightarrow> (\<exists>e \<in> set es. be_occupied e \<and> t < be_expires_at e \<and> entry_binding e = k \<and> be_expires_at e = x)"
  by (induction es) (auto simp: live_bindings_Cons)

lemma filter_expire: "filter be_occupied (map (expire now) es) = map (expire now) (filter (\<lambda>e. be_occupied e \<and> now < be_expires_at e) es)"
  by (induction es) auto

lemma table_inv_expire: "table_inv es \<Longrightarrow> table_inv (map (expire now) es)"
proof -
  assume inv: "table_inv es"
  have eq: "map entry_binding (filter be_occupied (map (expire now) es)) =
      map entry_binding (filter (\<lambda>e. now < be_expires_at e) (filter be_occupied es))"
    unfolding filter_expire by (simp add: comp_def conj_commute)
  have "distinct (map entry_binding (filter (\<lambda>e. now < be_expires_at e) (filter be_occupied es)))"
    using inv unfolding table_inv_def by (blast intro: distinct_map_filter)
  then show ?thesis using inv unfolding table_inv_def eq by auto
qed

lemma table_inv_update:
  assumes inv: "table_inv es" and i: "i < length es" and free: "\<not> be_occupied (es ! i)"
    and e: "be_occupied e" "be_family e \<in> {4, 6}" "length (be_address e) = 16"
    and new: "\<forall>f \<in> set es. be_occupied f \<longrightarrow> entry_binding f \<noteq> entry_binding e"
  shows "table_inv (es[i := e])"
proof -
  define xs ys where "xs = take i es" and "ys = drop (Suc i) es"
  obtain f where es: "es = xs @ f # ys" "\<not> be_occupied f"
    using id_take_nth_drop [OF i] free by (auto simp: xs_def ys_def)
  have u: "es[i := e] = xs @ e # ys"
    using list_update_split [OF i] by (simp add: xs_def ys_def)
  have new': "\<forall>f \<in> set xs \<union> set ys. be_occupied f \<longrightarrow> entry_binding f \<noteq> entry_binding e"
    using new by (simp add: es)
  have "distinct (map entry_binding (filter be_occupied xs) @ map entry_binding (filter be_occupied ys))"
    using inv by (simp add: table_inv_def es)
  then have "distinct (map entry_binding (filter be_occupied xs) @ entry_binding e # map entry_binding (filter be_occupied ys))"
    using new' by auto
  moreover have "\<forall>f \<in> set (xs @ e # ys). be_occupied f \<longrightarrow> be_family f \<in> {4, 6} \<and> length (be_address f) = 16"
    using inv e(2,3) by (auto simp: table_inv_def es)
  ultimately show ?thesis
    unfolding table_inv_def u using e(1) by simp
qed

lemma ValidateKey_Some:
  assumes "ValidateKey key = Some n"
  shows "\<exists>d a. bk_domain key = Some d \<and> bk_address key = Some a \<and> host_labels (c_str d) \<and> n = length (c_str d) \<and>
    bk_family key \<in> {AddressFamily_kIpv4, AddressFamily_kIpv6} \<and> length a = expected_address_length (bk_family key) \<and>
    bk_process key \<noteq> 0 \<and> \<not> all_zero (bk_session key)"
  using assms ReadDomainLength_iff [of "bk_domain key" n]
  by (auto simp: ValidateKey_def expected_address_length_def split: if_splits)

lemma live_other_unique:
  assumes "distinct (map entry_binding (filter be_occupied (xs @ e # ys)))" "be_occupied e"
  shows "live_bindings (xs @ ys) t = {p \<in> live_bindings (xs @ e # ys) t. fst p \<noteq> entry_binding e}"
proof -
  have "p \<in> live_bindings (xs @ ys) t \<Longrightarrow> fst p \<noteq> entry_binding e" for p
    using assms by (cases p) (auto simp: live_bindings_iff image_iff)
  then show ?thesis
    by (auto simp: live_bindings_append live_bindings_Cons)
qed

lemma expiry_no_wrap:
  fixes now ttl :: u64
  assumes "ttl \<noteq> 0" "\<not> 0xFFFFFFFFFFFFFFFF - now < ttl"
  shows "now < now + ttl" "unat (now + ttl) = unat now + unat ttl"
proof -
  have m: "unat (0xFFFFFFFFFFFFFFFF :: u64) = 2 ^ 64 - 1" by simp
  have "now \<le> 0xFFFFFFFFFFFFFFFF"
    using unsigned_less [of now, where ?'a = nat] by (simp add: word_le_nat_alt m)
  then have "unat (0xFFFFFFFFFFFFFFFF - now) = 2 ^ 64 - 1 - unat now"
    using unat_sub [of now "0xFFFFFFFFFFFFFFFF"] by (simp add: m)
  then have "unat now + unat ttl < 2 ^ 64"
    using assms(2) unsigned_less [of now, where ?'a = nat] by (simp add: not_less word_le_nat_alt)
  then show eq: "unat (now + ttl) = unat now + unat ttl"
    by (simp add: unat_word_ariths)
  have "unat ttl \<noteq> 0" using assms(1) by (simp add: unat_eq_0)
  then show "now < now + ttl" by (simp add: word_less_nat_alt eq)
qed

lemma table_inv_refresh:
  assumes inv: "table_inv (xs @ e # ys)" and e: "be_occupied e" "be_occupied e'" "entry_binding e' = entry_binding e"
    "be_family e' = be_family e" "be_address e' = be_address e"
  shows "table_inv (map (expire now) xs @ e' # ys)"
proof -
  have "map entry_binding (filter be_occupied (map (expire now) xs)) =
      map entry_binding (filter (\<lambda>e. now < be_expires_at e) (filter be_occupied xs))"
    unfolding filter_expire by (simp add: comp_def conj_commute)
  moreover have "distinct (map entry_binding (filter be_occupied xs) @ entry_binding e # map entry_binding (filter be_occupied ys))"
    using inv e by (simp add: table_inv_def)
  then have "distinct (map entry_binding (filter (\<lambda>e. now < be_expires_at e) (filter be_occupied xs)) @
      entry_binding e # map entry_binding (filter be_occupied ys))"
    using distinct_map_filter by fastforce
  moreover have "\<forall>f \<in> set (map (expire now) xs @ e' # ys). be_occupied f \<longrightarrow>
      be_family f \<in> {4, 6} \<and> length (be_address f) = 16"
    using inv e by (auto simp: table_inv_def)
  ultimately show ?thesis
    unfolding table_inv_def using e by simp
qed

lemma new_entry_binding:
  assumes "ValidateKey key = Some n"
  shows "entry_binding (new_entry key x) = key_binding key" "be_family (new_entry key x) \<in> {4, 6}"
    "length (be_address (new_entry key x)) = 16"
proof -
  obtain d a where k: "bk_domain key = Some d" "bk_address key = Some a" "n = length (c_str d)"
    "bk_family key \<in> {4, 6}" "length a = expected_address_length (bk_family key)"
    using ValidateKey_Some [OF assms] by blast
  have "length a \<le> 16" using k(4,5) by (auto simp: expected_address_length_def)
  then show "entry_binding (new_entry key x) = key_binding key" "be_family (new_entry key x) \<in> {4, 6}"
    "length (be_address (new_entry key x)) = 16"
    using k assms by (auto simp: new_entry_def entry_binding_def key_binding_def take_c_str put_bytes_eq)
qed

lemma live_bindings_middle:
  "live_bindings (xs @ e # ys) t =
     live_bindings (xs @ ys) t \<union> (if be_occupied e \<and> t < be_expires_at e then {(entry_binding e, be_expires_at e)} else {})"
  by (auto simp: live_bindings_append live_bindings_Cons)

lemma Upsert_refresh:
  assumes inv: "table_inv es" and vk: "ValidateKey key \<noteq> None"
    and scan: "UpsertScan key now x 0 None es = (True, av, es')"
  shows "table_inv es' \<and> length es' = length es \<and>
    (\<forall>t \<ge> now. live_bindings es' t = {p \<in> live_bindings es t. fst p \<noteq> key_binding key} \<union>
       (if t < x then {(key_binding key, x)} else {}))"
proof -
  obtain xs e ys where e: "es = xs @ e # ys" "Matches (expire now e) key"
    "es' = map (expire now) xs @ (expire now e)\<lparr>be_expires_at := x\<rparr> # ys"
    using UpsertScan_found [OF scan] by blast
  define e' where "e' = (expire now e)\<lparr>be_expires_at := x\<rparr>"
  have m: "be_occupied e" "entry_binding e = key_binding key" "be_occupied (expire now e)"
    using e(2) by (auto simp: Matches_iff [OF vk])
  have e': "be_occupied e'" "entry_binding e' = entry_binding e" "be_expires_at e' = x"
    "be_family e' = be_family e" "be_address e' = be_address e"
    using m(3) expire_simps(1,3,4) [of now e] by (simp_all add: e'_def entry_binding_def del: expire_simps)
  have "live_bindings es' t = {p \<in> live_bindings es t. fst p \<noteq> key_binding key} \<union>
       (if t < x then {(key_binding key, x)} else {})" if "now \<le> t" for t
  proof -
    have "live_bindings es' t = live_bindings (xs @ ys) t \<union> (if t < x then {(key_binding key, x)} else {})"
      unfolding e(3) e'_def [symmetric] live_bindings_middle
      using e' m live_bindings_expire [OF that, of xs] by (simp add: live_bindings_append)
    also have "live_bindings (xs @ ys) t = {p \<in> live_bindings es t. fst p \<noteq> key_binding key}"
      using live_other_unique [of xs e ys t] inv m by (simp add: e(1) table_inv_def)
    finally show ?thesis .
  qed
  moreover have "table_inv es'"
    unfolding e(3) e'_def [symmetric]
    by (rule table_inv_refresh [OF inv [unfolded e(1)] m(1) e'(1,2,4,5)])
  ultimately show ?thesis by (simp add: e(1,3))
qed

lemma Upsert_fresh:
  assumes inv: "table_inv es" and vk: "ValidateKey key = Some n"
    and scan: "UpsertScan key now x 0 None es = (False, Some j, es1)"
  shows "table_inv (es1[j := new_entry key x]) \<and> length es1 = length es \<and>
    (\<forall>t \<ge> now. live_bindings (es1[j := new_entry key x]) t =
       {p \<in> live_bindings es t. fst p \<noteq> key_binding key} \<union> (if t < x then {(key_binding key, x)} else {}))"
proof -
  have s: "es1 = map (expire now) es" "\<forall>e \<in> set es. \<not> Matches (expire now e) key"
    "j < length es1" "\<not> be_occupied (es1 ! j)"
    using UpsertScan_not_found [OF scan] by auto
  have none: "\<forall>f \<in> set es1. be_occupied f \<longrightarrow> entry_binding f \<noteq> entry_binding (new_entry key x)"
    using s(1,2) vk new_entry_binding(1) [OF vk] by (auto simp: Matches_iff)
  have "table_inv (es1[j := new_entry key x])"
    using s inv none new_entry_binding [OF vk]
    by (intro table_inv_update) (auto simp: table_inv_expire new_entry_def)
  moreover have "live_bindings (es1[j := new_entry key x]) t =
       {p \<in> live_bindings es t. fst p \<noteq> key_binding key} \<union> (if t < x then {(key_binding key, x)} else {})"
    if "now \<le> t" for t
  proof -
    define xs ys f where "xs = take j es1" and "ys = drop (Suc j) es1" and "f = es1 ! j"
    have es1: "es1 = xs @ f # ys" "es1[j := new_entry key x] = xs @ new_entry key x # ys"
      using id_take_nth_drop [OF s(3)] list_update_split [OF s(3)] by (simp_all add: xs_def ys_def f_def)
    have f: "\<not> be_occupied f" using s(4) by (simp add: f_def)
    have "live_bindings es t = live_bindings (xs @ ys) t"
      using live_bindings_expire [OF that, of es] f live_bindings_middle [of xs f ys t] by (simp add: s(1) [symmetric] es1(1))
    moreover have "p \<in> live_bindings es t \<Longrightarrow> fst p \<noteq> key_binding key" for p
    proof (cases p)
      case (Pair k y)
      assume "p \<in> live_bindings es t"
      then obtain e where "e \<in> set es" "be_occupied e" "t < be_expires_at e" "entry_binding e = k"
        by (auto simp: Pair live_bindings_iff)
      then show ?thesis
        using s(2) vk live_expire [OF that, of e] by (auto simp: Pair Matches_iff)
    qed
    ultimately show ?thesis
      unfolding es1(2) live_bindings_middle using new_entry_binding(1) [OF vk]
      by (auto simp: new_entry_def)
  qed
  ultimately show ?thesis by (simp add: s(1))
qed

lemma BindingTable_Upsert_spec:
  assumes inv: "table_inv es" and up: "BindingTable_Upsert es key now ttl = (status, es')"
  shows "table_inv es' \<and> length es' = length es \<and>
    (status = Binding_kSuccess \<longrightarrow> (\<forall>t \<ge> now. live_bindings es' t =
       {p \<in> live_bindings es t. fst p \<noteq> key_binding key} \<union>
       (if t < now + ttl then {(key_binding key, now + ttl)} else {}))) \<and>
    (status \<noteq> Binding_kSuccess \<longrightarrow> (\<forall>t \<ge> now. live_bindings es' t = live_bindings es t))"
proof (cases "ttl = 0 \<or> 0xFFFFFFFFFFFFFFFF - now < ttl \<or> ValidateKey key = None")
  case True
  then show ?thesis using up inv by (auto simp: BindingTable_Upsert_def)
next
  case False
  then obtain n where vk: "ValidateKey key = Some n" by auto
  obtain found av es1 where scan: "UpsertScan key now (now + ttl) 0 None es = (found, av, es1)"
    by (cases "UpsertScan key now (now + ttl) 0 None es")
  consider "found" | j where "\<not> found" "av = Some j" | "\<not> found" "av = None" by (cases av) auto
  then show ?thesis
  proof cases
    case 1
    then have "status = Binding_kSuccess" "es' = es1"
      using up False scan by (auto simp: BindingTable_Upsert_def Let_def)
    then show ?thesis using Upsert_refresh [OF inv, of key now "now + ttl" av es1] vk scan 1 by simp
  next
    case 2
    then have "status = Binding_kSuccess" "es' = es1[j := new_entry key (now + ttl)]"
      using up False scan by (auto simp: BindingTable_Upsert_def Let_def new_entry_def)
    then show ?thesis using Upsert_fresh [OF inv vk, of now "now + ttl" j es1] scan 2 by simp
  next
    case 3
    then have st: "status = Binding_kFull" "es' = es1"
      using up False scan by (auto simp: BindingTable_Upsert_def Let_def)
    have "es1 = map (expire now) es" using UpsertScan_not_found [of key now "now + ttl" 0 None es av es1] scan 3 by simp
    then show ?thesis using st inv by (simp add: table_inv_expire live_bindings_expire)
  qed
qed

lemma IsAuthorized_iff:
  "BindingTable_IsAuthorized es key now \<longleftrightarrow>
     ValidateKey key \<noteq> None \<and> (\<exists>x. (key_binding key, x) \<in> live_bindings es now)"
  by (auto simp: BindingTable_IsAuthorized_def Matches_iff list_ex_iff live_bindings_iff)

section \<open>The contract of a binding store\<close>

text \<open>
  What the proxies rely on: \<open>live\<close> gives the bindings with their expiry that are unexpired at
  a time, \<open>upsert\<close> records one binding and \<open>authorized\<close> asks for one.
\<close>

locale binding_store =
  fixes inv :: "'t \<Rightarrow> bool"
    and live :: "'t \<Rightarrow> u64 \<Rightarrow> (binding \<times> u64) set"
    and upsert :: "'t \<Rightarrow> BindingKey \<Rightarrow> u64 \<Rightarrow> u64 \<Rightarrow> BindingStatus \<times> 't"
    and authorized :: "'t \<Rightarrow> BindingKey \<Rightarrow> u64 \<Rightarrow> bool"
  assumes inv_upsert: "inv s \<Longrightarrow> upsert s key now ttl = (status, s') \<Longrightarrow> inv s'"
    and live_success: "inv s \<Longrightarrow> upsert s key now ttl = (Binding_kSuccess, s') \<Longrightarrow> now \<le> t \<Longrightarrow>
      live s' t = {p \<in> live s t. fst p \<noteq> key_binding key} \<union>
        (if t < now + ttl then {(key_binding key, now + ttl)} else {})"
    and live_failure: "inv s \<Longrightarrow> upsert s key now ttl = (status, s') \<Longrightarrow> status \<noteq> Binding_kSuccess \<Longrightarrow>
      now \<le> t \<Longrightarrow> live s' t = live s t"
    and live_mono: "t \<le> t' \<Longrightarrow> live s t' \<subseteq> live s t"
    and authorized_live: "authorized s key t \<longleftrightarrow>
      ValidateKey key \<noteq> None \<and> (\<exists>x. (key_binding key, x) \<in> live s t)"
begin

lemma authorized_after:
  assumes "inv s" and "upsert s key now ttl = (Binding_kSuccess, s')" and "now \<le> t"
  shows "authorized s' k t \<longleftrightarrow>
    (if key_binding k = key_binding key then ValidateKey k \<noteq> None \<and> t < now + ttl else authorized s k t)"
  unfolding authorized_live live_success [OF assms] by auto

lemma live_upsert_subset:
  assumes "inv s" and "upsert s key now ttl = (status, s')" and "now \<le> t"
  shows "live s' t \<subseteq> live s t \<union> {(key_binding key, now + ttl)}"
proof (cases "status = Binding_kSuccess")
  case True
  then show ?thesis using live_success [of s key now ttl s' t] assms by auto
next
  case False
  then show ?thesis using live_failure [of s key now ttl status s' t] assms by auto
qed

end

interpretation binding_table: binding_store table_inv live_bindings BindingTable_Upsert BindingTable_IsAuthorized
proof
  fix s s' key now ttl status assume a: "table_inv s" "BindingTable_Upsert s key now ttl = (status, s')"
  from BindingTable_Upsert_spec [OF a] show "table_inv s'" by blast
next
  fix s s' key now ttl and t :: u64
  assume a: "table_inv s" "BindingTable_Upsert s key now ttl = (Binding_kSuccess, s')" and t: "now \<le> t"
  from BindingTable_Upsert_spec [OF a] t
  show "live_bindings s' t = {p \<in> live_bindings s t. fst p \<noteq> key_binding key} \<union>
      (if t < now + ttl then {(key_binding key, now + ttl)} else {})" by blast
next
  fix s s' key now ttl status and t :: u64
  assume a: "table_inv s" "BindingTable_Upsert s key now ttl = (status, s')" and n: "status \<noteq> Binding_kSuccess" and t: "now \<le> t"
  from BindingTable_Upsert_spec [OF a] n t show "live_bindings s' t = live_bindings s t" by blast
next
  fix s t t' assume le: "t \<le> (t' :: u64)"
  show "live_bindings s t' \<subseteq> live_bindings s t"
  proof
    fix p assume "p \<in> live_bindings s t'"
    then show "p \<in> live_bindings s t"
      using order.strict_trans1 [OF le] by (cases p) (auto simp: live_bindings_iff)
  qed
qed (rule IsAuthorized_iff)

lemma table_inv_create: "DnsBindingTable_Create n = (Binding_kSuccess, Some es) \<Longrightarrow> table_inv es \<and> live_bindings es t = {}"
  by (auto simp: DnsBindingTable_Create_def table_inv_def live_bindings_def empty_entry_def split: if_splits)

lemma UpsertScan_full:
  assumes "UpsertScan key now x i None es = (False, None, es')"
  shows "\<forall>e \<in> set es. be_occupied e \<and> now < be_expires_at e"
proof -
  have "es' = map (expire now) es" "\<forall>f \<in> set es'. be_occupied f"
    using UpsertScan_not_found [OF assms] unfolding option.case by blast+
  then have "\<forall>f \<in> set (map (expire now) es). be_occupied f" by (simp only:)
  then have "\<forall>e \<in> set es. be_occupied (expire now e)" unfolding set_map by blast
  then show ?thesis unfolding expire_simps .
qed

lemma UpsertScan_complete:
  assumes "\<forall>e \<in> set es. be_occupied e \<and> now < be_expires_at e \<and> \<not> Matches e key"
  shows "UpsertScan key now x i None es = (False, None, es)"
  using assms
proof (induction es arbitrary: i)
  case (Cons e es)
  then have e: "be_occupied e" "now < be_expires_at e" "\<not> Matches e key" by simp_all
  then have "expire now e = e" by (simp add: expire_def not_le)
  then show ?case using Cons e by (simp add: UpsertScan_Cons del: UpsertScan.simps)
qed simp

lemma BindingTable_Upsert_full:
  assumes "ttl \<noteq> 0" "\<not> 0xFFFFFFFFFFFFFFFF - now < ttl" "ValidateKey key \<noteq> None"
  shows "fst (BindingTable_Upsert es key now ttl) = Binding_kFull \<longleftrightarrow>
    (\<forall>e \<in> set es. be_occupied e \<and> now < be_expires_at e \<and> entry_binding e \<noteq> key_binding key)"
proof
  assume "fst (BindingTable_Upsert es key now ttl) = Binding_kFull"
  moreover obtain found av es' where r: "UpsertScan key now (now + ttl) 0 None es = (found, av, es')"
    by (cases "UpsertScan key now (now + ttl) 0 None es")
  ultimately have "\<not> found" "av = None"
    using assms by (cases found; cases av; simp add: BindingTable_Upsert_def)+
  with r have s: "UpsertScan key now (now + ttl) 0 None es = (False, None, es')" by simp
  show "\<forall>e \<in> set es. be_occupied e \<and> now < be_expires_at e \<and> entry_binding e \<noteq> key_binding key"
    using UpsertScan_full [OF s] UpsertScan_not_found [OF s]
    unfolding Matches_iff [OF assms(3)] expire_simps by blast
next
  assume "\<forall>e \<in> set es. be_occupied e \<and> now < be_expires_at e \<and> entry_binding e \<noteq> key_binding key"
  then have "UpsertScan key now (now + ttl) 0 None es = (False, None, es)"
    by (intro UpsertScan_complete) (use Matches_iff [OF assms(3)] in blast)
  then show "fst (BindingTable_Upsert es key now ttl) = Binding_kFull"
    using assms by (simp add: BindingTable_Upsert_def Let_def)
qed

lemma endpoint_matches_binding:
  assumes "length a = expected_address_length family"
  shows "endpoint_matches session process family a port now e \<longleftrightarrow>
     (be_occupied e \<and> now < be_expires_at e) \<and> (be_port e = 0 \<or> be_port e = port) \<and>
     entry_binding e = Binding session process (be_domain e) family a (be_port e)"
  unfolding endpoint_matches_def entry_binding_def binding.inject assms by blast

lemma endpoint_authorized_iff:
  assumes "length a = expected_address_length family"
  shows "(\<exists>e \<in> set es. endpoint_matches session process family a port now e) \<longleftrightarrow>
    (\<exists>d p x. (Binding session process d family a p, x) \<in> live_bindings es now \<and> (p = 0 \<or> p = port))"
proof
  assume "\<exists>e \<in> set es. endpoint_matches session process family a port now e"
  then obtain e where "e \<in> set es" "endpoint_matches session process family a port now e" by blast
  then show "\<exists>d p x. (Binding session process d family a p, x) \<in> live_bindings es now \<and> (p = 0 \<or> p = port)"
    unfolding endpoint_matches_binding [OF assms] live_bindings_iff by blast
next
  assume "\<exists>d p x. (Binding session process d family a p, x) \<in> live_bindings es now \<and> (p = 0 \<or> p = port)"
  then obtain d p e where e: "e \<in> set es" "be_occupied e" "now < be_expires_at e"
    "entry_binding e = Binding session process d family a p" "p = 0 \<or> p = port"
    unfolding live_bindings_iff by blast
  have "be_domain e = d" "be_port e = p" using e(4) unfolding entry_binding_def binding.inject by blast+
  then have "endpoint_matches session process family a port now e"
    unfolding endpoint_matches_binding [OF assms] using e by blast
  then show "\<exists>e \<in> set es. endpoint_matches session process family a port now e" using e(1) by blast
qed

section \<open>The socket table refines a map\<close>

lemma socket_map_append: "socket_map (xs @ ys) s = (case socket_map xs s of None \<Rightarrow> socket_map ys s | Some e \<Rightarrow> Some e)"
  by (induction xs) simp_all

lemma socket_map_None: "socket_map es s = None \<longleftrightarrow> (\<forall>e \<in> set es. \<not> holds s e)"
  by (induction es) simp_all

lemma socket_map_find: "socket_map es s = map_option se_endpoint (find (holds s) es)"
  by (induction es) simp_all

lemma SocketUpsertScan_Cons:
  "SocketUpsertScan s ep i a (e # es) =
     (if holds s e then (True, a, e\<lparr>se_endpoint := ep\<rparr> # es)
      else case SocketUpsertScan s ep (i + 1) (if \<not> se_occupied e \<and> a = None then Some i else a) es of
          (found, available, rest) \<Rightarrow> (found, available, e # rest))"
  unfolding SocketUpsertScan.simps Let_def holds_def by (rule refl)

lemma SocketUpsertScan_found:
  "SocketUpsertScan s ep i a es = (True, a', es') \<Longrightarrow>
   \<exists>xs e ys. es = xs @ e # ys \<and> holds s e \<and> (\<forall>x \<in> set xs. \<not> holds s x) \<and> es' = xs @ e\<lparr>se_endpoint := ep\<rparr> # ys"
proof (induction es arbitrary: i a es')
  case Nil
  then show ?case by simp
next
  case (Cons e es)
  show ?case
  proof (cases "holds s e")
    case True
    then show ?thesis using Cons.prems
      by (intro exI [of _ "[]"] exI [of _ e] exI [of _ es])
        (simp only: SocketUpsertScan_Cons if_True prod.inject append_Nil list.set ball_empty simp_thms)
  next
    case False
    then obtain a1 es1 where s: "SocketUpsertScan s ep (i + 1) a1 es = (True, a', es1)" "es' = e # es1"
      using Cons.prems by (simp only: SocketUpsertScan_Cons if_False split: prod.splits) blast
    obtain xs f ys where "es = xs @ f # ys" "holds s f" "\<forall>x \<in> set xs. \<not> holds s x" "es1 = xs @ f\<lparr>se_endpoint := ep\<rparr> # ys"
      using Cons.IH [OF s(1)] by blast
    then show ?thesis using False s(2)
      by (intro exI [of _ "e # xs"] exI [of _ f] exI [of _ ys]) simp
  qed
qed

lemma SocketUpsertScan_not_found:
  "SocketUpsertScan s ep i a es = (False, a', es') \<Longrightarrow>
   es' = es \<and> (\<forall>e \<in> set es. \<not> holds s e) \<and>
   (case a of Some j \<Rightarrow> a' = Some j
    | None \<Rightarrow> (case a' of None \<Rightarrow> \<forall>e \<in> set es. se_occupied e
              | Some j \<Rightarrow> \<exists>xs e ys. es = xs @ e # ys \<and> j = i + length xs \<and> \<not> se_occupied e))"
proof (induction es arbitrary: i a es')
  case Nil
  then have "a' = a" "es' = []" by simp_all
  then show ?case by (simp split: option.split)
next
  case (Cons e es)
  then have nm: "\<not> holds s e" unfolding SocketUpsertScan_Cons by (metis prod.inject)
  let ?a = "if \<not> se_occupied e \<and> a = None then Some i else a"
  obtain es1 where r: "SocketUpsertScan s ep (i + 1) ?a es = (False, a', es1)" "es' = e # es1"
    using Cons.prems nm by (simp only: SocketUpsertScan_Cons if_False split: prod.splits) blast
  note IH = Cons.IH [OF r(1)]
  show ?case
  proof (cases a)
    case (Some j)
    then show ?thesis using IH nm r(2) by simp
  next
    case None
    have "case a' of None \<Rightarrow> \<forall>f \<in> set (e # es). se_occupied f
        | Some j \<Rightarrow> \<exists>xs f ys. e # es = xs @ f # ys \<and> j = i + length xs \<and> \<not> se_occupied f"
    proof (cases "se_occupied e")
      case True
      then have ih: "case a' of None \<Rightarrow> \<forall>e \<in> set es. se_occupied e
          | Some j \<Rightarrow> \<exists>xs e ys. es = xs @ e # ys \<and> j = i + 1 + length xs \<and> \<not> se_occupied e"
        using IH None by simp
      show ?thesis
      proof (cases a')
        case (Some j)
        then obtain xs f ys where "es = xs @ f # ys" "j = i + 1 + length xs" "\<not> se_occupied f" using ih by auto
        then show ?thesis using Some by (auto intro!: exI [of _ "e # xs"])
      qed (use ih True in simp)
    next
      case False
      then have "a' = Some i" using IH None by simp
      then show ?thesis using False by (auto intro!: exI [of _ "[]"])
    qed
    then show ?thesis using IH nm r(2) None by simp
  qed
qed

lemma socket_map_middle:
  assumes "\<forall>x \<in> set xs. \<not> holds s x"
  shows "socket_map (xs @ e # ys) s = (if holds s e then Some (se_endpoint e) else socket_map ys s)"
  using assms socket_map_None [of xs s] by (simp add: socket_map_append)

lemma SocketTable_Upsert_map:
  assumes inv: "sockets_inv es" and up: "SocketTable_Upsert es s ep = (Socket_kSuccess, es')"
  shows "sockets_inv es' \<and> socket_map es' = (socket_map es)(s \<mapsto> ep)"
proof -
  obtain found av es1 where scan: "SocketUpsertScan s ep 0 None es = (found, av, es1)"
    by (cases "SocketUpsertScan s ep 0 None es")
  have valid: "\<not> (\<not> ValidSocket s \<or> \<not> ValidEndpoint ep)"
    using up by (simp add: SocketTable_Upsert_def split: if_splits)
  show ?thesis
  proof (cases found)
    case True
    obtain xs e ys where e: "es = xs @ e # ys" "holds s e" "\<forall>x \<in> set xs. \<not> holds s x" "es1 = xs @ e\<lparr>se_endpoint := ep\<rparr> # ys"
      using SocketUpsertScan_found [of s ep 0 None es av es1] scan True by auto
    have "es' = es1" using up scan True valid by (simp add: SocketTable_Upsert_def)
    moreover have "socket_map es1 t = ((socket_map es)(s \<mapsto> ep)) t" for t
    proof (cases "t = s")
      case True
      then show ?thesis using e by (simp add: socket_map_middle holds_def)
    next
      case False
      then show ?thesis using e(2) by (simp add: e(1,4) socket_map_append holds_def split: option.split)
    qed
    moreover have "sockets_inv es1" using inv e(2) by (simp add: sockets_inv_def holds_def e(1,4))
    ultimately show ?thesis by auto
  next
    case False
    have "av \<noteq> None" using up scan False valid by (cases av) (simp_all add: SocketTable_Upsert_def)
    then obtain j where j: "av = Some j" by blast
    then obtain xs e ys where e: "es1 = es" "\<forall>e \<in> set es. \<not> holds s e" "es = xs @ e # ys" "j = length xs" "\<not> se_occupied e"
      using SocketUpsertScan_not_found [of s ep 0 None es av es1] scan False by auto
    let ?n = "\<lparr>se_occupied = True, se_socket = s, se_endpoint = ep\<rparr>"
    have es': "es' = xs @ ?n # ys"
      using up scan False valid j e by (simp add: SocketTable_Upsert_def)
    have none: "\<forall>x \<in> set xs. \<not> holds s x" "\<forall>x \<in> set ys. \<not> holds s x" using e(2,3) by simp_all
    have "socket_map es' t = ((socket_map es)(s \<mapsto> ep)) t" for t
    proof (cases "t = s")
      case True
      then show ?thesis using none by (simp add: es' socket_map_middle holds_def)
    next
      case False
      then show ?thesis using e(5) by (simp add: es' e(3) socket_map_append holds_def split: option.split)
    qed
    moreover have "sockets_inv es'"
      using inv e(5) none by (simp add: sockets_inv_def es' e(3)) (auto simp: holds_def)
    ultimately show ?thesis by auto
  qed
qed

lemma SocketRemoveScan_map:
  assumes "sockets_inv es" "SocketRemoveScan s es = (found, es')" "s \<noteq> 0"
  shows "sockets_inv es' \<and> found = (socket_map es s \<noteq> None) \<and> socket_map es' = (socket_map es)(s := None) \<and>
    (\<forall>t. t \<in> se_socket ` set (filter se_occupied es') \<longrightarrow> t \<in> se_socket ` set (filter se_occupied es))"
  using assms(1,2)
proof (induction es arbitrary: es' found)
  case Nil
  then show ?case by (auto simp: sockets_inv_def)
next
  case (Cons e es)
  show ?case
  proof (cases "holds s e")
    case True
    have "s \<notin> se_socket ` set (filter se_occupied es)"
      using Cons.prems(1) True by (simp add: sockets_inv_def holds_def)
    then have "socket_map es s = None" by (auto simp: socket_map_None holds_def)
    then show ?thesis using Cons.prems True
      by (auto simp: sockets_inv_def holds_def empty_socket_entry_def fun_eq_iff)
  next
    case False
    obtain es1 where r: "SocketRemoveScan s es = (found, es1)" "es' = e # es1"
      using Cons.prems(2) False by (auto simp: holds_def split: prod.splits if_splits)
    have inv: "sockets_inv es" using Cons.prems(1) by (simp add: sockets_inv_def split: if_splits)
    note IH = Cons.IH [OF inv r(1)]
    have "sockets_inv es'" using Cons.prems(1) IH by (auto simp: sockets_inv_def r(2))
    then show ?thesis using IH False by (auto simp: r(2) fun_eq_iff)
  qed
qed

lemma SocketTable_Lookup_map:
  "SocketTable_Lookup es s =
     (if ValidSocket s then case socket_map es s of None \<Rightarrow> (False, empty_endpoint) | Some ep \<Rightarrow> (True, ep)
      else (False, empty_endpoint))"
proof -
  have eq: "(\<lambda>entry. se_occupied entry \<and> se_socket entry = s) = holds s" by (simp add: fun_eq_iff holds_def)
  show ?thesis unfolding SocketTable_Lookup_def eq socket_map_find by (simp split: option.split)
qed

section \<open>Properties\<close>

text \<open>
  C18. DNS bindings: after a successful \<open>Upsert\<close> of a key at time \<open>now\<close>, at every later time the
  table authorises a key with the same session, process, domain, address and port exactly
  until \<open>now + ttl\<close>, without wrap-around, and every other key exactly as before; the keys of
  the occupied slots stay distinct.
\<close>

theorem binding_upsert_authorizes:
  assumes "table_inv es" and "BindingTable_Upsert es key now ttl = (Binding_kSuccess, es')" and "now \<le> t"
  shows "table_inv es' \<and> unat (now + ttl) = unat now + unat ttl \<and>
    (BindingTable_IsAuthorized es' k t \<longleftrightarrow>
      (if key_binding k = key_binding key then ValidateKey k \<noteq> None \<and> t < now + ttl
       else BindingTable_IsAuthorized es k t))"
proof -
  have "ttl \<noteq> 0" "\<not> 0xFFFFFFFFFFFFFFFF - now < ttl"
    using assms(2) by (simp_all add: BindingTable_Upsert_def split: if_splits)
  then show ?thesis
    using expiry_no_wrap binding_table.inv_upsert [OF assms(1,2)] binding_table.authorized_after [OF assms] by blast
qed

lemma ValidateKey_sample: "ValidateKey sample_key = Some 5"
  by code_simp

lemma table_inv_empty: "table_inv (replicate n empty_entry)"
  by (simp add: table_inv_def empty_entry_def)

theorem binding_upsert_authorizes_witness:
  "\<exists>es'. BindingTable_Upsert (replicate 2 empty_entry) sample_key 100 50 = (Binding_kSuccess, es') \<and>
     BindingTable_IsAuthorized es' sample_key 149 \<and> \<not> BindingTable_IsAuthorized es' sample_key 150"
proof -
  obtain es' where up: "BindingTable_Upsert (replicate 2 empty_entry) sample_key 100 50 = (Binding_kSuccess, es')"
  proof -
    have "fst (BindingTable_Upsert (replicate 2 empty_entry) sample_key 100 50) = Binding_kSuccess"
      by code_simp
    then show ?thesis using that by (metis prod.collapse)
  qed
  have le: "(100 :: u64) \<le> 149" "(100 :: u64) \<le> 150" by simp_all
  note w = binding_upsert_authorizes [OF table_inv_empty up]
  have "BindingTable_IsAuthorized es' sample_key 149" "\<not> BindingTable_IsAuthorized es' sample_key 150"
    using w [OF le(1), of sample_key] w [OF le(2), of sample_key] ValidateKey_sample by simp_all
  with up show ?thesis by blast
qed

text \<open>
  \<open>Upsert\<close> of a valid key reports \<open>kFull\<close> exactly if every slot holds an unexpired binding
  of another key, so expired slots are always reused.
\<close>

theorem binding_upsert_full:
  assumes "ttl \<noteq> 0" and "\<not> 0xFFFFFFFFFFFFFFFF - now < ttl" and "ValidateKey key \<noteq> None"
  shows "fst (BindingTable_Upsert es key now ttl) = Binding_kFull \<longleftrightarrow>
    (\<forall>e \<in> set es. be_occupied e \<and> now < be_expires_at e \<and> entry_binding e \<noteq> key_binding key)"
  using assms by (rule BindingTable_Upsert_full)

theorem binding_upsert_full_witness:
  "fst (BindingTable_Upsert [new_entry sample_key 5] (sample_key\<lparr>bk_port := 80\<rparr>) 5 10) \<noteq> Binding_kFull"
proof -
  have "ValidateKey (sample_key\<lparr>bk_port := 80\<rparr>) \<noteq> None" by code_simp
  from binding_upsert_full [OF _ _ this, of 10 5 "[new_entry sample_key 5]"]
  show ?thesis by (simp add: new_entry_def)
qed

text \<open>
  C19. The socket table is a map: a successful \<open>Upsert\<close> changes the endpoint of its socket only,
  \<open>Remove\<close> deletes its socket only and says whether it was present, \<open>Lookup\<close> returns the
  mapped endpoint or the zero endpoint.
\<close>

theorem socket_table_map:
  assumes "sockets_inv es" and "ValidSocket s"
  shows "SocketTable_Lookup es s =
      (case socket_map es s of None \<Rightarrow> (False, empty_endpoint) | Some ep \<Rightarrow> (True, ep)) \<and>
    (\<forall>ep es'. SocketTable_Upsert es s ep = (Socket_kSuccess, es') \<longrightarrow>
       sockets_inv es' \<and> socket_map es' = (socket_map es)(s \<mapsto> ep)) \<and>
    (\<forall>found es'. SocketTable_Remove es s = (found, es') \<longrightarrow>
       sockets_inv es' \<and> found = (s \<in> dom (socket_map es)) \<and> socket_map es' = (socket_map es)(s := None))"
proof (intro conjI allI impI)
  show "SocketTable_Lookup es s = (case socket_map es s of None \<Rightarrow> (False, empty_endpoint) | Some ep \<Rightarrow> (True, ep))"
    using assms(2) by (simp add: SocketTable_Lookup_map)
next
  fix ep es' assume "SocketTable_Upsert es s ep = (Socket_kSuccess, es')"
  from SocketTable_Upsert_map [OF assms(1) this]
  show "sockets_inv es'" "socket_map es' = (socket_map es)(s \<mapsto> ep)" by blast+
next
  fix found es' assume "SocketTable_Remove es s = (found, es')"
  then have "SocketRemoveScan s es = (found, es')" "s \<noteq> 0"
    using assms(2) by (simp_all add: SocketTable_Remove_def ValidSocket_def)
  from SocketRemoveScan_map [OF assms(1) this]
  show "sockets_inv es'" "found = (s \<in> dom (socket_map es))" "socket_map es' = (socket_map es)(s := None)" by auto
qed

theorem socket_table_map_witness:
  "SocketTable_Lookup
     (snd (SocketTable_Upsert [empty_socket_entry, empty_socket_entry] 9
        \<lparr>ep_family = 6, ep_address = replicate 16 1, ep_port = 443\<rparr>)) 9 =
   (True, \<lparr>ep_family = 6, ep_address = replicate 16 1, ep_port = 443\<rparr>)"
proof -
  let ?ep = "\<lparr>ep_family = 6, ep_address = replicate 16 1, ep_port = 443\<rparr> :: NetworkEndpoint"
  have inv: "sockets_inv [empty_socket_entry, empty_socket_entry]" by (simp add: sockets_inv_def empty_socket_entry_def)
  have valid: "ValidSocket 9" by (simp add: ValidSocket_def)
  have "fst (SocketTable_Upsert [empty_socket_entry, empty_socket_entry] 9 ?ep) = Socket_kSuccess"
    by (simp add: SocketTable_Upsert_def ValidSocket_def ValidEndpoint_def empty_socket_entry_def)
  then obtain es' where up: "SocketTable_Upsert [empty_socket_entry, empty_socket_entry] 9 ?ep = (Socket_kSuccess, es')"
    by (metis prod.collapse)
  from socket_table_map [OF inv valid] up
  have m: "sockets_inv es'" "socket_map es' = (socket_map [empty_socket_entry, empty_socket_entry])(9 \<mapsto> ?ep)"
    by blast+
  have "SocketTable_Lookup es' 9 = (case socket_map es' 9 of None \<Rightarrow> (False, empty_endpoint) | Some ep \<Rightarrow> (True, ep))"
    using socket_table_map [OF m(1) valid] by blast
  then show ?thesis unfolding up m(2) by simp
qed

end
