(* ===== verification/ProxyProtocol.thy ===== *)
theory ProxyProtocol
  imports EventFrame
begin

text \<open>
  \<open>src/native/protocol/dns_proxy_protocol.cpp\<close> and \<open>tcp_proxy_protocol.cpp\<close>: the
  authenticated frames exchanged between the hooks and the proxy process.  Both protocols
  share the 68-byte header: magic, version, kind, payload length, sequence, session nonce
  and an HMAC-SHA-256 over everything else.  HMAC is code of the operating system: \<open>hmac\<close>
  stands for the BCrypt computation on a key and a message and is \<open>None\<close> when a BCrypt
  call fails.  Allocation succeeds.

  The specification \<open>auth_frame\<close> is the concatenation of the fields.  The locale
  \<open>authenticated_header\<close> is the contract of a header check; it is interpreted on the checks
  of both protocols and carries the lemmas about what an accepted frame fixes: the magic,
  the kind, the sequence, the nonce and the payload.
\<close>

section \<open>Definitions\<close>

subsection \<open>Sessions and the common header\<close>

abbreviation (input) kDnsProxyHeaderLength :: nat where "kDnsProxyHeaderLength \<equiv> 68"
abbreviation (input) kDnsProxyMacLength :: nat where "kDnsProxyMacLength \<equiv> 32"
abbreviation (input) kDnsProxyMaximumDomainLength :: nat where "kDnsProxyMaximumDomainLength \<equiv> 253"
abbreviation (input) kDnsProxyMaximumAddressRecords :: nat where "kDnsProxyMaximumAddressRecords \<equiv> 16"

abbreviation (input) kPayloadLengthOffset :: nat where "kPayloadLengthOffset \<equiv> 8"
abbreviation (input) kNonceOffset :: nat where "kNonceOffset \<equiv> 20"
abbreviation (input) kMacOffset :: nat where "kMacOffset \<equiv> 36"
abbreviation (input) kRequestKind :: u16 where "kRequestKind \<equiv> 1"
abbreviation (input) kResponseKind :: u16 where "kResponseKind \<equiv> 2"

definition kDnsMagic :: bytes where
  "kDnsMagic = ascii ''BLD1''"

definition kTcpMagic :: bytes where
  "kTcpMagic = ascii ''BLT1''"

record DnsProxySession =
  ps_nonce :: bytes
  ps_key :: bytes

type_synonym hmac_fn = "bytes \<Rightarrow> bytes \<Rightarrow> bytes option"

definition ValidSession :: "DnsProxySession \<Rightarrow> bool" where
  "ValidSession session = (\<not> all_zero (ps_nonce session) \<and> \<not> all_zero (ps_key session))"

text \<open>
  \<open>ComputeMac\<close> hashes the header before the MAC field and the payload.  \<open>BCryptFinishHash\<close>
  fails unless the output has the length of the hash, so a MAC has 32 bytes.
\<close>

definition ComputeMac :: "hmac_fn \<Rightarrow> DnsProxySession \<Rightarrow> bytes \<Rightarrow> bytes option" where
  "ComputeMac hmac session frame =
     (case hmac (ps_key session) (take kMacOffset frame @ drop kDnsProxyHeaderLength frame) of
        None \<Rightarrow> None
      | Some mac \<Rightarrow> if length mac = kDnsProxyMacLength then Some mac else None)"

text \<open>
  The header statements of all four encoders; \<open>tcp_proxy_protocol.cpp\<close> has them as a
  function.
\<close>

definition WriteHeader :: "bytes \<Rightarrow> DnsProxySession \<Rightarrow> u16 \<Rightarrow> u64 \<Rightarrow> bytes \<Rightarrow> bytes" where
  "WriteHeader magic session kind sequence encoded =
     (let encoded = put_bytes encoded 0 magic;
          encoded = WriteU16 encoded kVersionOffset kProtocolVersion;
          encoded = WriteU16 encoded kKindOffset kind;
          encoded = WriteU32 encoded kPayloadLengthOffset
                      (of_nat (length encoded - kDnsProxyHeaderLength));
          encoded = WriteU64 encoded kSequenceOffset sequence
      in put_bytes encoded kNonceOffset (ps_nonce session))"

subsection \<open>DNS frames\<close>

datatype DnsProxyStatus =
    Dns_kSuccess
  | Dns_kInvalidArgument
  | Dns_kInvalidLength
  | Dns_kInvalidMagic
  | Dns_kUnsupportedVersion
  | Dns_kUnexpectedKind
  | Dns_kSessionMismatch
  | Dns_kAuthenticationFailed
  | Dns_kUnexpectedSequence
  | Dns_kInvalidProcess
  | Dns_kInvalidDomain
  | Dns_kInvalidPort
  | Dns_kAllocationFailed
  | Dns_kCryptoFailed

abbreviation (input) DnsProxyQueryFamily_kAny :: u8 where "DnsProxyQueryFamily_kAny \<equiv> 0"
abbreviation (input) DnsProxyQueryFamily_kIpv4 :: u8 where "DnsProxyQueryFamily_kIpv4 \<equiv> 4"
abbreviation (input) DnsProxyQueryFamily_kIpv6 :: u8 where "DnsProxyQueryFamily_kIpv6 \<equiv> 6"
abbreviation (input) DnsProxyAddressFamily_kIpv4 :: u8 where "DnsProxyAddressFamily_kIpv4 \<equiv> 4"
abbreviation (input) DnsProxyAddressFamily_kIpv6 :: u8 where "DnsProxyAddressFamily_kIpv6 \<equiv> 6"
abbreviation (input) DnsProxyResult_kSuccess :: u8 where "DnsProxyResult_kSuccess \<equiv> 0"
abbreviation (input) DnsProxyResult_kDenied :: u8 where "DnsProxyResult_kDenied \<equiv> 1"
abbreviation (input) DnsProxyResult_kNotFound :: u8 where "DnsProxyResult_kNotFound \<equiv> 2"
abbreviation (input) DnsProxyResult_kFailure :: u8 where "DnsProxyResult_kFailure \<equiv> 3"

record DnsProxyRequest =
  dq_sequence :: u64
  dq_process :: u32
  dq_domain :: bytes
  dq_port :: u16
  dq_family :: u8

record DnsProxyAddress =
  da_family :: u8
  da_address :: bytes
  da_ttl :: u32

record DnsProxyResponse =
  dr_sequence :: u64
  dr_result :: u8
  dr_addresses :: "DnsProxyAddress list"

definition empty_dns_request :: DnsProxyRequest where
  "empty_dns_request =
     \<lparr>dq_sequence = 0, dq_process = 0, dq_domain = [], dq_port = 0, dq_family = DnsProxyQueryFamily_kAny\<rparr>"

definition empty_dns_response :: DnsProxyResponse where
  "empty_dns_response = \<lparr>dr_sequence = 0, dr_result = DnsProxyResult_kFailure, dr_addresses = []\<rparr>"

text \<open>The scan is the one of \<open>event_frame.cpp\<close> with the same bound.\<close>

definition DnsDomainLength :: "char_ptr \<Rightarrow> nat" where
  "DnsDomainLength domain =
     (case domain of
        None \<Rightarrow> 0
      | Some d \<Rightarrow>
          (case domain_scan 0 d of
             None \<Rightarrow> 0
           | Some len \<Rightarrow> if len \<le> kDnsProxyMaximumDomainLength then len else 0))"

definition DnsProxyRequestFrameLength :: "char_ptr \<Rightarrow> nat" where
  "DnsProxyRequestFrameLength ascii_domain =
     (let domain_length = DnsDomainLength ascii_domain
      in if domain_length = 0 then 0 else 78 + domain_length)"

definition EncodeDnsProxyRequest ::
  "hmac_fn \<Rightarrow> DnsProxySession \<Rightarrow> u64 \<Rightarrow> u32 \<Rightarrow> char_ptr \<Rightarrow> u16 \<Rightarrow> u8 \<Rightarrow> DnsProxyStatus \<times> bytes" where
  "EncodeDnsProxyRequest hmac session sequence process_id ascii_domain port family =
     (if \<not> ValidSession session \<or> sequence = 0 then (Dns_kInvalidArgument, [])
      else if process_id = 0 then (Dns_kInvalidProcess, [])
      else let frame_length = DnsProxyRequestFrameLength ascii_domain
        in if frame_length = 0 then (Dns_kInvalidDomain, [])
        else if family \<noteq> DnsProxyQueryFamily_kAny \<and> family \<noteq> DnsProxyQueryFamily_kIpv4 \<and>
                family \<noteq> DnsProxyQueryFamily_kIpv6
        then (Dns_kInvalidArgument, [])
        else let encoded = zeros frame_length;
                 encoded = WriteHeader kDnsMagic session kRequestKind sequence encoded;
                 encoded = WriteU32 encoded 68 process_id;
                 encoded = WriteU16 encoded 72 port;
                 encoded = encoded[74 := family];
                 domain_length = frame_length - 78;
                 encoded = WriteU16 encoded 76 (of_nat domain_length);
                 encoded = put_bytes encoded 78 (take domain_length (the ascii_domain))
             in (case ComputeMac hmac session encoded of
                   None \<Rightarrow> (Dns_kCryptoFailed, [])
                 | Some mac \<Rightarrow> (Dns_kSuccess, put_bytes encoded kMacOffset mac)))"

text \<open>The checks both DNS decoders make before they read the payload.\<close>

definition DnsValidateHeader ::
  "hmac_fn \<Rightarrow> DnsProxySession \<Rightarrow> nat \<Rightarrow> bytes \<Rightarrow> u16 \<Rightarrow> u64 \<Rightarrow> DnsProxyStatus" where
  "DnsValidateHeader hmac session minimum encoded expected_kind expected_sequence =
     (if length encoded < minimum \<or>
         unat (ReadU32 encoded kPayloadLengthOffset) \<noteq> length encoded - kDnsProxyHeaderLength
      then Dns_kInvalidLength
      else if \<not> HasMagic kDnsMagic encoded then Dns_kInvalidMagic
      else if ReadU16 encoded kVersionOffset \<noteq> kProtocolVersion then Dns_kUnsupportedVersion
      else if ReadU16 encoded kKindOffset \<noteq> expected_kind then Dns_kUnexpectedKind
      else if \<not> ConstantTimeEqual (drop kNonceOffset encoded) (ps_nonce session)
                   (length (ps_nonce session))
      then Dns_kSessionMismatch
      else (case ComputeMac hmac session encoded of
              None \<Rightarrow> Dns_kCryptoFailed
            | Some expected_mac \<Rightarrow>
                if \<not> ConstantTimeEqual (drop kMacOffset encoded) expected_mac (length expected_mac)
                then Dns_kAuthenticationFailed
                else if ReadU64 encoded kSequenceOffset \<noteq> expected_sequence
                then Dns_kUnexpectedSequence
                else Dns_kSuccess))"

definition DecodeDnsProxyRequest ::
  "hmac_fn \<Rightarrow> DnsProxySession \<Rightarrow> byte_ptr \<Rightarrow> u64 \<Rightarrow> DnsProxyStatus \<times> DnsProxyRequest" where
  "DecodeDnsProxyRequest hmac session ptr expected_sequence =
     (if ptr = None \<or> \<not> ValidSession session \<or> expected_sequence = 0
      then (Dns_kInvalidArgument, empty_dns_request)
      else let encoded = the ptr;
               header = DnsValidateHeader hmac session 78 encoded kRequestKind expected_sequence
        in if header \<noteq> Dns_kSuccess then (header, empty_dns_request)
        else let process_id = ReadU32 encoded 68
        in if process_id = 0 then (Dns_kInvalidProcess, empty_dns_request)
        else let port = ReadU16 encoded 72;
                 domain_length = unat (ReadU16 encoded 76);
                 family = encoded ! 74
        in if family \<noteq> 0 \<and> family \<noteq> 4 \<and> family \<noteq> 6 then (Dns_kInvalidArgument, empty_dns_request)
        else if domain_length = 0 \<or> kDnsProxyMaximumDomainLength < domain_length \<or>
                78 + domain_length \<noteq> length encoded
        then (Dns_kInvalidDomain, empty_dns_request)
        else let domain = sub_bytes 78 domain_length encoded
        in if DnsDomainLength (Some domain) \<noteq> domain_length
           then (Dns_kInvalidDomain, empty_dns_request)
           else (Dns_kSuccess,
                 \<lparr>dq_sequence = expected_sequence, dq_process = process_id, dq_domain = domain,
                  dq_port = port, dq_family = family\<rparr>))"

definition ValidDnsAddress :: "DnsProxyAddress \<Rightarrow> bool" where
  "ValidDnsAddress address =
     (if (da_family address \<noteq> DnsProxyAddressFamily_kIpv4 \<and>
          da_family address \<noteq> DnsProxyAddressFamily_kIpv6) \<or> da_ttl address = 0
      then False
      else \<not> (da_family address = DnsProxyAddressFamily_kIpv4 \<and>
              \<not> all_zero (drop 4 (da_address address))))"

definition WriteRecord :: "DnsProxyAddress list \<Rightarrow> nat \<Rightarrow> bytes \<Rightarrow> bytes" where
  "WriteRecord addresses index encoded =
     (let address = addresses ! index;
          offset = 72 + index * 21;
          encoded = encoded[offset := da_family address];
          encoded = WriteU32 encoded (offset + 1) (da_ttl address)
      in put_bytes encoded (offset + 5) (da_address address))"

definition EncodeDnsProxyResponse ::
  "hmac_fn \<Rightarrow> DnsProxySession \<Rightarrow> u64 \<Rightarrow> u8 \<Rightarrow> DnsProxyAddress list \<Rightarrow> DnsProxyStatus \<times> bytes" where
  "EncodeDnsProxyResponse hmac session sequence result addresses =
     (if \<not> ValidSession session \<or> sequence = 0 \<or> 3 < result then (Dns_kInvalidArgument, [])
      else if kDnsProxyMaximumAddressRecords < length addresses \<or>
              (result = DnsProxyResult_kSuccess) \<noteq> (addresses \<noteq> [])
      then (Dns_kInvalidArgument, [])
      else if \<not> list_all ValidDnsAddress addresses then (Dns_kInvalidArgument, [])
      else let frame_length = 72 + length addresses * 21;
               encoded = zeros frame_length;
               encoded = WriteHeader kDnsMagic session kResponseKind sequence encoded;
               encoded = encoded[68 := result];
               encoded = encoded[69 := of_nat (length addresses)];
               encoded = fold (WriteRecord addresses) [0..<length addresses] encoded
           in (case ComputeMac hmac session encoded of
                 None \<Rightarrow> (Dns_kCryptoFailed, [])
               | Some mac \<Rightarrow> (Dns_kSuccess, put_bytes encoded kMacOffset mac)))"

text \<open>The record loop from \<open>index\<close> on; \<open>None\<close> is the early \<open>kInvalidArgument\<close>.\<close>

fun ReadRecords :: "bytes \<Rightarrow> nat \<Rightarrow> nat \<Rightarrow> DnsProxyAddress list option" where
  "ReadRecords encoded index 0 = Some []"
| "ReadRecords encoded index (Suc remaining) =
     (let offset = 72 + index * 21;
          family = encoded ! offset
      in if family \<noteq> 4 \<and> family \<noteq> 6 then None
         else let ttl_seconds = ReadU32 encoded (offset + 1)
         in if ttl_seconds = 0 then None
         else let address = sub_bytes (offset + 5) 16 encoded
         in if family = DnsProxyAddressFamily_kIpv4 \<and> \<not> all_zero (drop 4 address) then None
         else (case ReadRecords encoded (Suc index) remaining of
                 None \<Rightarrow> None
               | Some rest \<Rightarrow>
                   Some (\<lparr>da_family = family, da_address = address, da_ttl = ttl_seconds\<rparr> # rest)))"

definition DecodeDnsProxyResponse ::
  "hmac_fn \<Rightarrow> DnsProxySession \<Rightarrow> byte_ptr \<Rightarrow> u64 \<Rightarrow> DnsProxyStatus \<times> DnsProxyResponse" where
  "DecodeDnsProxyResponse hmac session ptr expected_sequence =
     (if ptr = None \<or> \<not> ValidSession session \<or> expected_sequence = 0
      then (Dns_kInvalidArgument, empty_dns_response)
      else let encoded = the ptr;
               header = DnsValidateHeader hmac session 72 encoded kResponseKind expected_sequence
        in if header \<noteq> Dns_kSuccess then (header, empty_dns_response)
        else let result_value = encoded ! 68;
                 count = unat (encoded ! 69)
        in if 3 < result_value \<or> kDnsProxyMaximumAddressRecords < count \<or>
              72 + count * 21 \<noteq> length encoded \<or> (result_value = 0) \<noteq> (count \<noteq> 0)
        then (Dns_kInvalidArgument, empty_dns_response)
        else (case ReadRecords encoded 0 count of
                None \<Rightarrow> (Dns_kInvalidArgument, empty_dns_response)
              | Some addresses \<Rightarrow>
                  (Dns_kSuccess,
                   \<lparr>dr_sequence = expected_sequence, dr_result = result_value,
                    dr_addresses = addresses\<rparr>)))"

subsection \<open>TCP frames\<close>

datatype TcpProxyStatus =
    Tcp_kSuccess
  | Tcp_kInvalidArgument
  | Tcp_kInvalidLength
  | Tcp_kInvalidMagic
  | Tcp_kUnsupportedVersion
  | Tcp_kUnexpectedKind
  | Tcp_kSessionMismatch
  | Tcp_kAuthenticationFailed
  | Tcp_kUnexpectedSequence
  | Tcp_kInvalidProcess
  | Tcp_kInvalidAddress
  | Tcp_kInvalidPort
  | Tcp_kInvalidDomain
  | Tcp_kAllocationFailed
  | Tcp_kCryptoFailed

abbreviation (input) TcpProxyResult_kConnected :: u8 where "TcpProxyResult_kConnected \<equiv> 0"
abbreviation (input) TcpProxyResult_kDenied :: u8 where "TcpProxyResult_kDenied \<equiv> 1"
abbreviation (input) TcpProxyResult_kConnectFailed :: u8 where "TcpProxyResult_kConnectFailed \<equiv> 2"
abbreviation (input) TcpProxyResult_kFailure :: u8 where "TcpProxyResult_kFailure \<equiv> 3"

record TcpProxyRequest =
  tq_sequence :: u64
  tq_process :: u32
  tq_family :: u8
  tq_address :: bytes
  tq_port :: u16
  tq_domain :: bytes

record TcpProxyResponse =
  tr_sequence :: u64
  tr_result :: u8
  tr_network_error :: u32

definition empty_tcp_request :: TcpProxyRequest where
  "empty_tcp_request =
     \<lparr>tq_sequence = 0, tq_process = 0, tq_family = DnsProxyAddressFamily_kIpv4,
      tq_address = replicate 16 0, tq_port = 0, tq_domain = []\<rparr>"

definition empty_tcp_response :: TcpProxyResponse where
  "empty_tcp_response =
     \<lparr>tr_sequence = 0, tr_result = TcpProxyResult_kFailure, tr_network_error = 0\<rparr>"

text \<open>An absent or empty domain has length 0; \<open>None\<close> is the result \<open>false\<close>.\<close>

definition TcpDomainLength :: "char_ptr \<Rightarrow> nat option" where
  "TcpDomainLength domain =
     (if domain = None \<or> c_str (the domain) = [] then Some 0
      else case domain_scan 0 (the domain) of
          None \<Rightarrow> None
        | Some len \<Rightarrow> if len \<le> kDnsProxyMaximumDomainLength then Some len else None)"

definition ValidAddress :: "u8 \<Rightarrow> bytes \<Rightarrow> bool" where
  "ValidAddress family address =
     (if family = DnsProxyAddressFamily_kIpv6 then True
      else family = DnsProxyAddressFamily_kIpv4 \<and> all_zero (drop 4 address))"

definition TcpValidateHeader ::
  "hmac_fn \<Rightarrow> DnsProxySession \<Rightarrow> bytes \<Rightarrow> u16 \<Rightarrow> u64 \<Rightarrow> TcpProxyStatus" where
  "TcpValidateHeader hmac session encoded expected_kind expected_sequence =
     (if unat (ReadU32 encoded kPayloadLengthOffset) \<noteq> length encoded - kDnsProxyHeaderLength
      then Tcp_kInvalidLength
      else if \<not> HasMagic kTcpMagic encoded then Tcp_kInvalidMagic
      else if ReadU16 encoded kVersionOffset \<noteq> kProtocolVersion then Tcp_kUnsupportedVersion
      else if ReadU16 encoded kKindOffset \<noteq> expected_kind then Tcp_kUnexpectedKind
      else if \<not> ConstantTimeEqual (drop kNonceOffset encoded) (ps_nonce session)
                   (length (ps_nonce session))
      then Tcp_kSessionMismatch
      else (case ComputeMac hmac session encoded of
              None \<Rightarrow> Tcp_kCryptoFailed
            | Some expected_mac \<Rightarrow>
                if \<not> ConstantTimeEqual (drop kMacOffset encoded) expected_mac (length expected_mac)
                then Tcp_kAuthenticationFailed
                else if ReadU64 encoded kSequenceOffset \<noteq> expected_sequence
                then Tcp_kUnexpectedSequence
                else Tcp_kSuccess))"

definition ValidResponseFields :: "u8 \<Rightarrow> u32 \<Rightarrow> bool" where
  "ValidResponseFields result network_error =
     (result \<le> TcpProxyResult_kFailure \<and>
      (result = TcpProxyResult_kConnectFailed) = (network_error \<noteq> 0))"

definition TcpProxyRequestFrameLength :: "char_ptr \<Rightarrow> nat" where
  "TcpProxyRequestFrameLength ascii_domain =
     (case TcpDomainLength ascii_domain of None \<Rightarrow> 0 | Some domain_length \<Rightarrow> 96 + domain_length)"

definition EncodeTcpProxyRequest ::
  "hmac_fn \<Rightarrow> DnsProxySession \<Rightarrow> u64 \<Rightarrow> u32 \<Rightarrow> u8 \<Rightarrow> bytes \<Rightarrow> u16 \<Rightarrow> char_ptr \<Rightarrow>
     TcpProxyStatus \<times> bytes" where
  "EncodeTcpProxyRequest hmac session sequence process_id family address port ascii_domain =
     (if \<not> ValidSession session \<or> sequence = 0 then (Tcp_kInvalidArgument, [])
      else if process_id = 0 then (Tcp_kInvalidProcess, [])
      else if \<not> ValidAddress family address then (Tcp_kInvalidAddress, [])
      else if port = 0 then (Tcp_kInvalidPort, [])
      else (case TcpDomainLength ascii_domain of
              None \<Rightarrow> (Tcp_kInvalidDomain, [])
            | Some domain_length \<Rightarrow>
                let encoded = zeros (96 + domain_length);
                    encoded = WriteHeader kTcpMagic session kRequestKind sequence encoded;
                    encoded = WriteU32 encoded 68 process_id;
                    encoded = WriteU16 encoded 72 port;
                    encoded = encoded[74 := family];
                    encoded = WriteU16 encoded 76 (of_nat domain_length);
                    encoded = put_bytes encoded 80 address;
                    encoded = (if domain_length \<noteq> 0
                               then put_bytes encoded 96 (take domain_length (the ascii_domain))
                               else encoded)
                in (case ComputeMac hmac session encoded of
                      None \<Rightarrow> (Tcp_kCryptoFailed, [])
                    | Some mac \<Rightarrow> (Tcp_kSuccess, put_bytes encoded kMacOffset mac))))"

definition DecodeTcpProxyRequest ::
  "hmac_fn \<Rightarrow> DnsProxySession \<Rightarrow> byte_ptr \<Rightarrow> u64 \<Rightarrow> TcpProxyStatus \<times> TcpProxyRequest" where
  "DecodeTcpProxyRequest hmac session ptr expected_sequence =
     (if ptr = None \<or> \<not> ValidSession session \<or> expected_sequence = 0
      then (Tcp_kInvalidArgument, empty_tcp_request)
      else let encoded = the ptr
        in if length encoded < 96 \<or> 96 + kDnsProxyMaximumDomainLength < length encoded
        then (Tcp_kInvalidLength, empty_tcp_request)
        else let header = TcpValidateHeader hmac session encoded kRequestKind expected_sequence
        in if header \<noteq> Tcp_kSuccess then (header, empty_tcp_request)
        else if encoded ! 75 \<noteq> 0 \<or> ReadU16 encoded 78 \<noteq> 0
        then (Tcp_kInvalidArgument, empty_tcp_request)
        else let process_id = ReadU32 encoded 68
        in if process_id = 0 then (Tcp_kInvalidProcess, empty_tcp_request)
        else let port = ReadU16 encoded 72
        in if port = 0 then (Tcp_kInvalidPort, empty_tcp_request)
        else let family = encoded ! 74;
                 address = sub_bytes 80 16 encoded
        in if \<not> ValidAddress family address then (Tcp_kInvalidAddress, empty_tcp_request)
        else let domain_length = unat (ReadU16 encoded 76)
        in if kDnsProxyMaximumDomainLength < domain_length \<or> 96 + domain_length \<noteq> length encoded
        then (Tcp_kInvalidDomain, empty_tcp_request)
        else let domain = (if domain_length \<noteq> 0 then sub_bytes 96 domain_length encoded else [])
        in if domain_length \<noteq> 0 \<and> TcpDomainLength (Some domain) \<noteq> Some domain_length
           then (Tcp_kInvalidDomain, empty_tcp_request)
           else (Tcp_kSuccess,
                 \<lparr>tq_sequence = expected_sequence, tq_process = process_id, tq_family = family,
                  tq_address = address, tq_port = port, tq_domain = domain\<rparr>))"

definition EncodeTcpProxyResponse ::
  "hmac_fn \<Rightarrow> DnsProxySession \<Rightarrow> u64 \<Rightarrow> u8 \<Rightarrow> u32 \<Rightarrow> TcpProxyStatus \<times> bytes" where
  "EncodeTcpProxyResponse hmac session sequence result network_error =
     (if \<not> ValidSession session \<or> sequence = 0 \<or> \<not> ValidResponseFields result network_error
      then (Tcp_kInvalidArgument, [])
      else let encoded = zeros 76;
               encoded = WriteHeader kTcpMagic session kResponseKind sequence encoded;
               encoded = encoded[68 := result];
               encoded = WriteU32 encoded 72 network_error
           in (case ComputeMac hmac session encoded of
                 None \<Rightarrow> (Tcp_kCryptoFailed, [])
               | Some mac \<Rightarrow> (Tcp_kSuccess, put_bytes encoded kMacOffset mac)))"

definition DecodeTcpProxyResponse ::
  "hmac_fn \<Rightarrow> DnsProxySession \<Rightarrow> byte_ptr \<Rightarrow> u64 \<Rightarrow> TcpProxyStatus \<times> TcpProxyResponse" where
  "DecodeTcpProxyResponse hmac session ptr expected_sequence =
     (if ptr = None \<or> \<not> ValidSession session \<or> expected_sequence = 0
      then (Tcp_kInvalidArgument, empty_tcp_response)
      else let encoded = the ptr
        in if length encoded \<noteq> 76 then (Tcp_kInvalidLength, empty_tcp_response)
        else let header = TcpValidateHeader hmac session encoded kResponseKind expected_sequence
        in if header \<noteq> Tcp_kSuccess then (header, empty_tcp_response)
        else if encoded ! 69 \<noteq> 0 \<or> encoded ! 70 \<noteq> 0 \<or> encoded ! 71 \<noteq> 0
        then (Tcp_kInvalidArgument, empty_tcp_response)
        else let result = encoded ! 68;
                 network_error = ReadU32 encoded 72
        in if \<not> ValidResponseFields result network_error
           then (Tcp_kInvalidArgument, empty_tcp_response)
           else (Tcp_kSuccess,
                 \<lparr>tr_sequence = expected_sequence, tr_result = result,
                  tr_network_error = network_error\<rparr>))"

subsection \<open>Specification\<close>

definition wf_session :: "DnsProxySession \<Rightarrow> bool" where
  "wf_session session = (length (ps_nonce session) = 16 \<and> length (ps_key session) = 32)"

definition auth_head :: "bytes \<Rightarrow> DnsProxySession \<Rightarrow> u16 \<Rightarrow> u64 \<Rightarrow> nat \<Rightarrow> bytes" where
  "auth_head magic session kind sequence n =
     magic @ le_bytes 2 kProtocolVersion @ le_bytes 2 kind @ le_bytes 4 (of_nat n :: u32) @
     le_bytes 8 sequence @ ps_nonce session"

definition session_mac :: "hmac_fn \<Rightarrow> DnsProxySession \<Rightarrow> bytes \<Rightarrow> bytes option" where
  "session_mac hmac session message =
     (case hmac (ps_key session) message of
        None \<Rightarrow> None | Some mac \<Rightarrow> if length mac = 32 then Some mac else None)"

text \<open>The frame with a given payload, if its MAC can be computed.\<close>

definition auth_frame ::
  "hmac_fn \<Rightarrow> bytes \<Rightarrow> DnsProxySession \<Rightarrow> u16 \<Rightarrow> u64 \<Rightarrow> bytes \<Rightarrow> bytes option" where
  "auth_frame hmac magic session kind sequence payload =
     (let head = auth_head magic session kind sequence (length payload)
      in map_option (\<lambda>mac. head @ mac @ payload) (session_mac hmac session (head @ payload)))"

definition dns_request_payload :: "DnsProxyRequest \<Rightarrow> u8 \<Rightarrow> bytes" where
  "dns_request_payload r reserved =
     le_bytes 4 (dq_process r) @ le_bytes 2 (dq_port r) @ [dq_family r, reserved] @
     le_bytes 2 (of_nat (length (dq_domain r)) :: u16) @ dq_domain r"

definition wf_dns_request :: "DnsProxyRequest \<Rightarrow> bool" where
  "wf_dns_request r =
     (dq_sequence r \<noteq> 0 \<and> dq_process r \<noteq> 0 \<and> dq_family r \<in> {0, 4, 6} \<and> domain_ok (dq_domain r))"

definition ser_record :: "DnsProxyAddress \<Rightarrow> bytes" where
  "ser_record a = [da_family a] @ le_bytes 4 (da_ttl a) @ da_address a"

definition wf_dns_address :: "DnsProxyAddress \<Rightarrow> bool" where
  "wf_dns_address a = (length (da_address a) = 16 \<and> ValidDnsAddress a)"

definition dns_response_payload :: "DnsProxyResponse \<Rightarrow> u8 \<Rightarrow> u8 \<Rightarrow> bytes" where
  "dns_response_payload r x y =
     [dr_result r, of_nat (length (dr_addresses r)), x, y] @ concat (map ser_record (dr_addresses r))"

definition wf_dns_response :: "DnsProxyResponse \<Rightarrow> bool" where
  "wf_dns_response r =
     (dr_sequence r \<noteq> 0 \<and> dr_result r \<le> 3 \<and> length (dr_addresses r) \<le> 16 \<and>
      (dr_result r = 0) = (dr_addresses r \<noteq> []) \<and> list_all wf_dns_address (dr_addresses r))"

definition tcp_request_payload :: "TcpProxyRequest \<Rightarrow> bytes" where
  "tcp_request_payload r =
     le_bytes 4 (tq_process r) @ le_bytes 2 (tq_port r) @ [tq_family r, 0] @
     le_bytes 2 (of_nat (length (tq_domain r)) :: u16) @ [0, 0] @ tq_address r @ tq_domain r"

definition wf_tcp_request :: "TcpProxyRequest \<Rightarrow> bool" where
  "wf_tcp_request r =
     (tq_sequence r \<noteq> 0 \<and> tq_process r \<noteq> 0 \<and> tq_port r \<noteq> 0 \<and> length (tq_address r) = 16 \<and>
      ValidAddress (tq_family r) (tq_address r) \<and> (tq_domain r = [] \<or> domain_ok (tq_domain r)))"

definition tcp_response_payload :: "TcpProxyResponse \<Rightarrow> bytes" where
  "tcp_response_payload r = [tr_result r, 0, 0, 0] @ le_bytes 4 (tr_network_error r)"

definition wf_tcp_response :: "TcpProxyResponse \<Rightarrow> bool" where
  "wf_tcp_response r = (tr_sequence r \<noteq> 0 \<and> ValidResponseFields (tr_result r) (tr_network_error r))"

text \<open>The decoders, for statements about all of them.\<close>

datatype proxy_frame = Dns_Request | Dns_Response | Tcp_Request | Tcp_Response

definition accepts :: "hmac_fn \<Rightarrow> proxy_frame \<Rightarrow> DnsProxySession \<Rightarrow> u64 \<Rightarrow> bytes \<Rightarrow> bool" where
  "accepts hmac c s q f =
     (case c of
        Dns_Request \<Rightarrow> fst (DecodeDnsProxyRequest hmac s (Some f) q) = Dns_kSuccess
      | Dns_Response \<Rightarrow> fst (DecodeDnsProxyResponse hmac s (Some f) q) = Dns_kSuccess
      | Tcp_Request \<Rightarrow> fst (DecodeTcpProxyRequest hmac s (Some f) q) = Tcp_kSuccess
      | Tcp_Response \<Rightarrow> fst (DecodeTcpProxyResponse hmac s (Some f) q) = Tcp_kSuccess)"

definition frame_magic :: "proxy_frame \<Rightarrow> bytes" where
  "frame_magic c = (if c = Dns_Request \<or> c = Dns_Response then kDnsMagic else kTcpMagic)"

definition frame_kind :: "proxy_frame \<Rightarrow> u16" where
  "frame_kind c = (if c = Dns_Request \<or> c = Tcp_Request then 1 else 2)"

definition sample_session :: DnsProxySession where
  "sample_session = \<lparr>ps_nonce = replicate 16 1, ps_key = replicate 32 2\<rparr>"

definition sample_hmac :: hmac_fn where
  "sample_hmac key message = Some (take 32 (message @ key))"

section \<open>The common header\<close>

lemma length_magics [simp, layout_simps]: "length kDnsMagic = 4" "length kTcpMagic = 4"
  by (simp_all add: kDnsMagic_def kTcpMagic_def)

lemma kDnsMagic_neq_kTcpMagic: "kDnsMagic \<noteq> kTcpMagic"
  by (simp add: kDnsMagic_def kTcpMagic_def ascii_def)

lemma length_auth_head [layout_simps]:
  "length magic = 4 \<Longrightarrow> wf_session s \<Longrightarrow> length (auth_head magic s k q n) = 36"
  by (simp add: auth_head_def wf_session_def)

lemma length_session_mac: "session_mac hmac s m = Some mac \<Longrightarrow> length mac = 32"
  by (auto simp: session_mac_def split: option.splits if_splits)

lemma ComputeMac_eq: "ComputeMac hmac s f = session_mac hmac s (take 36 f @ drop 68 f)"
  by (simp add: ComputeMac_def session_mac_def)

lemma length_auth_frame:
  "auth_frame hmac magic s k q p = Some f \<Longrightarrow> length magic = 4 \<Longrightarrow> wf_session s \<Longrightarrow>
   length f = 68 + length p"
  by (auto simp: auth_frame_def Let_def length_auth_head dest: length_session_mac)

lemma drop_auth_frame:
  "auth_frame hmac magic s k q p = Some f \<Longrightarrow> length magic = 4 \<Longrightarrow> wf_session s \<Longrightarrow> drop 68 f = p"
  by (auto simp: auth_frame_def Let_def length_auth_head dest: length_session_mac)

lemma auth_head_split:
  "take 36 f = sub_bytes 0 4 f @ sub_bytes 4 2 f @ sub_bytes 6 2 f @ sub_bytes 8 4 f @
     sub_bytes 12 8 f @ sub_bytes 20 16 f"
  using sub_bytes_split [of 4 36 0 f] sub_bytes_split [of 2 32 4 f] sub_bytes_split [of 2 30 6 f]
    sub_bytes_split [of 4 28 8 f] sub_bytes_split [of 8 24 12 f]
  by (simp add: sub_bytes_0)

lemma auth_head_iff:
  assumes "36 \<le> length f" "length magic = 4" "wf_session s"
  shows "take 36 f = auth_head magic s k q n \<longleftrightarrow>
    HasMagic magic f \<and> ReadU16 f 4 = 1 \<and> ReadU16 f 6 = k \<and> ReadU32 f 8 = of_nat n \<and>
    ReadU64 f 12 = q \<and> sub_bytes 20 16 f = ps_nonce s"
  unfolding auth_head_split auth_head_def HasMagic_sub_bytes
  using assms
  by (simp add: length_sub_bytes f16.read_eq_iff f32.read_eq_iff f64.read_eq_iff wf_session_def)

text \<open>What a byte string of at least a header's length must satisfy to be an authenticated frame.\<close>

lemma auth_frame_iff:
  assumes len: "68 \<le> length f" and wf: "length magic = 4" "wf_session s"
  shows "auth_frame hmac magic s k q (drop 68 f) = Some f \<longleftrightarrow>
    ReadU32 f 8 = of_nat (length f - 68) \<and> HasMagic magic f \<and> ReadU16 f 4 = 1 \<and> ReadU16 f 6 = k \<and>
    sub_bytes 20 16 f = ps_nonce s \<and> ReadU64 f 12 = q \<and>
    ComputeMac hmac s f = Some (sub_bytes 36 32 f)"
proof -
  let ?h = "auth_head magic s k q (length f - 68)"
  have f: "f = take 36 f @ sub_bytes 36 32 f @ drop 68 f"
    using append_take_drop_id [of 36 f] append_take_drop_id [of 32 "drop 36 f"]
    by (simp add: sub_bytes_def)
  have "auth_frame hmac magic s k q (drop 68 f) = Some f \<longleftrightarrow>
      (\<exists>mac. session_mac hmac s (?h @ drop 68 f) = Some mac \<and> ?h @ mac @ drop 68 f = f)"
    by (simp add: auth_frame_def Let_def)
  also have "\<dots> \<longleftrightarrow> (\<exists>mac. session_mac hmac s (?h @ drop 68 f) = Some mac \<and>
      ?h = take 36 f \<and> mac = sub_bytes 36 32 f)"
  proof -
    have "?h @ mac @ drop 68 f = f \<longleftrightarrow> ?h = take 36 f \<and> mac = sub_bytes 36 32 f"
      if "length mac = 32" for mac
      using that len wf by (subst (2) f) (simp add: length_auth_head length_sub_bytes)
    then show ?thesis using length_session_mac by blast
  qed
  also have "\<dots> \<longleftrightarrow> take 36 f = ?h \<and> ComputeMac hmac s f = Some (sub_bytes 36 32 f)"
    by (auto simp: ComputeMac_eq)
  finally show ?thesis using len wf by (auto simp: auth_head_iff)
qed

lemma nonce_check:
  "68 \<le> length f \<Longrightarrow> wf_session s \<Longrightarrow>
   ConstantTimeEqual (drop 20 f) (ps_nonce s) (length (ps_nonce s)) \<longleftrightarrow> sub_bytes 20 16 f = ps_nonce s"
  by (simp add: ConstantTimeEqual_iff wf_session_def sub_bytes_def)

lemma mac_check:
  assumes "68 \<le> length f" "ComputeMac hmac s f = Some mac"
  shows "ConstantTimeEqual (drop 36 f) mac (length mac) \<longleftrightarrow> mac = sub_bytes 36 32 f"
proof -
  have "length mac = 32" using assms(2) by (simp add: ComputeMac_eq length_session_mac)
  then show ?thesis using assms(1) by (auto simp: ConstantTimeEqual_iff sub_bytes_def)
qed

text \<open>
  The contract of a header check: on a byte string with a full header it succeeds exactly
  if the fields are those of the expected kind, sequence and session and the MAC matches.
\<close>

locale authenticated_header =
  fixes check :: "hmac_fn \<Rightarrow> DnsProxySession \<Rightarrow> bytes \<Rightarrow> u16 \<Rightarrow> u64 \<Rightarrow> 'status"
    and ok :: 'status
    and magic :: bytes
    and minimum :: nat
  assumes magic_length: "length magic = 4"
    and minimum_length: "68 \<le> minimum"
    and check_fields: "wf_session s \<Longrightarrow> minimum \<le> length f \<Longrightarrow> check hmac s f k q = ok \<longleftrightarrow>
      unat (ReadU32 f 8) = length f - 68 \<and> HasMagic magic f \<and> ReadU16 f 4 = 1 \<and> ReadU16 f 6 = k \<and>
      sub_bytes 20 16 f = ps_nonce s \<and> ComputeMac hmac s f = Some (sub_bytes 36 32 f) \<and>
      ReadU64 f 12 = q"
begin

lemma check_frame:
  assumes "wf_session s" "minimum \<le> length f"
  shows "check hmac s f k q = ok \<longleftrightarrow>
    length f - 68 < 2 ^ 32 \<and> auth_frame hmac magic s k q (drop 68 f) = Some f"
proof -
  have "68 \<le> length f" using assms(2) minimum_length by simp
  then show ?thesis
    using assms by (auto simp: check_fields auth_frame_iff magic_length unat_eq_of_nat_iff)
qed

lemma check_iff:
  assumes "wf_session s"
  shows "minimum \<le> length f \<and> check hmac s f k q = ok \<longleftrightarrow>
    (\<exists>p. minimum \<le> 68 + length p \<and> length p < 2 ^ 32 \<and> auth_frame hmac magic s k q p = Some f)"
proof
  assume *: "minimum \<le> length f \<and> check hmac s f k q = ok"
  then have "length f - 68 < 2 ^ 32 \<and> auth_frame hmac magic s k q (drop 68 f) = Some f"
    using assms check_frame by blast
  then show "\<exists>p. minimum \<le> 68 + length p \<and> length p < 2 ^ 32 \<and> auth_frame hmac magic s k q p = Some f"
    using * by (intro exI [of _ "drop 68 f"]) auto
next
  assume "\<exists>p. minimum \<le> 68 + length p \<and> length p < 2 ^ 32 \<and> auth_frame hmac magic s k q p = Some f"
  then obtain p where p: "minimum \<le> 68 + length p" "length p < 2 ^ 32"
    "auth_frame hmac magic s k q p = Some f" by blast
  then have "length f = 68 + length p" "drop 68 f = p"
    using assms by (simp_all add: length_auth_frame drop_auth_frame magic_length)
  then show "minimum \<le> length f \<and> check hmac s f k q = ok"
    using p assms by (simp add: check_frame)
qed

lemma check_payload:
  assumes "wf_session s" "minimum \<le> 68 + length p" "length p < 2 ^ 32"
  shows "minimum \<le> length f \<and> check hmac s f k q = ok \<and> drop 68 f = p \<longleftrightarrow>
    auth_frame hmac magic s k q p = Some f"
  using assms check_iff [OF assms(1)] drop_auth_frame [OF _ magic_length assms(1)] by blast

text \<open>An accepted frame fixes the kind, the sequence and the nonce it is accepted for.\<close>

lemma check_unique:
  assumes "wf_session s" "wf_session s'" "minimum \<le> length f"
    and "check hmac s f k q = ok" "check hmac s' f k' q' = ok"
  shows "k = k' \<and> q = q' \<and> ps_nonce s = ps_nonce s'"
  using assms by (auto simp: check_fields)

end

lemma DnsValidateHeader_fields:
  assumes "wf_session s" "m \<le> length f" "68 \<le> m"
  shows "DnsValidateHeader hmac s m f k q = Dns_kSuccess \<longleftrightarrow>
    unat (ReadU32 f 8) = length f - 68 \<and> HasMagic kDnsMagic f \<and> ReadU16 f 4 = 1 \<and> ReadU16 f 6 = k \<and>
    sub_bytes 20 16 f = ps_nonce s \<and> ComputeMac hmac s f = Some (sub_bytes 36 32 f) \<and> ReadU64 f 12 = q"
proof -
  have len: "68 \<le> length f" using assms by simp
  show ?thesis
    using assms len
    by (cases "ComputeMac hmac s f")
      (auto simp: DnsValidateHeader_def nonce_check mac_check)
qed

lemma TcpValidateHeader_fields:
  assumes "wf_session s" "m \<le> length f" "68 \<le> m"
  shows "TcpValidateHeader hmac s f k q = Tcp_kSuccess \<longleftrightarrow>
    unat (ReadU32 f 8) = length f - 68 \<and> HasMagic kTcpMagic f \<and> ReadU16 f 4 = 1 \<and> ReadU16 f 6 = k \<and>
    sub_bytes 20 16 f = ps_nonce s \<and> ComputeMac hmac s f = Some (sub_bytes 36 32 f) \<and> ReadU64 f 12 = q"
proof -
  have len: "68 \<le> length f" using assms by simp
  show ?thesis
    using assms len
    by (cases "ComputeMac hmac s f")
      (auto simp: TcpValidateHeader_def nonce_check mac_check)
qed

interpretation dns_request_header:
  authenticated_header "\<lambda>hmac s. DnsValidateHeader hmac s 78" Dns_kSuccess kDnsMagic 78
  by unfold_locales (simp_all add: DnsValidateHeader_fields)

interpretation dns_response_header:
  authenticated_header "\<lambda>hmac s. DnsValidateHeader hmac s 72" Dns_kSuccess kDnsMagic 72
  by unfold_locales (simp_all add: DnsValidateHeader_fields)

interpretation tcp_header: authenticated_header TcpValidateHeader Tcp_kSuccess kTcpMagic 68
  by unfold_locales (simp_all add: TcpValidateHeader_fields [where m = 68])

section \<open>What the encoders write\<close>

lemma WriteHeader_eq:
  assumes "length magic = 4" "wf_session s" "m = 68 + n"
  shows "WriteHeader magic s k q (zeros m) = (auth_head magic s k q n @ zeros 32) @ zeros n"
proof -
  have zero: "zeros m = [] @ zeros m @ []" by simp
  have split: "zeros (32 + n) = zeros 32 @ zeros n" by (rule zeros_add)
  show ?thesis
    unfolding WriteHeader_def Let_def field_writes
    apply (subst zero)
    using assms
    by (simp add: put_bytes_next split auth_head_def wf_session_def del: append_assoc append_Nil append_Nil2 append_Cons)
      (simp add: split)
qed

lemma seal_frame:
  assumes "length magic = 4" "wf_session s" "m = 68 + length p"
    and "W ((auth_head magic s k q (length p) @ zeros 32) @ zeros (length p)) =
         (auth_head magic s k q (length p) @ zeros 32) @ p"
  shows "(case ComputeMac hmac s (W (WriteHeader magic s k q (zeros m))) of
            None \<Rightarrow> (err, []) | Some mac \<Rightarrow> (suc, put_bytes (W (WriteHeader magic s k q (zeros m))) 36 mac)) =
         (case auth_frame hmac magic s k q p of None \<Rightarrow> (err, []) | Some f \<Rightarrow> (suc, f))"
proof -
  let ?h = "auth_head magic s k q (length p)"
  have h: "length ?h = 36" using assms(1,2) by (simp add: length_auth_head)
  have w: "W (WriteHeader magic s k q (zeros m)) = ?h @ zeros 32 @ p"
    using assms by (simp add: WriteHeader_eq)
  have c: "ComputeMac hmac s (?h @ zeros 32 @ p) = session_mac hmac s (?h @ p)"
    by (simp add: ComputeMac_eq h)
  have "put_bytes (?h @ zeros 32 @ p) 36 mac = ?h @ mac @ p"
    if "session_mac hmac s (?h @ p) = Some mac" for mac
    using put_bytes_next [of ?h 36 mac 32 p] h length_session_mac [OF that] by simp
  then show ?thesis
    unfolding w c auth_frame_def Let_def
    by (cases "session_mac hmac s (?h @ p)") simp_all
qed

lemma DnsDomainLength_eq:
  "DnsDomainLength d = (case d of None \<Rightarrow> 0 | Some d \<Rightarrow> if domain_ok (c_str d) then length (c_str d) else 0)"
  by (auto simp: DnsDomainLength_def domain_scan_eq domain_ok_def split: option.split)

lemma TcpDomainLength_eq:
  "TcpDomainLength d = (case d of None \<Rightarrow> Some 0
     | Some d \<Rightarrow> if c_str d = [] \<or> domain_ok (c_str d) then Some (length (c_str d)) else None)"
  by (auto simp: TcpDomainLength_def domain_scan_eq domain_ok_def split: option.split)

lemma domain_okD: "domain_ok d \<Longrightarrow> d \<noteq> [] \<and> length d \<le> 253 \<and> 0 \<notin> set d"
  by (auto simp: domain_ok_def list_all_iff)

lemma tcp_response_fill:
  assumes "length a = 68"
  shows "WriteU32 ((a @ zeros 8)[68 := res]) 72 err = a @ [res, 0, 0, 0] @ le_bytes 4 err"
  using assms
  by (simp add: field_writes fill_byte fill_gap [of 3] del: append_assoc) (simp add: zeros_numeral)

lemma EncodeTcpProxyResponse_eq:
  assumes "wf_session s" "r = \<lparr>tr_sequence = q, tr_result = res, tr_network_error = err\<rparr>"
  shows "EncodeTcpProxyResponse hmac s q res err =
    (if ValidSession s \<and> wf_tcp_response r then
       case auth_frame hmac kTcpMagic s 2 q (tcp_response_payload r) of
         None \<Rightarrow> (Tcp_kCryptoFailed, []) | Some f \<Rightarrow> (Tcp_kSuccess, f)
     else (Tcp_kInvalidArgument, []))"
  using seal_frame [where W = "\<lambda>e. WriteU32 (e[68 := res]) 72 err" and m = 76 and hmac = hmac
      and err = Tcp_kCryptoFailed and suc = Tcp_kSuccess and magic = kTcpMagic and k = 2 and q = q
      and s = s and p = "tcp_response_payload r"] assms
  by (simp add: EncodeTcpProxyResponse_def Let_def wf_tcp_response_def tcp_response_payload_def
      tcp_response_fill length_auth_head del: append_assoc)

lemma tcp_request_fill:
  assumes "length a = 68" "length addr = 16"
  shows "put_bytes (put_bytes (WriteU16 ((WriteU16 (WriteU32 (a @ zeros (28 + length d)) 68 pid) 72 port)[74 := fam])
      76 dl) 80 addr) 96 d =
    a @ le_bytes 4 pid @ le_bytes 2 port @ [fam, 0] @ le_bytes 2 dl @ [0, 0] @ addr @ d"
  using assms
  by (simp add: field_writes fill_next fill_byte fill_gap [of 1] fill_gap [of 2] del: append_assoc)
    (simp add: zeros_numeral)

lemma EncodeTcpProxyRequest_eq:
  assumes "wf_session s" "length addr = 16"
    and "r = \<lparr>tq_sequence = q, tq_process = pid, tq_family = fam, tq_address = addr, tq_port = port,
              tq_domain = (case d of None \<Rightarrow> [] | Some d \<Rightarrow> c_str d)\<rparr>"
  shows "EncodeTcpProxyRequest hmac s q pid fam addr port d =
    (if ValidSession s \<and> wf_tcp_request r then
       case auth_frame hmac kTcpMagic s 1 q (tcp_request_payload r) of
         None \<Rightarrow> (Tcp_kCryptoFailed, []) | Some f \<Rightarrow> (Tcp_kSuccess, f)
     else (if \<not> ValidSession s \<or> q = 0 then Tcp_kInvalidArgument
           else if pid = 0 then Tcp_kInvalidProcess
           else if \<not> ValidAddress fam addr then Tcp_kInvalidAddress
           else if port = 0 then Tcp_kInvalidPort
           else Tcp_kInvalidDomain, []))"
proof -
  define name where "name = (case d of None \<Rightarrow> [] | Some d \<Rightarrow> c_str d)"
  have dl: "TcpDomainLength d = (if name = [] \<or> domain_ok name then Some (length name) else None)"
    by (auto simp: TcpDomainLength_eq name_def split: option.split)
  have nm: "(if length name \<noteq> 0 then put_bytes e 96 (take (length name) (the d)) else e) = put_bytes e 96 name" for e
    by (auto simp: name_def take_c_str split: option.split)
  have p: "tcp_request_payload r = le_bytes 4 pid @ le_bytes 2 port @ [fam, 0] @ le_bytes 2 (of_nat (length name) :: u16) @
      [0, 0] @ addr @ name"
    by (simp add: assms(3) tcp_request_payload_def name_def)
  note seal = seal_frame [where W = "\<lambda>e. put_bytes (put_bytes (WriteU16 ((WriteU16 (WriteU32 e 68 pid) 72 port)[74 := fam])
        76 (of_nat (length name))) 80 addr) 96 name" and m = "96 + length name" and magic = kTcpMagic
      and p = "tcp_request_payload r", unfolded p, OF _ assms(1)]
  show ?thesis
  proof (cases "name = [] \<or> domain_ok name")
    case True
    then have dl': "TcpDomainLength d = Some (length name)" by (simp add: dl)
    show ?thesis
      unfolding EncodeTcpProxyRequest_def Let_def dl' option.case nm p
      using True assms(2) by (subst seal) (auto simp: tcp_request_fill length_auth_head [OF _ assms(1)]
          wf_tcp_request_def assms(3) name_def [symmetric] simp del: append_assoc)
  next
    case False
    then show ?thesis
      by (simp add: EncodeTcpProxyRequest_def dl wf_tcp_request_def assms(3) name_def [symmetric])
  qed
qed

lemma dns_request_fill:
  assumes "length a = 68"
  shows "put_bytes (WriteU16 ((WriteU16 (WriteU32 (a @ zeros (10 + length d)) 68 pid) 72 port)[74 := fam]) 76 dl) 78 d =
    a @ le_bytes 4 pid @ le_bytes 2 port @ [fam, 0] @ le_bytes 2 dl @ d"
  using assms
  by (simp add: field_writes fill_next fill_byte fill_gap [of 1] del: append_assoc) (simp add: zeros_numeral)

lemma EncodeDnsProxyRequest_eq:
  assumes "wf_session s"
    and "r = \<lparr>dq_sequence = q, dq_process = pid, dq_domain = (case d of None \<Rightarrow> [] | Some d \<Rightarrow> c_str d),
              dq_port = port, dq_family = fam\<rparr>"
  shows "EncodeDnsProxyRequest hmac s q pid d port fam =
    (if ValidSession s \<and> wf_dns_request r then
       case auth_frame hmac kDnsMagic s 1 q (dns_request_payload r 0) of
         None \<Rightarrow> (Dns_kCryptoFailed, []) | Some f \<Rightarrow> (Dns_kSuccess, f)
     else (if \<not> ValidSession s \<or> q = 0 then Dns_kInvalidArgument
           else if pid = 0 then Dns_kInvalidProcess
           else if \<not> domain_ok (dq_domain r) then Dns_kInvalidDomain
           else Dns_kInvalidArgument, []))"
proof -
  define name where "name = (case d of None \<Rightarrow> [] | Some d \<Rightarrow> c_str d)"
  have fl: "DnsProxyRequestFrameLength d = (if domain_ok name then 78 + length name else 0)"
    by (auto simp: DnsProxyRequestFrameLength_def DnsDomainLength_eq name_def Let_def dest: domain_okD
        split: option.split)
  have p: "dns_request_payload r 0 = le_bytes 4 pid @ le_bytes 2 port @ [fam, 0] @
      le_bytes 2 (of_nat (length name) :: u16) @ name"
    by (simp add: assms(2) dns_request_payload_def name_def)
  note seal = seal_frame [where W = "\<lambda>e. put_bytes (WriteU16 ((WriteU16 (WriteU32 e 68 pid) 72 port)[74 := fam])
        76 (of_nat (length name))) 78 name" and m = "78 + length name" and magic = kDnsMagic
      and p = "dns_request_payload r 0", unfolded p, OF _ assms(1)]
  show ?thesis
  proof (cases "domain_ok name")
    case True
    then have nm: "take (length name) (the d) = name" and fl': "DnsProxyRequestFrameLength d = 78 + length name"
      by (auto simp: fl) (auto simp: name_def take_c_str domain_ok_def split: option.splits)
    show ?thesis
      unfolding EncodeDnsProxyRequest_def Let_def fl' diff_add_inverse nm p
      by (subst seal) (auto simp: dns_request_fill length_auth_head [OF _ assms(1)] True
          wf_dns_request_def assms(2) name_def [symmetric] simp del: append_assoc)
  next
    case False
    then show ?thesis
      by (simp add: EncodeDnsProxyRequest_def fl wf_dns_request_def assms(2) name_def [symmetric])
  qed
qed

lemma length_ser_record: "length (da_address a) = 16 \<Longrightarrow> length (ser_record a) = 21"
  by (simp add: ser_record_def)

lemma length_ser_records:
  "list_all (\<lambda>a. length (da_address a) = 16) as \<Longrightarrow> length (concat (map ser_record as)) = length as * 21"
  by (induction as) (simp_all add: length_ser_record)

lemma WriteRecord_fill:
  assumes "i < length as" "length (da_address (as ! i)) = 16" "length a = 72 + i * 21" "21 \<le> m"
  shows "WriteRecord as i (a @ zeros m) = (a @ ser_record (as ! i)) @ zeros (m - 21)"
  using assms
  by (simp add: WriteRecord_def Let_def ser_record_def field_writes fill_byte fill_next del: append_assoc)

lemma WriteRecords_fill:
  assumes "n \<le> length as" "list_all (\<lambda>a. length (da_address a) = 16) as" "length a = 72"
  shows "fold (WriteRecord as) [0..<n] (a @ zeros (length as * 21)) =
    (a @ concat (map ser_record (take n as))) @ zeros ((length as - n) * 21)"
  using assms(1)
proof (induction n)
  case (Suc n)
  have all: "list_all (\<lambda>a. length (da_address a) = 16) (take n as)"
    using assms(2) by (metis append_take_drop_id list_all_append)
  have "length (da_address (as ! n)) = 16" using assms(2) Suc by (simp add: list_all_length)
  moreover have "21 \<le> (length as - n) * 21" using Suc by simp
  moreover have "(length as - n) * 21 - 21 = (length as - Suc n) * 21" by simp
  ultimately have "WriteRecord as n ((a @ concat (map ser_record (take n as))) @ zeros ((length as - n) * 21)) =
    ((a @ concat (map ser_record (take n as))) @ ser_record (as ! n)) @ zeros ((length as - Suc n) * 21)"
    using Suc assms(3) all
    by (subst WriteRecord_fill) (auto simp: length_ser_records)
  then show ?case using Suc by (simp add: take_Suc_conv_app_nth)
qed simp

lemma dns_response_fill:
  assumes "length a = 68" "list_all (\<lambda>a. length (da_address a) = 16) as"
  shows "fold (WriteRecord as) [0..<length as] ((a @ zeros (Suc (Suc (Suc (Suc (length as * 21))))))[68 := res, 69 := n]) =
    a @ [res, n, 0, 0] @ concat (map ser_record as)"
proof -
  have "zeros (Suc (Suc (length as * 21))) = [0, 0] @ zeros (length as * 21)"
    by (simp add: zeros_def)
  then have "(a @ zeros (Suc (Suc (Suc (Suc (length as * 21))))))[68 := res, 69 := n] =
      (a @ [res, n, 0, 0]) @ zeros (length as * 21)"
    using assms(1) by (simp add: fill_byte del: append_assoc)
  then show ?thesis
    using assms WriteRecords_fill [of "length as" as "a @ [res, n, 0, 0]"] by simp
qed

lemma EncodeDnsProxyResponse_eq:
  assumes "wf_session s" "list_all (\<lambda>a. length (da_address a) = 16) as"
    and "r = \<lparr>dr_sequence = q, dr_result = res, dr_addresses = as\<rparr>"
  shows "EncodeDnsProxyResponse hmac s q res as =
    (if ValidSession s \<and> wf_dns_response r then
       case auth_frame hmac kDnsMagic s 2 q (dns_response_payload r 0 0) of
         None \<Rightarrow> (Dns_kCryptoFailed, []) | Some f \<Rightarrow> (Dns_kSuccess, f)
     else (Dns_kInvalidArgument, []))"
proof -
  have wf: "list_all wf_dns_address as \<longleftrightarrow> list_all ValidDnsAddress as"
    using assms(2) by (auto simp: list_all_iff wf_dns_address_def)
  have p: "dns_response_payload r 0 0 = [res, of_nat (length as), 0, 0] @ concat (map ser_record as)"
    by (simp add: assms(3) dns_response_payload_def)
  note seal = seal_frame [where W = "\<lambda>e. fold (WriteRecord as) [0..<length as] (e[68 := res, 69 := of_nat (length as)])"
      and m = "72 + length as * 21" and magic = kDnsMagic
      and p = "dns_response_payload r 0 0", unfolded p, OF _ assms(1)]
  show ?thesis
    unfolding EncodeDnsProxyResponse_def Let_def p
    by (subst seal) (auto simp: dns_response_fill length_auth_head [OF _ assms(1)] assms(2,3) length_ser_records
          wf_dns_response_def wf simp del: append_assoc)
qed

section \<open>What the decoders accept\<close>

lemma dns_request_split:
  assumes "78 \<le> length f"
  shows "drop 68 f = sub_bytes 68 4 f @ sub_bytes 72 2 f @ [f ! 74, f ! 75] @ sub_bytes 76 2 f @ drop 78 f"
  using assms sub_bytes_drop [of 68 f 4] sub_bytes_drop [of 72 f 2] sub_bytes_drop [of 74 f 1] sub_bytes_drop [of 75 f 1]
    sub_bytes_drop [of 76 f 2]
  by (simp add: sub_bytes_1 [simplified])

lemma dns_request_payload_iff:
  assumes "78 \<le> length f"
  shows "drop 68 f = dns_request_payload r x \<longleftrightarrow>
    ReadU32 f 68 = dq_process r \<and> ReadU16 f 72 = dq_port r \<and> f ! 74 = dq_family r \<and> f ! 75 = x \<and>
    ReadU16 f 76 = of_nat (length (dq_domain r)) \<and> drop 78 f = dq_domain r"
  unfolding dns_request_split [OF assms] dns_request_payload_def
  using assms by (simp add: length_sub_bytes f16.read_eq_iff f32.read_eq_iff)

lemma DnsDomainLength_self:
  "d \<noteq> [] \<Longrightarrow> DnsDomainLength (Some d) = length d \<longleftrightarrow> domain_ok d"
proof -
  assume "d \<noteq> []"
  have "domain_ok (c_str d) \<and> length (c_str d) = length d \<longleftrightarrow> domain_ok d"
  proof
    assume *: "domain_ok (c_str d) \<and> length (c_str d) = length d"
    then have "c_str d = d" using take_c_str [of d] by simp
    then show "domain_ok d" using * by simp
  next
    assume "domain_ok d"
    then show "domain_ok (c_str d) \<and> length (c_str d) = length d"
      using c_str_id [of d] domain_okD [of d] by simp
  qed
  then show ?thesis using \<open>d \<noteq> []\<close> by (auto simp: DnsDomainLength_eq)
qed

lemma TcpDomainLength_self:
  "d \<noteq> [] \<Longrightarrow> TcpDomainLength (Some d) = Some (length d) \<longleftrightarrow> domain_ok d"
  using DnsDomainLength_self [of d] by (auto simp: TcpDomainLength_eq DnsDomainLength_eq split: if_splits)

lemma unat_u16_length:
  "n \<le> 253 \<Longrightarrow> (ReadU16 f off = of_nat n) = (unat (ReadU16 f off) = n)"
  by (simp add: unat_eq_of_nat_iff)

lemma length_dns_request_payload: "length (dns_request_payload r x) = 10 + length (dq_domain r)"
  by (simp add: dns_request_payload_def)

lemma DecodeDnsProxyRequest_fields:
  assumes "wf_session s"
  shows "DecodeDnsProxyRequest hmac s (Some f) q = (Dns_kSuccess, r) \<longleftrightarrow>
    ValidSession s \<and> wf_dns_request r \<and> dq_sequence r = q \<and> 78 \<le> length f \<and>
    DnsValidateHeader hmac s 78 f 1 q = Dns_kSuccess \<and> (\<exists>x. drop 68 f = dns_request_payload r x)"
proof (cases "78 \<le> length f")
  case True
  have dom: "78 + n = length f \<Longrightarrow> sub_bytes 78 n f = drop 78 f" for n
    by (simp add: sub_bytes_def)
  show ?thesis
  proof
    assume *: "DecodeDnsProxyRequest hmac s (Some f) q = (Dns_kSuccess, r)"
    let ?n = "unat (ReadU16 f 76)"
    from * have h: "ValidSession s" "q \<noteq> 0" "DnsValidateHeader hmac s 78 f 1 q = Dns_kSuccess"
      "ReadU32 f 68 \<noteq> 0" "f ! 74 \<in> {0, 4, 6}" "?n \<noteq> 0" "?n \<le> 253" "78 + ?n = length f"
      "DnsDomainLength (Some (sub_bytes 78 ?n f)) = ?n"
      and r: "r = \<lparr>dq_sequence = q, dq_process = ReadU32 f 68, dq_domain = sub_bytes 78 ?n f,
                  dq_port = ReadU16 f 72, dq_family = f ! 74\<rparr>"
      by (simp_all add: DecodeDnsProxyRequest_def Let_def split: if_splits)
    from dom [OF h(8)] h(8) have d: "dq_domain r = drop 78 f" "length (drop 78 f) = ?n" by (simp_all add: r)
    then have "domain_ok (drop 78 f)"
      using DnsDomainLength_self [of "drop 78 f"] h r by auto
    then show "ValidSession s \<and> wf_dns_request r \<and> dq_sequence r = q \<and> 78 \<le> length f \<and>
      DnsValidateHeader hmac s 78 f 1 q = Dns_kSuccess \<and> (\<exists>x. drop 68 f = dns_request_payload r x)"
      using True h d unfolding wf_dns_request_def dns_request_payload_iff [OF True]
      by (simp add: r dom unat_eq_of_nat_iff) 
  next
    assume *: "ValidSession s \<and> wf_dns_request r \<and> dq_sequence r = q \<and> 78 \<le> length f \<and>
      DnsValidateHeader hmac s 78 f 1 q = Dns_kSuccess \<and> (\<exists>x. drop 68 f = dns_request_payload r x)"
    then have r: "ReadU32 f 68 = dq_process r" "ReadU16 f 72 = dq_port r" "f ! 74 = dq_family r"
      "ReadU16 f 76 = of_nat (length (dq_domain r))" "drop 78 f = dq_domain r"
      by (auto simp: dns_request_payload_iff)
    have ok: "domain_ok (dq_domain r)" using * by (simp add: wf_dns_request_def)
    then have len: "unat (of_nat (length (dq_domain r)) :: u16) = length (dq_domain r)"
      using domain_okD by (intro unat_of_nat_less) fastforce
    have total: "78 + length (dq_domain r) = length f" using r(5) True by (metis le_add_diff_inverse length_drop)
    have "DnsDomainLength (Some (dq_domain r)) = length (dq_domain r)"
      using ok DnsDomainLength_self domain_okD by blast
    with * show "DecodeDnsProxyRequest hmac s (Some f) q = (Dns_kSuccess, r)"
      using ok True domain_okD [OF ok] total dom [OF total]
      by (auto simp: DecodeDnsProxyRequest_def Let_def r len wf_dns_request_def)
  qed
next
  case False
  then show ?thesis by (auto simp: DecodeDnsProxyRequest_def Let_def DnsValidateHeader_def)
qed

lemma DecodeDnsProxyRequest_iff:
  assumes "wf_session s"
  shows "DecodeDnsProxyRequest hmac s (Some f) q = (Dns_kSuccess, r) \<longleftrightarrow>
    ValidSession s \<and> wf_dns_request r \<and> dq_sequence r = q \<and>
    (\<exists>x. auth_frame hmac kDnsMagic s 1 q (dns_request_payload r x) = Some f)"
proof -
  have small: "wf_dns_request r \<Longrightarrow> length (dns_request_payload r x) < 2 ^ 32" for x
    using domain_okD by (fastforce simp: length_dns_request_payload wf_dns_request_def)
  have min: "78 \<le> 68 + length (dns_request_payload r x)" for x
    by (simp add: length_dns_request_payload)
  show ?thesis
    using DecodeDnsProxyRequest_fields [OF assms] dns_request_header.check_payload [OF assms min small] by blast
qed

lemma tcp_request_split:
  assumes "96 \<le> length f"
  shows "drop 68 f = sub_bytes 68 4 f @ sub_bytes 72 2 f @ [f ! 74, f ! 75] @ sub_bytes 76 2 f @
    sub_bytes 78 2 f @ sub_bytes 80 16 f @ drop 96 f"
  using assms dns_request_split [of f] sub_bytes_drop [of 78 f 2] sub_bytes_drop [of 80 f 16]
  by simp

lemma tcp_request_payload_iff:
  assumes "96 \<le> length f" "length (tq_address r) = 16"
  shows "drop 68 f = tcp_request_payload r \<longleftrightarrow>
    ReadU32 f 68 = tq_process r \<and> ReadU16 f 72 = tq_port r \<and> f ! 74 = tq_family r \<and> f ! 75 = 0 \<and>
    ReadU16 f 76 = of_nat (length (tq_domain r)) \<and> ReadU16 f 78 = 0 \<and>
    sub_bytes 80 16 f = tq_address r \<and> drop 96 f = tq_domain r"
proof -
  have z: "le_bytes 2 (0 :: u16) = [0, 0]" by (simp add: le_bytes_def numeral_2_eq_2)
  have p: "tcp_request_payload r = le_bytes 4 (tq_process r) @ le_bytes 2 (tq_port r) @ [tq_family r, 0] @
     le_bytes 2 (of_nat (length (tq_domain r)) :: u16) @ le_bytes 2 (0 :: u16) @ tq_address r @ tq_domain r"
    by (simp add: tcp_request_payload_def z)
  show ?thesis
    unfolding tcp_request_split [OF assms(1)] p
    using assms by (simp add: length_sub_bytes f16.read_eq_iff f32.read_eq_iff)
qed

lemma length_tcp_request_payload:
  "length (tq_address r) = 16 \<Longrightarrow> length (tcp_request_payload r) = 28 + length (tq_domain r)"
  by (simp add: tcp_request_payload_def)

lemma DecodeTcpProxyRequest_fields:
  assumes "wf_session s"
  shows "DecodeTcpProxyRequest hmac s (Some f) q = (Tcp_kSuccess, r) \<longleftrightarrow>
    ValidSession s \<and> wf_tcp_request r \<and> tq_sequence r = q \<and> 96 \<le> length f \<and>
    TcpValidateHeader hmac s f 1 q = Tcp_kSuccess \<and> drop 68 f = tcp_request_payload r"
proof (cases "96 \<le> length f")
  case True
  have dom: "96 + n = length f \<Longrightarrow> sub_bytes 96 n f = drop 96 f" for n
    by (simp add: sub_bytes_def)
  show ?thesis
  proof
    assume *: "DecodeTcpProxyRequest hmac s (Some f) q = (Tcp_kSuccess, r)"
    let ?n = "unat (ReadU16 f 76)"
    let ?d = "if ?n \<noteq> 0 then sub_bytes 96 ?n f else []"
    from * have h: "ValidSession s" "q \<noteq> 0" "TcpValidateHeader hmac s f 1 q = Tcp_kSuccess"
      "f ! 75 = 0" "ReadU16 f 78 = 0" "ReadU32 f 68 \<noteq> 0" "ReadU16 f 72 \<noteq> 0"
      "ValidAddress (f ! 74) (sub_bytes 80 16 f)" "?n \<le> 253" "96 + ?n = length f"
      "?n \<noteq> 0 \<Longrightarrow> TcpDomainLength (Some ?d) = Some ?n"
      and r: "r = \<lparr>tq_sequence = q, tq_process = ReadU32 f 68, tq_family = f ! 74,
                  tq_address = sub_bytes 80 16 f, tq_port = ReadU16 f 72, tq_domain = ?d\<rparr>"
      unfolding DecodeTcpProxyRequest_def Let_def by (simp_all split: if_splits)
    have d: "tq_domain r = drop 96 f" "length (drop 96 f) = ?n"
      using dom [OF h(10)] h(10) by (simp_all add: r)
    then have "drop 96 f = [] \<or> domain_ok (drop 96 f)"
    proof (cases "?n = 0")
      case False
      then have "TcpDomainLength (Some (drop 96 f)) = Some (length (drop 96 f))"
        using h(11) dom [OF h(10)] d(2) by simp
      then show ?thesis using TcpDomainLength_self by blast
    qed (use d(2) in simp)
    moreover have a: "length (sub_bytes 80 16 f) = 16" using True by (simp add: length_sub_bytes)
    moreover have "drop 68 f = tcp_request_payload r"
      using True h d a r by (simp add: tcp_request_payload_iff unat_eq_of_nat_iff)
    ultimately show "ValidSession s \<and> wf_tcp_request r \<and> tq_sequence r = q \<and> 96 \<le> length f \<and>
      TcpValidateHeader hmac s f 1 q = Tcp_kSuccess \<and> drop 68 f = tcp_request_payload r"
      using True h d unfolding wf_tcp_request_def by (auto simp: r)
  next
    assume *: "ValidSession s \<and> wf_tcp_request r \<and> tq_sequence r = q \<and> 96 \<le> length f \<and>
      TcpValidateHeader hmac s f 1 q = Tcp_kSuccess \<and> drop 68 f = tcp_request_payload r"
    then have wf: "q \<noteq> 0" "tq_process r \<noteq> 0" "tq_port r \<noteq> 0" "length (tq_address r) = 16"
      "ValidAddress (tq_family r) (tq_address r)" "tq_domain r = [] \<or> domain_ok (tq_domain r)"
      by (auto simp: wf_tcp_request_def)
    from * have r: "ReadU32 f 68 = tq_process r" "ReadU16 f 72 = tq_port r" "f ! 74 = tq_family r"
      "f ! 75 = 0" "ReadU16 f 76 = of_nat (length (tq_domain r))" "ReadU16 f 78 = 0"
      "sub_bytes 80 16 f = tq_address r" "drop 96 f = tq_domain r"
      using wf(4) tcp_request_payload_iff [of f r] by auto
    have le: "length (tq_domain r) \<le> 253" using wf(6) domain_okD by fastforce
    then have len: "unat (of_nat (length (tq_domain r)) :: u16) = length (tq_domain r)"
      by (intro unat_of_nat_less) simp
    have total: "96 + length (tq_domain r) = length f" using r(8) True by (metis le_add_diff_inverse length_drop)
    have "tq_domain r \<noteq> [] \<Longrightarrow> TcpDomainLength (Some (tq_domain r)) = Some (length (tq_domain r))"
      using wf(6) TcpDomainLength_self by blast
    then show "DecodeTcpProxyRequest hmac s (Some f) q = (Tcp_kSuccess, r)"
      using * wf total [symmetric] dom [OF total] le
      by (auto simp: DecodeTcpProxyRequest_def Let_def r len)
  qed
next
  case False
  then show ?thesis by (auto simp: DecodeTcpProxyRequest_def Let_def)
qed

lemma DecodeTcpProxyRequest_iff:
  assumes "wf_session s"
  shows "DecodeTcpProxyRequest hmac s (Some f) q = (Tcp_kSuccess, r) \<longleftrightarrow>
    ValidSession s \<and> wf_tcp_request r \<and> tq_sequence r = q \<and>
    auth_frame hmac kTcpMagic s 1 q (tcp_request_payload r) = Some f"
proof -
  have len: "96 \<le> length f"
    if "wf_tcp_request r" "auth_frame hmac kTcpMagic s 1 q (tcp_request_payload r) = Some f"
    using length_auth_frame [OF that(2) _ assms] that(1)
    by (simp add: length_tcp_request_payload wf_tcp_request_def)
  have small: "length (tcp_request_payload r) < 2 ^ 32" if "wf_tcp_request r"
    using that domain_okD by (fastforce simp: length_tcp_request_payload wf_tcp_request_def)
  show ?thesis
    using DecodeTcpProxyRequest_fields [OF assms] len
      tcp_header.check_payload [OF assms _ small, of f hmac 1 q]
    by fastforce
qed

lemma tcp_response_payload_iff:
  assumes "length f = 76"
  shows "drop 68 f = tcp_response_payload r \<longleftrightarrow>
    f ! 68 = tr_result r \<and> f ! 69 = 0 \<and> f ! 70 = 0 \<and> f ! 71 = 0 \<and> ReadU32 f 72 = tr_network_error r"
proof -
  have "drop 68 f = [f ! 68, f ! 69, f ! 70, f ! 71] @ sub_bytes 72 4 f"
    using assms sub_bytes_drop [of 68 f 1] sub_bytes_drop [of 69 f 1] sub_bytes_drop [of 70 f 1]
      sub_bytes_drop [of 71 f 1] sub_bytes_drop [of 72 f 4]
    by (simp add: sub_bytes_1 [simplified])
  then show ?thesis
    using assms by (simp add: tcp_response_payload_def f32.read_eq_iff)
qed

lemma DecodeTcpProxyResponse_iff:
  assumes "wf_session s"
  shows "DecodeTcpProxyResponse hmac s (Some f) q = (Tcp_kSuccess, r) \<longleftrightarrow>
    ValidSession s \<and> wf_tcp_response r \<and> tr_sequence r = q \<and>
    auth_frame hmac kTcpMagic s 2 q (tcp_response_payload r) = Some f"
proof -
  have "length f = 76" if "auth_frame hmac kTcpMagic s 2 q (tcp_response_payload r) = Some f"
    using length_auth_frame [OF that _ assms] by (simp add: tcp_response_payload_def)
  moreover have "DecodeTcpProxyResponse hmac s (Some f) q = (Tcp_kSuccess, r) \<longleftrightarrow>
    ValidSession s \<and> wf_tcp_response r \<and> tr_sequence r = q \<and> length f = 76 \<and>
    TcpValidateHeader hmac s f 2 q = Tcp_kSuccess \<and> drop 68 f = tcp_response_payload r"
    by (cases r) (auto simp: DecodeTcpProxyResponse_def Let_def tcp_response_payload_iff wf_tcp_response_def)
  ultimately show ?thesis
    using tcp_header.check_payload [OF assms, of "tcp_response_payload r" f hmac 2 q]
    by (auto simp: tcp_response_payload_def)
qed

lemma record_iff:
  assumes "o1 + 21 \<le> length f" "length (da_address a) = 16"
  shows "sub_bytes o1 21 f = ser_record a \<longleftrightarrow>
    f ! o1 = da_family a \<and> ReadU32 f (o1 + 1) = da_ttl a \<and> sub_bytes (o1 + 5) 16 f = da_address a"
proof -
  have "sub_bytes o1 21 f = [f ! o1] @ sub_bytes (o1 + 1) 4 f @ sub_bytes (o1 + 5) 16 f"
    using assms sub_bytes_split [of 1 21 o1 f] sub_bytes_split [of 4 20 "o1 + 1" f]
    by (simp add: sub_bytes_1 [simplified] add.commute)
  then show ?thesis
    using assms by (simp add: ser_record_def f32.read_eq_iff length_sub_bytes)
qed

lemma ReadRecords_iff:
  assumes "72 + (i + n) * 21 \<le> length f"
  shows "ReadRecords f i n = Some as \<longleftrightarrow>
    length as = n \<and> list_all wf_dns_address as \<and>
    sub_bytes (72 + i * 21) (n * 21) f = concat (map ser_record as)"
  using assms
proof (induction n arbitrary: i as)
  case 0
  then show ?case by (auto simp: sub_bytes_def)
next
  case (Suc n)
  let ?o = "72 + i * 21"
  let ?a = "\<lparr>da_family = f ! ?o, da_address = sub_bytes (?o + 5) 16 f, da_ttl = ReadU32 f (?o + 1)\<rparr>"
  have o: "?o + 21 \<le> length f" using Suc.prems by simp
  have a16: "length (da_address ?a) = 16" using o by (simp add: length_sub_bytes)
  have IH: "ReadRecords f (Suc i) n = Some bs \<longleftrightarrow> length bs = n \<and> list_all wf_dns_address bs \<and>
      sub_bytes (?o + 21) (n * 21) f = concat (map ser_record bs)" for bs
    using Suc.IH [of "Suc i" bs] Suc.prems by (simp add: algebra_simps)
  have step: "ReadRecords f i (Suc n) =
      (if wf_dns_address ?a then map_option ((#) ?a) (ReadRecords f (Suc i) n) else None)"
    using a16 by (auto simp: wf_dns_address_def ValidDnsAddress_def Let_def split: option.split)
  have split: "sub_bytes ?o (Suc n * 21) f = sub_bytes ?o 21 f @ sub_bytes (?o + 21) (n * 21) f"
    using sub_bytes_split [of 21 "Suc n * 21" ?o f] by simp
  have rec: "sub_bytes ?o 21 f = ser_record a \<longleftrightarrow> a = ?a" if "length (da_address a) = 16" for a
    using record_iff [OF o that] by (cases a) auto
  show ?case
  proof (cases as)
    case Nil
    then show ?thesis unfolding step by auto
  next
    case (Cons a bs)
    have "sub_bytes ?o (Suc n * 21) f = concat (map ser_record as) \<longleftrightarrow>
        a = ?a \<and> sub_bytes (?o + 21) (n * 21) f = concat (map ser_record bs)"
      if "wf_dns_address a"
      using that o rec [of a] unfolding split
      by (simp add: Cons append_eq_append_conv length_sub_bytes length_ser_record wf_dns_address_def)
    then show ?thesis
      unfolding step using IH [of bs] by (auto simp: Cons)
  qed
qed

lemma length_dns_response_payload:
  "list_all wf_dns_address (dr_addresses r) \<Longrightarrow>
   length (dns_response_payload r x y) = 4 + length (dr_addresses r) * 21"
  by (simp add: dns_response_payload_def length_ser_records list_all_iff wf_dns_address_def)

lemma dns_response_payload_iff:
  assumes True: "72 \<le> length f" and wf: "wf_dns_response r"
  shows "(\<exists>x y. drop 68 f = dns_response_payload r x y) \<longleftrightarrow>
      f ! 68 = dr_result r \<and> unat (f ! 69) = length (dr_addresses r) \<and>
      72 + length (dr_addresses r) * 21 = length f \<and>
      sub_bytes 72 (length (dr_addresses r) * 21) f = concat (map ser_record (dr_addresses r))"
proof -
  let ?as = "dr_addresses r"
  have split: "drop 68 f = [f ! 68, f ! 69, f ! 70, f ! 71] @ drop 72 f"
    using True sub_bytes_drop [of 68 f 1] sub_bytes_drop [of 69 f 1] sub_bytes_drop [of 70 f 1]
      sub_bytes_drop [of 71 f 1]
    by (simp add: sub_bytes_1 [simplified])
  have all: "list_all (\<lambda>a. length (da_address a) = 16) ?as"
    using wf by (simp add: wf_dns_response_def wf_dns_address_def list_all_iff)
  have "length ?as < 2 ^ LENGTH(8)" using wf by (simp add: wf_dns_response_def)
  then have n: "f ! 69 = of_nat (length ?as) \<longleftrightarrow> unat (f ! 69) = length ?as"
    by (simp add: unat_eq_of_nat_iff)
  have "drop 72 f = concat (map ser_record ?as) \<longleftrightarrow>
      72 + length ?as * 21 = length f \<and> sub_bytes 72 (length ?as * 21) f = concat (map ser_record ?as)"
  proof
    assume d: "drop 72 f = concat (map ser_record ?as)"
    then have "length f - 72 = length ?as * 21" using length_ser_records [OF all] by (metis length_drop)
    then show "72 + length ?as * 21 = length f \<and> sub_bytes 72 (length ?as * 21) f = concat (map ser_record ?as)"
      using True by (simp add: sub_bytes_def d [symmetric])
  next
    assume "72 + length ?as * 21 = length f \<and> sub_bytes 72 (length ?as * 21) f = concat (map ser_record ?as)"
    then show "drop 72 f = concat (map ser_record ?as)"
      by (metis add_diff_cancel_left' length_drop order_refl sub_bytes_def take_all)
  qed
  then show ?thesis unfolding split dns_response_payload_def using n by auto
qed

lemma DecodeDnsProxyResponse_success:
  "DecodeDnsProxyResponse hmac s (Some f) q = (Dns_kSuccess, r) \<longleftrightarrow>
    ValidSession s \<and> q \<noteq> 0 \<and> DnsValidateHeader hmac s 72 f 2 q = Dns_kSuccess \<and>
    f ! 68 \<le> 3 \<and> unat (f ! 69) \<le> 16 \<and> 72 + unat (f ! 69) * 21 = length f \<and>
    (f ! 68 = 0) = (unat (f ! 69) \<noteq> 0) \<and>
    ReadRecords f 0 (unat (f ! 69)) = Some (dr_addresses r) \<and> dr_sequence r = q \<and> dr_result r = f ! 68"
  by (cases r) (auto simp: DecodeDnsProxyResponse_def Let_def not_less split: option.splits)

lemma DecodeDnsProxyResponse_fields:
  assumes "wf_session s"
  shows "DecodeDnsProxyResponse hmac s (Some f) q = (Dns_kSuccess, r) \<longleftrightarrow>
    ValidSession s \<and> wf_dns_response r \<and> dr_sequence r = q \<and> 72 \<le> length f \<and>
    DnsValidateHeader hmac s 72 f 2 q = Dns_kSuccess \<and> (\<exists>x y. drop 68 f = dns_response_payload r x y)"
    (is "?L \<longleftrightarrow> ?R")
proof -
  let ?n = "unat (f ! 69)"
  have rec: "ReadRecords f 0 ?n = Some (dr_addresses r) \<longleftrightarrow>
      length (dr_addresses r) = ?n \<and> list_all wf_dns_address (dr_addresses r) \<and>
      sub_bytes 72 (?n * 21) f = concat (map ser_record (dr_addresses r))" if "72 + ?n * 21 = length f"
    using ReadRecords_iff [of 0 ?n f "dr_addresses r"] that by simp
  show ?thesis
  proof
    assume ?L
    with rec have *: "ValidSession s" "q \<noteq> 0" "DnsValidateHeader hmac s 72 f 2 q = Dns_kSuccess"
      "f ! 68 \<le> 3" "?n \<le> 16" "72 + ?n * 21 = length f" "(f ! 68 = 0) = (?n \<noteq> 0)"
      "length (dr_addresses r) = ?n" "list_all wf_dns_address (dr_addresses r)"
      "sub_bytes 72 (?n * 21) f = concat (map ser_record (dr_addresses r))"
      "dr_sequence r = q" "dr_result r = f ! 68"
      unfolding DecodeDnsProxyResponse_success by simp_all
    have "?n \<noteq> 0 \<longleftrightarrow> dr_addresses r \<noteq> []" using *(8) by (metis length_0_conv)
    then have wf: "wf_dns_response r" using * unfolding wf_dns_response_def by simp
    have len: "72 \<le> length f" using *(6) by linarith
    show ?R unfolding dns_response_payload_iff [OF len wf] using * wf len by simp
  next
    assume *: ?R
    then have wf: "wf_dns_response r" and len: "72 \<le> length f" by simp_all
    have p: "f ! 68 = dr_result r" "?n = length (dr_addresses r)" "72 + ?n * 21 = length f"
      "sub_bytes 72 (?n * 21) f = concat (map ser_record (dr_addresses r))"
      using * dns_response_payload_iff [OF len wf] by simp_all
    have w: "dr_sequence r \<noteq> 0" "dr_result r \<le> 3" "length (dr_addresses r) \<le> 16"
      "(dr_result r = 0) = (dr_addresses r \<noteq> [])" "list_all wf_dns_address (dr_addresses r)"
      using wf by (simp_all add: wf_dns_response_def)
    show ?L unfolding DecodeDnsProxyResponse_success using rec [OF p(3)] p w * by simp
  qed
qed

lemma DecodeDnsProxyResponse_iff:
  assumes "wf_session s"
  shows "DecodeDnsProxyResponse hmac s (Some f) q = (Dns_kSuccess, r) \<longleftrightarrow>
    ValidSession s \<and> wf_dns_response r \<and> dr_sequence r = q \<and>
    (\<exists>x y. auth_frame hmac kDnsMagic s 2 q (dns_response_payload r x y) = Some f)"
proof -
  have small: "length (dns_response_payload r x y) < 2 ^ 32" if "wf_dns_response r" for x y
    using that by (simp add: length_dns_response_payload wf_dns_response_def)
  have min: "72 \<le> 68 + length (dns_response_payload r x y)" for x y
    by (simp add: dns_response_payload_def)
  show ?thesis
    using DecodeDnsProxyResponse_fields [OF assms] dns_response_header.check_payload [OF assms min small]
    by blast
qed

section \<open>Properties of the two protocols\<close>

lemma accepts_frame:
  assumes "wf_session s" "accepts hmac c s q f"
  shows "\<exists>p. auth_frame hmac (frame_magic c) s (frame_kind c) q p = Some f"
proof (cases c)
  case Dns_Request
  then show ?thesis
    using assms DecodeDnsProxyRequest_iff [OF assms(1), of hmac f q]
    by (cases "DecodeDnsProxyRequest hmac s (Some f) q") (auto simp: accepts_def frame_magic_def frame_kind_def)
next
  case Dns_Response
  then show ?thesis
    using assms DecodeDnsProxyResponse_iff [OF assms(1), of hmac f q]
    by (cases "DecodeDnsProxyResponse hmac s (Some f) q") (auto simp: accepts_def frame_magic_def frame_kind_def)
next
  case Tcp_Request
  then show ?thesis
    using assms DecodeTcpProxyRequest_iff [OF assms(1), of hmac f q]
    by (cases "DecodeTcpProxyRequest hmac s (Some f) q") (auto simp: accepts_def frame_magic_def frame_kind_def)
next
  case Tcp_Response
  then show ?thesis
    using assms DecodeTcpProxyResponse_iff [OF assms(1), of hmac f q]
    by (cases "DecodeTcpProxyResponse hmac s (Some f) q") (auto simp: accepts_def frame_magic_def frame_kind_def)
qed

lemma auth_frame_unique:
  assumes "auth_frame hmac m s k q p = Some f" "auth_frame hmac m' s' k' q' p' = Some f"
    and "wf_session s" "wf_session s'" "length m = 4" "length m' = 4"
  shows "m = m' \<and> k = k' \<and> q = q' \<and> ps_nonce s = ps_nonce s' \<and> p = p'"
proof -
  have p: "drop 68 f = p" "drop 68 f = p'" "length f = 68 + length p"
    using drop_auth_frame [OF assms(1,5,3)] drop_auth_frame [OF assms(2,6,4)]
      length_auth_frame [OF assms(1,5,3)] by simp_all
  then have len: "68 \<le> length f" by simp
  show ?thesis
    using auth_frame_iff [OF len assms(5,3), of hmac k q] auth_frame_iff [OF len assms(6,4), of hmac k' q'] assms p
    by (auto simp: HasMagic_def)
qed

text \<open>
  C22. The DNS request codec.  A byte string decodes to a request exactly if the request is
  well-formed, carries the expected sequence and the bytes are its authenticated frame
  with some value in the reserved byte; the encoder produces that frame with a zero
  reserved byte, or the status of the first invalid argument, and what it produces decodes
  to the request it was given.
\<close>

theorem dns_request_codec:
  assumes "wf_session s"
  shows "(DecodeDnsProxyRequest hmac s (Some f) q = (Dns_kSuccess, r) \<longleftrightarrow>
      ValidSession s \<and> wf_dns_request r \<and> dq_sequence r = q \<and>
      (\<exists>x. auth_frame hmac kDnsMagic s kRequestKind q (dns_request_payload r x) = Some f)) \<and>
    (EncodeDnsProxyRequest hmac s q pid (Some d) port fam = (Dns_kSuccess, g) \<longrightarrow>
      DecodeDnsProxyRequest hmac s (Some g) q =
        (Dns_kSuccess, \<lparr>dq_sequence = q, dq_process = pid, dq_domain = c_str d, dq_port = port,
                        dq_family = fam\<rparr>)) \<and>
    (fst (EncodeDnsProxyRequest hmac s q pid (Some d) port fam) =
      (if \<not> ValidSession s \<or> q = 0 then Dns_kInvalidArgument
       else if pid = 0 then Dns_kInvalidProcess
       else if \<not> domain_ok (c_str d) then Dns_kInvalidDomain
       else if fam \<notin> {0, 4, 6} then Dns_kInvalidArgument
       else if auth_frame hmac kDnsMagic s kRequestKind q
                 (dns_request_payload \<lparr>dq_sequence = q, dq_process = pid, dq_domain = c_str d,
                    dq_port = port, dq_family = fam\<rparr> 0) = None
       then Dns_kCryptoFailed else Dns_kSuccess))"
proof -
  let ?r = "\<lparr>dq_sequence = q, dq_process = pid, dq_domain = c_str d, dq_port = port, dq_family = fam\<rparr>"
  have enc: "EncodeDnsProxyRequest hmac s q pid (Some d) port fam =
    (if ValidSession s \<and> wf_dns_request ?r then
       case auth_frame hmac kDnsMagic s 1 q (dns_request_payload ?r 0) of
         None \<Rightarrow> (Dns_kCryptoFailed, []) | Some f \<Rightarrow> (Dns_kSuccess, f)
     else (if \<not> ValidSession s \<or> q = 0 then Dns_kInvalidArgument
           else if pid = 0 then Dns_kInvalidProcess
           else if \<not> domain_ok (dq_domain ?r) then Dns_kInvalidDomain
           else Dns_kInvalidArgument, []))"
    using assms by (rule EncodeDnsProxyRequest_eq) simp
  have "EncodeDnsProxyRequest hmac s q pid (Some d) port fam = (Dns_kSuccess, g) \<Longrightarrow>
      DecodeDnsProxyRequest hmac s (Some g) q = (Dns_kSuccess, ?r)"
    unfolding enc DecodeDnsProxyRequest_iff [OF assms] by (auto split: if_splits option.splits)
  moreover have "fst (EncodeDnsProxyRequest hmac s q pid (Some d) port fam) =
      (if \<not> ValidSession s \<or> q = 0 then Dns_kInvalidArgument
       else if pid = 0 then Dns_kInvalidProcess
       else if \<not> domain_ok (c_str d) then Dns_kInvalidDomain
       else if fam \<notin> {0, 4, 6} then Dns_kInvalidArgument
       else if auth_frame hmac kDnsMagic s 1 q (dns_request_payload ?r 0) = None
       then Dns_kCryptoFailed else Dns_kSuccess)"
    unfolding enc by (auto simp: wf_dns_request_def split: option.split)
  ultimately show ?thesis using DecodeDnsProxyRequest_iff [OF assms, of hmac f q r] by blast
qed

theorem dns_request_codec_witness:
  "wf_session sample_session \<and>
   DecodeDnsProxyRequest sample_hmac sample_session
     (Some (snd (EncodeDnsProxyRequest sample_hmac sample_session 5 7 (Some (ascii ''ok.io'')) 443 4))) 5 =
   (Dns_kSuccess, \<lparr>dq_sequence = 5, dq_process = 7, dq_domain = ascii ''ok.io'', dq_port = 443, dq_family = 4\<rparr>)"
proof -
  have wf: "wf_session sample_session" by code_simp
  have ok: "fst (EncodeDnsProxyRequest sample_hmac sample_session 5 7 (Some (ascii ''ok.io'')) 443 4) = Dns_kSuccess"
    by code_simp
  have "c_str (ascii ''ok.io'') = ascii ''ok.io''" by code_simp
  then show ?thesis
    using dns_request_codec [OF wf, THEN conjunct2, THEN conjunct1, rule_format, OF eq_snd [OF ok]] wf
    by simp
qed

text \<open>
  C23. The DNS response codec, in the same form; the two bytes behind the record count are
  not checked by the decoder.
\<close>

theorem dns_response_codec:
  assumes "wf_session s" and "list_all (\<lambda>a. length (da_address a) = 16) as"
  shows "(DecodeDnsProxyResponse hmac s (Some f) q = (Dns_kSuccess, r) \<longleftrightarrow>
      ValidSession s \<and> wf_dns_response r \<and> dr_sequence r = q \<and>
      (\<exists>x y. auth_frame hmac kDnsMagic s kResponseKind q (dns_response_payload r x y) = Some f)) \<and>
    (EncodeDnsProxyResponse hmac s q res as = (Dns_kSuccess, g) \<longrightarrow>
      DecodeDnsProxyResponse hmac s (Some g) q =
        (Dns_kSuccess, \<lparr>dr_sequence = q, dr_result = res, dr_addresses = as\<rparr>)) \<and>
    (fst (EncodeDnsProxyResponse hmac s q res as) =
      (if \<not> (ValidSession s \<and> wf_dns_response \<lparr>dr_sequence = q, dr_result = res, dr_addresses = as\<rparr>)
       then Dns_kInvalidArgument
       else if auth_frame hmac kDnsMagic s kResponseKind q
                 (dns_response_payload \<lparr>dr_sequence = q, dr_result = res, dr_addresses = as\<rparr> 0 0) = None
       then Dns_kCryptoFailed else Dns_kSuccess))"
proof -
  let ?r = "\<lparr>dr_sequence = q, dr_result = res, dr_addresses = as\<rparr>"
  have enc: "EncodeDnsProxyResponse hmac s q res as =
    (if ValidSession s \<and> wf_dns_response ?r then
       case auth_frame hmac kDnsMagic s 2 q (dns_response_payload ?r 0 0) of
         None \<Rightarrow> (Dns_kCryptoFailed, []) | Some f \<Rightarrow> (Dns_kSuccess, f)
     else (Dns_kInvalidArgument, []))"
    using assms by (rule EncodeDnsProxyResponse_eq) simp
  have "EncodeDnsProxyResponse hmac s q res as = (Dns_kSuccess, g) \<Longrightarrow>
      DecodeDnsProxyResponse hmac s (Some g) q = (Dns_kSuccess, ?r)"
    unfolding enc DecodeDnsProxyResponse_iff [OF assms(1)] by (auto split: if_splits option.splits)
  moreover have "fst (EncodeDnsProxyResponse hmac s q res as) =
      (if \<not> (ValidSession s \<and> wf_dns_response ?r) then Dns_kInvalidArgument
       else if auth_frame hmac kDnsMagic s 2 q (dns_response_payload ?r 0 0) = None
       then Dns_kCryptoFailed else Dns_kSuccess)"
    unfolding enc by (auto split: option.split)
  ultimately show ?thesis using DecodeDnsProxyResponse_iff [OF assms(1), of hmac f q r] by blast
qed

theorem dns_response_codec_witness:
  "let a = \<lparr>da_family = 4, da_address = [10, 0, 0, 1, 0, 0, 0, 0, 0, 0, 0, 0, 0, 0, 0, 0], da_ttl = 60\<rparr> in
   DecodeDnsProxyResponse sample_hmac sample_session
     (Some (snd (EncodeDnsProxyResponse sample_hmac sample_session 5 0 [a]))) 5 =
   (Dns_kSuccess, \<lparr>dr_sequence = 5, dr_result = 0, dr_addresses = [a]\<rparr>)"
proof -
  let ?a = "\<lparr>da_family = 4, da_address = [10, 0, 0, 1, 0, 0, 0, 0, 0, 0, 0, 0, 0, 0, 0, 0], da_ttl = 60\<rparr>"
  have wf: "wf_session sample_session" by code_simp
  have ok: "fst (EncodeDnsProxyResponse sample_hmac sample_session 5 0 [?a]) = Dns_kSuccess" by code_simp
  have l: "list_all (\<lambda>a. length (da_address a) = 16) [?a]" by simp
  have "EncodeDnsProxyResponse sample_hmac sample_session 5 0 [?a] =
      (Dns_kSuccess, snd (EncodeDnsProxyResponse sample_hmac sample_session 5 0 [?a]))"
    using ok by (rule eq_snd)
  then show ?thesis
    unfolding Let_def using dns_response_codec [OF wf l] by blast
qed

text \<open>
  C24. The TCP codecs.  Both decoders check every reserved byte, so a request or response
  has exactly one frame: a byte string decodes to it exactly if it is what the encoder
  produces from its fields.
\<close>

theorem tcp_codec_exact:
  assumes "wf_session s" and "length (tq_address rq) = 16"
  shows "(DecodeTcpProxyRequest hmac s (Some f) q = (Tcp_kSuccess, rq) \<longleftrightarrow>
      tq_sequence rq = q \<and> 0 \<notin> set (tq_domain rq) \<and>
      EncodeTcpProxyRequest hmac s q (tq_process rq) (tq_family rq) (tq_address rq) (tq_port rq)
        (Some (tq_domain rq)) = (Tcp_kSuccess, f)) \<and>
    (DecodeTcpProxyResponse hmac s (Some f) q = (Tcp_kSuccess, rs) \<longleftrightarrow>
      tr_sequence rs = q \<and>
      EncodeTcpProxyResponse hmac s q (tr_result rs) (tr_network_error rs) = (Tcp_kSuccess, f))"
proof
  have 1: "wf_tcp_request rq \<Longrightarrow> 0 \<notin> set (tq_domain rq)"
    using domain_okD by (auto simp: wf_tcp_request_def)
  have enc: "EncodeTcpProxyRequest hmac s q (tq_process rq) (tq_family rq) (tq_address rq) (tq_port rq)
        (Some (tq_domain rq)) = (Tcp_kSuccess, f) \<longleftrightarrow>
      ValidSession s \<and> wf_tcp_request rq \<and> auth_frame hmac kTcpMagic s 1 q (tcp_request_payload rq) = Some f"
    if "tq_sequence rq = q" "0 \<notin> set (tq_domain rq)"
  proof -
    have r: "rq = \<lparr>tq_sequence = q, tq_process = tq_process rq, tq_family = tq_family rq,
        tq_address = tq_address rq, tq_port = tq_port rq,
        tq_domain = (case Some (tq_domain rq) of None \<Rightarrow> [] | Some d \<Rightarrow> c_str d)\<rparr>"
      using that by (simp add: c_str_id)
    show ?thesis
      unfolding EncodeTcpProxyRequest_eq [OF assms r] by (auto split: if_splits option.splits)
  qed
  show "DecodeTcpProxyRequest hmac s (Some f) q = (Tcp_kSuccess, rq) \<longleftrightarrow>
      tq_sequence rq = q \<and> 0 \<notin> set (tq_domain rq) \<and>
      EncodeTcpProxyRequest hmac s q (tq_process rq) (tq_family rq) (tq_address rq) (tq_port rq)
        (Some (tq_domain rq)) = (Tcp_kSuccess, f)"
    unfolding DecodeTcpProxyRequest_iff [OF assms(1)] using enc 1 by blast
  have enc2: "EncodeTcpProxyResponse hmac s q (tr_result rs) (tr_network_error rs) = (Tcp_kSuccess, f) \<longleftrightarrow>
      ValidSession s \<and> wf_tcp_response rs \<and> auth_frame hmac kTcpMagic s 2 q (tcp_response_payload rs) = Some f"
    if "tr_sequence rs = q"
  proof -
    have r: "rs = \<lparr>tr_sequence = q, tr_result = tr_result rs, tr_network_error = tr_network_error rs\<rparr>"
      using that by simp
    show ?thesis
      unfolding EncodeTcpProxyResponse_eq [OF assms(1) r] by (auto split: if_splits option.splits)
  qed
  show "DecodeTcpProxyResponse hmac s (Some f) q = (Tcp_kSuccess, rs) \<longleftrightarrow>
      tr_sequence rs = q \<and>
      EncodeTcpProxyResponse hmac s q (tr_result rs) (tr_network_error rs) = (Tcp_kSuccess, f)"
    unfolding DecodeTcpProxyResponse_iff [OF assms(1)] using enc2 by blast
qed

theorem tcp_codec_exact_witness:
  "let r = \<lparr>tq_sequence = 5, tq_process = 7, tq_family = 4,
            tq_address = [10, 0, 0, 1, 0, 0, 0, 0, 0, 0, 0, 0, 0, 0, 0, 0], tq_port = 443,
            tq_domain = ascii ''ok.io''\<rparr> in
   DecodeTcpProxyRequest sample_hmac sample_session
     (Some (snd (EncodeTcpProxyRequest sample_hmac sample_session 5 7 4 (tq_address r) 443 (Some (tq_domain r))))) 5 =
   (Tcp_kSuccess, r)"
proof -
  let ?r = "\<lparr>tq_sequence = 5, tq_process = 7, tq_family = 4,
            tq_address = [10, 0, 0, 1, 0, 0, 0, 0, 0, 0, 0, 0, 0, 0, 0, 0], tq_port = 443,
            tq_domain = ascii ''ok.io''\<rparr>"
  have wf: "wf_session sample_session" by code_simp
  have ok: "fst (EncodeTcpProxyRequest sample_hmac sample_session 5 7 4 (tq_address ?r) 443 (Some (tq_domain ?r)))
      = Tcp_kSuccess" by code_simp
  have z: "0 \<notin> set (tq_domain ?r)" by code_simp
  have l: "length (tq_address ?r) = 16" by simp
  have "EncodeTcpProxyRequest sample_hmac sample_session 5 7 4 (tq_address ?r) 443 (Some (tq_domain ?r)) =
      (Tcp_kSuccess, snd (EncodeTcpProxyRequest sample_hmac sample_session 5 7 4 (tq_address ?r) 443 (Some (tq_domain ?r))))"
    using ok by (rule eq_snd)
  then show ?thesis
    unfolding Let_def
    using tcp_codec_exact [OF wf l, THEN conjunct1, THEN iffD2] z by simp
qed

text \<open>
  C25. No frame can be replayed elsewhere: a byte string that one of the four decoders
  accepts is accepted by no other of them, for no other sequence number and in no session
  with another nonce.
\<close>

theorem proxy_frames_separated:
  assumes "wf_session s" and "wf_session s'"
    and "accepts hmac c s q f" and "accepts hmac c' s' q' f"
  shows "c = c' \<and> q = q' \<and> ps_nonce s = ps_nonce s'"
proof -
  have m: "length (frame_magic c) = 4" "length (frame_magic c') = 4"
    by (simp_all add: frame_magic_def)
  from accepts_frame [OF assms(1,3)] accepts_frame [OF assms(2,4)] obtain p p' where
    "auth_frame hmac (frame_magic c) s (frame_kind c) q p = Some f"
    "auth_frame hmac (frame_magic c') s' (frame_kind c') q' p' = Some f" by blast
  from auth_frame_unique [OF this assms(1,2) m]
  show ?thesis
    using kDnsMagic_neq_kTcpMagic
    by (cases c; cases c') (simp_all add: frame_magic_def frame_kind_def)
qed

theorem proxy_frames_separated_witness:
  "let f = snd (EncodeTcpProxyResponse sample_hmac sample_session 5 0 0) in
   accepts sample_hmac Tcp_Response sample_session 5 f \<and>
   \<not> accepts sample_hmac Tcp_Response sample_session 6 f \<and>
   \<not> accepts sample_hmac Dns_Response sample_session 5 f"
proof -
  let ?f = "snd (EncodeTcpProxyResponse sample_hmac sample_session 5 0 0)"
  have wf: "wf_session sample_session" by code_simp
  have ok: "accepts sample_hmac Tcp_Response sample_session 5 ?f" by code_simp
  have neq: "(5 :: u64) \<noteq> 6" "Tcp_Response \<noteq> Dns_Response" by simp_all
  show ?thesis
    unfolding Let_def using proxy_frames_separated [OF wf wf ok] ok neq by metis
qed

end
