(* ===== verification/ProxyServer.thy ===== *)
theory ProxyServer
  imports DnsBindings ProxyProtocol
begin

text \<open>
  \<open>src/native/hook/network/dns_proxy_server.cpp\<close>, \<open>tcp_proxy_server.cpp\<close> and
  \<open>dns_proxy_session.cpp\<close>: the decisions of the proxy process.  The resolver and the
  connector are the abstract classes \<open>DnsResolver\<close> and \<open>TcpConnector\<close>; a call is a function
  argument that gives the outcome, and the result of a handler records which call it made.
  The DNS handler changes the binding table, the TCP handler only reads it.

  The handlers are composed into a transition system over the binding table, the clock and
  the log of resolver answers.  The main result is its safety: every connection the proxy
  opens is to a port of the policy and either to an address of the policy or to an address
  that the resolver returned, within its time to live, for an allowed name that the same
  process asked for in the same session.
\<close>

section \<open>Definitions\<close>

subsection \<open>The DNS handler\<close>

type_synonym resolver = "bytes \<Rightarrow> u8 \<Rightarrow> u8 \<times> DnsProxyAddress list"

definition binding_family :: "u8 \<Rightarrow> u8" where
  "binding_family family =
     (if family = DnsProxyAddressFamily_kIpv4 then AddressFamily_kIpv4 else AddressFamily_kIpv6)"

definition binding_address_length :: "u8 \<Rightarrow> nat" where
  "binding_address_length family = (if family = AddressFamily_kIpv4 then 4 else 16)"

definition answer_key :: "DnsProxySession \<Rightarrow> DnsProxyRequest \<Rightarrow> DnsProxyAddress \<Rightarrow> BindingKey" where
  "answer_key session request address =
     (let family = binding_family (da_family address)
      in \<lparr>bk_session = ps_nonce session, bk_process = dq_process request,
          bk_domain = Some (dq_domain request), bk_family = family,
          bk_address = Some (take (binding_address_length family) (da_address address)),
          bk_port = dq_port request\<rparr>)"

definition ttl_milliseconds :: "DnsProxyAddress \<Rightarrow> u64" where
  "ttl_milliseconds address = ucast (da_ttl address) * 1000"

text \<open>The loop over the answers: \<open>False\<close> is the early exit after a failed \<open>Upsert\<close>.\<close>

fun BindAnswers ::
  "DnsProxySession \<Rightarrow> DnsProxyRequest \<Rightarrow> u64 \<Rightarrow> DnsProxyAddress list \<Rightarrow> BindingEntry list \<Rightarrow>
     bool \<times> BindingEntry list" where
  "BindAnswers session request now [] bindings = (True, bindings)"
| "BindAnswers session request now (address # rest) bindings =
     (let (status, bindings) =
            BindingTable_Upsert bindings (answer_key session request address) now
              (ttl_milliseconds address)
      in if status \<noteq> Binding_kSuccess then (False, bindings)
         else BindAnswers session request now rest bindings)"

definition DnsRequestAllowed :: "NetworkPolicy \<Rightarrow> DnsProxyRequest \<Rightarrow> bool" where
  "DnsRequestAllowed policy request =
     (\<not> (policy_mode policy \<noteq> Mode_kAllowList \<or>
         DecideDomain policy (Some (dq_domain request)) \<noteq> Decision_kAllow \<or>
         (dq_port request \<noteq> 0 \<and> DecidePort policy (dq_port request) \<noteq> Decision_kAllow)))"

text \<open>
  The result: the status, the encoded response, the table afterwards and the call of
  \<open>Resolve\<close>, if one was made.
\<close>

definition ProcessDnsProxyRequest ::
  "hmac_fn \<Rightarrow> DnsProxySession \<Rightarrow> NetworkPolicy \<Rightarrow> u64 \<Rightarrow> byte_ptr \<Rightarrow> resolver \<Rightarrow>
     BindingEntry list \<Rightarrow> u64 \<Rightarrow> (DnsProxyStatus \<times> bytes) \<times> BindingEntry list \<times> (bytes \<times> u8) option" where
  "ProcessDnsProxyRequest hmac session policy expected_sequence ptr resolve bindings now =
     (let (decode_status, request) = DecodeDnsProxyRequest hmac session ptr expected_sequence
      in if decode_status \<noteq> Dns_kSuccess then ((decode_status, []), bindings, None)
         else if \<not> DnsRequestAllowed policy request
         then (EncodeDnsProxyResponse hmac session expected_sequence DnsProxyResult_kDenied [],
               bindings, None)
         else
           let (result, addresses) = resolve (dq_domain request) (dq_family request);
               query = Some (dq_domain request, dq_family request)
           in if result \<noteq> DnsProxyResult_kSuccess
              then (EncodeDnsProxyResponse hmac session expected_sequence result [], bindings, query)
              else if addresses = [] \<or> kDnsProxyMaximumAddressRecords < length addresses
              then (EncodeDnsProxyResponse hmac session expected_sequence DnsProxyResult_kFailure [],
                    bindings, query)
              else
                let (bound, bindings) = BindAnswers session request now addresses bindings
                in if bound
                   then (EncodeDnsProxyResponse hmac session expected_sequence result addresses,
                         bindings, query)
                   else (EncodeDnsProxyResponse hmac session expected_sequence
                           DnsProxyResult_kFailure [], bindings, query))"

subsection \<open>The TCP handler\<close>

type_synonym connector = "u8 \<Rightarrow> bytes \<Rightarrow> u16 \<Rightarrow> bool \<times> u32"

definition request_key :: "DnsProxySession \<Rightarrow> TcpProxyRequest \<Rightarrow> u16 \<Rightarrow> BindingKey" where
  "request_key session request port =
     (let family = binding_family (tq_family request)
      in \<lparr>bk_session = ps_nonce session, bk_process = tq_process request,
          bk_domain = Some (tq_domain request), bk_family = family,
          bk_address = Some (take (binding_address_length family) (tq_address request)),
          bk_port = port\<rparr>)"

definition TcpIsAuthorized ::
  "DnsProxySession \<Rightarrow> NetworkPolicy \<Rightarrow> BindingEntry list \<Rightarrow> TcpProxyRequest \<Rightarrow> u64 \<Rightarrow> bool" where
  "TcpIsAuthorized session policy bindings request now =
     (if policy_mode policy \<noteq> Mode_kAllowList \<or>
         DecidePort policy (tq_port request) \<noteq> Decision_kAllow
      then False
      else
        let family = binding_family (tq_family request);
            address_length = binding_address_length family
        in if DecideAddress policy family (Some (take address_length (tq_address request))) =
              Decision_kAllow
           then True
           else if tq_domain request = [] \<or>
                   DecideDomain policy (Some (tq_domain request)) \<noteq> Decision_kAllow
           then False
           else if BindingTable_IsAuthorized bindings
                     (request_key session request (tq_port request)) now
           then True
           else BindingTable_IsAuthorized bindings (request_key session request 0) now)"

text \<open>The result: the status, the encoded response and the call of \<open>Connect\<close>, if one was made.\<close>

definition ProcessTcpProxyRequest ::
  "hmac_fn \<Rightarrow> DnsProxySession \<Rightarrow> NetworkPolicy \<Rightarrow> BindingEntry list \<Rightarrow> u64 \<Rightarrow> byte_ptr \<Rightarrow> u64 \<Rightarrow>
     connector \<Rightarrow> (TcpProxyStatus \<times> bytes) \<times> (u8 \<times> bytes \<times> u16) option" where
  "ProcessTcpProxyRequest hmac session policy bindings expected_sequence ptr now connect =
     (let (decode_status, request) = DecodeTcpProxyRequest hmac session ptr expected_sequence
      in if decode_status \<noteq> Tcp_kSuccess then ((decode_status, []), None)
         else if \<not> TcpIsAuthorized session policy bindings request now
         then (EncodeTcpProxyResponse hmac session expected_sequence TcpProxyResult_kDenied 0, None)
         else
           let family = binding_family (tq_family request);
               address = take (binding_address_length family) (tq_address request);
               (connected, network_error) = connect family address (tq_port request);
               call = Some (family, address, tq_port request)
           in if connected \<and> network_error = 0
              then (EncodeTcpProxyResponse hmac session expected_sequence
                      TcpProxyResult_kConnected 0, call)
              else if \<not> connected \<and> network_error \<noteq> 0
              then (EncodeTcpProxyResponse hmac session expected_sequence
                      TcpProxyResult_kConnectFailed network_error, call)
              else (EncodeTcpProxyResponse hmac session expected_sequence
                      TcpProxyResult_kFailure 0, call))"

subsection \<open>The DNS session loop\<close>

datatype TransportRead = Read_kFrame bytes | Read_kEof | Read_kFailure

datatype DnsProxySessionStatus =
    Session_kCompleted
  | Session_kTransportFailed
  | Session_kProtocolFailed
  | Session_kLimitReached

text \<open>What the outside world does in one round of the loop.\<close>

record session_input =
  si_read :: TransportRead
  si_resolve :: resolver
  si_now :: u64
  si_write :: bool

text \<open>
  \<open>remaining\<close> counts \<open>maximum_requests - processed\<close>.  The last component of the result
  lists the frames that were processed with success: the sequence, the request and the
  response.
\<close>

fun DnsSessionLoop ::
  "hmac_fn \<Rightarrow> DnsProxySession \<Rightarrow> NetworkPolicy \<Rightarrow> (nat \<Rightarrow> session_input) \<Rightarrow> u64 \<Rightarrow> nat \<Rightarrow> nat \<Rightarrow>
     BindingEntry list \<Rightarrow> DnsProxySessionStatus \<times> BindingEntry list \<times> (u64 \<times> bytes \<times> bytes) list" where
  "DnsSessionLoop hmac session policy input sequence processed 0 bindings =
     (Session_kLimitReached, bindings, [])"
| "DnsSessionLoop hmac session policy input sequence processed (Suc remaining) bindings =
     (case si_read (input processed) of
        Read_kEof \<Rightarrow> (Session_kCompleted, bindings, [])
      | Read_kFailure \<Rightarrow> (Session_kTransportFailed, bindings, [])
      | Read_kFrame request \<Rightarrow>
          if request = [] then (Session_kTransportFailed, bindings, [])
          else
            let ((status, response), bindings, query) =
                  ProcessDnsProxyRequest hmac session policy sequence (Some request)
                    (si_resolve (input processed)) bindings (si_now (input processed))
            in if status \<noteq> Dns_kSuccess then (Session_kProtocolFailed, bindings, [])
               else if response = [] \<or> \<not> si_write (input processed)
               then (Session_kTransportFailed, bindings, [(sequence, request, response)])
               else if sequence = 0xFFFFFFFFFFFFFFFF
               then (Session_kLimitReached, bindings, [(sequence, request, response)])
               else
                 let (final, bindings, log) =
                       DnsSessionLoop hmac session policy input (sequence + 1) (Suc processed)
                         remaining bindings
                 in (final, bindings, (sequence, request, response) # log))"

definition RunDnsProxySession ::
  "hmac_fn \<Rightarrow> DnsProxySession \<Rightarrow> NetworkPolicy \<Rightarrow> (nat \<Rightarrow> session_input) \<Rightarrow> BindingEntry list \<Rightarrow> nat \<Rightarrow>
     DnsProxySessionStatus \<times> BindingEntry list \<times> (u64 \<times> bytes \<times> bytes) list" where
  "RunDnsProxySession hmac session policy input bindings maximum_requests =
     (if maximum_requests = 0 then (Session_kLimitReached, bindings, [])
      else DnsSessionLoop hmac session policy input 1 0 maximum_requests bindings)"

subsection \<open>Specification\<close>

text \<open>
  The running proxy: the binding table, the time of the last step and the answers the
  resolver gave so far.  An answer records who asked for which name and port, the address
  and the time and time to live in milliseconds.
\<close>

datatype answer = Answer (an_process: u32) (an_domain: bytes) (an_port: u16) (an_family: u8)
  (an_address: bytes) (an_time: u64) (an_ttl: u64)

record proxy_state =
  px_bindings :: "BindingEntry list"
  px_clock :: u64
  px_answers :: "answer set"

definition answer_of :: "DnsProxyRequest \<Rightarrow> u64 \<Rightarrow> DnsProxyAddress \<Rightarrow> answer" where
  "answer_of r now a =
     Answer (dq_process r) (dq_domain r) (dq_port r) (binding_family (da_family a))
       (take (binding_address_length (binding_family (da_family a))) (da_address a)) now
       (ttl_milliseconds a)"

text \<open>The answers a resolver call adds: none unless the handler asked and got a result.\<close>

definition new_answers ::
  "resolver \<Rightarrow> DnsProxyRequest \<Rightarrow> u64 \<Rightarrow> (bytes \<times> u8) option \<Rightarrow> answer set" where
  "new_answers resolve r now query =
     (case query of
        None \<Rightarrow> {}
      | Some (name, family) \<Rightarrow>
          if fst (resolve name family) = DnsProxyResult_kSuccess
          then answer_of r now ` set (snd (resolve name family)) else {})"

inductive proxy_step :: "hmac_fn \<Rightarrow> DnsProxySession \<Rightarrow> NetworkPolicy \<Rightarrow> proxy_state \<Rightarrow> proxy_state \<Rightarrow> bool"
  for hmac session policy where
  dns: "px_clock st \<le> now \<Longrightarrow>
    ProcessDnsProxyRequest hmac session policy sequence (Some frame) resolve (px_bindings st) now =
      (response, bindings, query) \<Longrightarrow>
    proxy_step hmac session policy st
      (st\<lparr>px_bindings := bindings, px_clock := now,
          px_answers := px_answers st \<union>
            new_answers resolve (snd (DecodeDnsProxyRequest hmac session (Some frame) sequence)) now query\<rparr>)"
| tick: "px_clock st \<le> now \<Longrightarrow> proxy_step hmac session policy st (st\<lparr>px_clock := now\<rparr>)"

inductive proxy_reachable :: "hmac_fn \<Rightarrow> DnsProxySession \<Rightarrow> NetworkPolicy \<Rightarrow> proxy_state \<Rightarrow> bool"
  for hmac session policy where
  start: "DnsBindingTable_Create capacity = (Binding_kSuccess, Some bindings) \<Longrightarrow>
    proxy_reachable hmac session policy \<lparr>px_bindings = bindings, px_clock = now, px_answers = {}\<rparr>"
| step: "proxy_reachable hmac session policy st \<Longrightarrow> proxy_step hmac session policy st st' \<Longrightarrow>
    proxy_reachable hmac session policy st'"

text \<open>Every unexpired binding comes from an answer of the resolver.\<close>

definition answered :: "DnsProxySession \<Rightarrow> answer set \<Rightarrow> binding \<times> u64 \<Rightarrow> bool" where
  "answered session as bx =
     (\<exists>a \<in> as. fst bx = Binding (ps_nonce session) (an_process a) (an_domain a) (an_family a)
         (an_address a) (an_port a) \<and>
       unat (snd bx) = unat (an_time a) + unat (an_ttl a))"

definition proxy_inv :: "DnsProxySession \<Rightarrow> proxy_state \<Rightarrow> bool" where
  "proxy_inv session st =
     (table_inv (px_bindings st) \<and>
      (\<forall>t. px_clock st \<le> t \<longrightarrow>
         (\<forall>bx \<in> live_bindings (px_bindings st) t. answered session (px_answers st) bx)))"

text \<open>A frame of the log that was processed in some round.\<close>

definition handled ::
  "hmac_fn \<Rightarrow> DnsProxySession \<Rightarrow> NetworkPolicy \<Rightarrow> (nat \<Rightarrow> session_input) \<Rightarrow> u64 \<times> bytes \<times> bytes \<Rightarrow> bool" where
  "handled hmac s policy input x =
     (\<exists>i es es' query. ProcessDnsProxyRequest hmac s policy (fst x) (Some (fst (snd x)))
        (si_resolve (input i)) es (si_now (input i)) = ((Dns_kSuccess, snd (snd x)), es', query))"

definition sample_policy :: NetworkPolicy where
  "sample_policy = \<lparr>policy_mode = Mode_kAllowList,
     policy_impl = Some \<lparr>domains = [\<lparr>ascii_domain = ascii ''ok.io'', wildcard = False\<rparr>], addresses = [],
       ports = [\<lparr>port_start = 443, port_end = 443\<rparr>]\<rparr>\<rparr>"

definition sample_address :: DnsProxyAddress where
  "sample_address = \<lparr>da_family = 4, da_address = [10, 0, 0, 1, 0, 0, 0, 0, 0, 0, 0, 0, 0, 0, 0, 0], da_ttl = 60\<rparr>"

definition sample_resolve :: resolver where
  "sample_resolve name family = (0, [sample_address])"

definition sample_dns_frame :: bytes where
  "sample_dns_frame = snd (EncodeDnsProxyRequest sample_hmac sample_session 1 7 (Some (ascii ''ok.io'')) 443 4)"

definition sample_tcp_frame :: bytes where
  "sample_tcp_frame = snd (EncodeTcpProxyRequest sample_hmac sample_session 1 7 4 (da_address sample_address) 443
     (Some (ascii ''ok.io'')))"

definition sample_dns_run ::
  "(DnsProxyStatus \<times> bytes) \<times> BindingEntry list \<times> (bytes \<times> u8) option" where
  "sample_dns_run = ProcessDnsProxyRequest sample_hmac sample_session sample_policy 1 (Some sample_dns_frame)
     sample_resolve [empty_entry] 100"

section \<open>The invariant of the proxy\<close>

lemma upsert_live:
  assumes inv: "table_inv es" and up: "BindingTable_Upsert es key now ttl = (status, es')" and t: "now \<le> t"
    and p: "p \<in> live_bindings es' t"
  shows "p \<in> live_bindings es t \<or>
    (fst p = key_binding key \<and> unat (snd p) = unat now + unat ttl \<and> status = Binding_kSuccess)"
proof (cases "status = Binding_kSuccess")
  case True
  then have "ttl \<noteq> 0" "\<not> 0xFFFFFFFFFFFFFFFF - now < ttl"
    using up by (simp_all add: BindingTable_Upsert_def split: if_splits)
  then show ?thesis
    using binding_table.live_upsert_subset [OF inv up t] p expiry_no_wrap True by fastforce
next
  case False
  then show ?thesis using binding_table.live_failure [OF inv up False t] p by simp
qed

lemma BindAnswers_live:
  assumes "table_inv es" and "BindAnswers s r now as es = (bound, es')"
  shows "table_inv es' \<and> (\<forall>t p. now \<le> t \<longrightarrow> p \<in> live_bindings es' t \<longrightarrow>
     p \<in> live_bindings es t \<or>
     (\<exists>a \<in> set as. fst p = key_binding (answer_key s r a) \<and>
        unat (snd p) = unat now + unat (ttl_milliseconds a)))"
  using assms
proof (induction as arbitrary: es)
  case (Cons a as)
  obtain status es1 where up: "BindingTable_Upsert es (answer_key s r a) now (ttl_milliseconds a) = (status, es1)"
    by fastforce
  have inv1: "table_inv es1" using binding_table.inv_upsert [OF Cons.prems(1) up] .
  show ?case
  proof (cases "status = Binding_kSuccess")
    case True
    then have "BindAnswers s r now as es1 = (bound, es')" using Cons.prems(2) up by simp
    from Cons.IH [OF inv1 this] upsert_live [OF Cons.prems(1) up]
    show ?thesis by (metis list.set_intros)
  next
    case False
    then have "es' = es1" using Cons.prems(2) up by simp
    then show ?thesis using inv1 upsert_live [OF Cons.prems(1) up] False by blast
  qed
qed simp

lemma key_binding_answer:
  "0 \<notin> set (dq_domain r) \<Longrightarrow> key_binding (answer_key s r a) =
   Binding (ps_nonce s) (an_process (answer_of r now a)) (an_domain (answer_of r now a))
     (an_family (answer_of r now a)) (an_address (answer_of r now a)) (an_port (answer_of r now a))"
  by (simp add: key_binding_def answer_key_def answer_of_def Let_def c_str_id)

lemma decoded_domain:
  assumes "wf_session s" "DecodeDnsProxyRequest hmac s (Some f) q = (Dns_kSuccess, r)"
  shows "0 \<notin> set (dq_domain r)"
  using assms domain_okD by (auto simp: DecodeDnsProxyRequest_iff wf_dns_request_def)

text \<open>One run of the DNS handler: the table stays well-formed and gains only answered bindings.\<close>

lemma ProcessDnsProxyRequest_live:
  assumes wf: "wf_session s" and inv: "table_inv es"
    and run: "ProcessDnsProxyRequest hmac s policy q (Some f) resolve es now = (response, es', query)"
  shows "table_inv es' \<and> (\<forall>t p. now \<le> t \<longrightarrow> p \<in> live_bindings es' t \<longrightarrow>
     p \<in> live_bindings es t \<or>
     answered s (new_answers resolve (snd (DecodeDnsProxyRequest hmac s (Some f) q)) now query) p)"
proof -
  obtain status r where dec: "DecodeDnsProxyRequest hmac s (Some f) q = (status, r)" by fastforce
  obtain result as where res: "resolve (dq_domain r) (dq_family r) = (result, as)" by fastforce
  obtain bound es1 where bind: "BindAnswers s r now as es = (bound, es1)" by fastforce
  show ?thesis
  proof (cases "status = Dns_kSuccess \<and> DnsRequestAllowed policy r \<and> result = 0 \<and> as \<noteq> [] \<and> length as \<le> 16")
    case True
    then have es: "es' = es1" and query: "query = Some (dq_domain r, dq_family r)"
      using run by (simp_all add: ProcessDnsProxyRequest_def dec res bind Let_def split: if_splits)
    have z: "0 \<notin> set (dq_domain r)" using decoded_domain [OF wf] dec True by blast
    have "answered s (new_answers resolve r now query) p"
      if "a \<in> set as" "fst p = key_binding (answer_key s r a)"
        "unat (snd p) = unat now + unat (ttl_milliseconds a)" for p a
      unfolding answered_def
      using that key_binding_answer [OF z, of s a now] True
      by (intro bexI [of _ "answer_of r now a"]) (auto simp: new_answers_def query res answer_of_def)
    then show ?thesis
      using BindAnswers_live [OF inv bind] unfolding es dec snd_conv by blast
  next
    case False
    then have "es' = es"
      using run by (auto simp: ProcessDnsProxyRequest_def dec res Let_def split: if_splits)
    then show ?thesis using inv by simp
  qed
qed

lemma answered_mono: "answered s A p \<Longrightarrow> A \<subseteq> B \<Longrightarrow> answered s B p"
  unfolding answered_def by blast

lemma proxy_step_inv:
  assumes "proxy_step hmac s policy st st'" "wf_session s" "proxy_inv s st"
  shows "proxy_inv s st'"
  using assms(1)
proof cases
  case (dns now q f resolve response bindings query)
  let ?new = "new_answers resolve (snd (DecodeDnsProxyRequest hmac s (Some f) q)) now query"
  have inv: "table_inv (px_bindings st)"
    and live: "\<And>t bx. px_clock st \<le> t \<Longrightarrow> bx \<in> live_bindings (px_bindings st) t \<Longrightarrow>
      answered s (px_answers st) bx"
    using assms(3) by (auto simp: proxy_inv_def)
  note new = ProcessDnsProxyRequest_live [OF assms(2) inv dns(3)]
  have "answered s (px_answers st \<union> ?new) bx" if "now \<le> t" "bx \<in> live_bindings bindings t" for t bx
  proof -
    have t: "px_clock st \<le> t" using dns(2) that(1) by (rule order_trans)
    from new that consider "bx \<in> live_bindings (px_bindings st) t" | "answered s ?new bx" by blast
    then show ?thesis using live [OF t] answered_mono by cases blast+
  qed
  then show ?thesis using new by (simp add: proxy_inv_def dns(1))
next
  case (tick now)
  have "px_clock st \<le> t" if "now \<le> t" for t using tick(2) that by (rule order_trans)
  then show ?thesis using assms(3) by (simp add: proxy_inv_def tick(1)) blast
qed

lemma proxy_reachable_inv:
  assumes "proxy_reachable hmac s policy st" "wf_session s"
  shows "proxy_inv s st"
  using assms(1)
proof induction
  case (start capacity bindings now)
  then show ?case using table_inv_create [OF start] by (simp add: proxy_inv_def)
next
  case (step st st')
  then show ?case using proxy_step_inv assms(2) by blast
qed

section \<open>What the proxy connects to\<close>

lemma ProcessTcpProxyRequest_call:
  assumes "ProcessTcpProxyRequest hmac s policy es q (Some f) now connect = (response, Some (family, address, port))"
  shows "\<exists>rq. DecodeTcpProxyRequest hmac s (Some f) q = (Tcp_kSuccess, rq) \<and> TcpIsAuthorized s policy es rq now \<and>
    family = binding_family (tq_family rq) \<and>
    address = take (binding_address_length family) (tq_address rq) \<and> port = tq_port rq"
  using assms
  by (cases "DecodeTcpProxyRequest hmac s (Some f) q")
    (auto simp: ProcessTcpProxyRequest_def Let_def split: if_splits prod.splits)

lemma TcpIsAuthorized_iff:
  "TcpIsAuthorized s policy es rq now \<longleftrightarrow>
    policy_mode policy = Mode_kAllowList \<and> DecidePort policy (tq_port rq) = Decision_kAllow \<and>
    (DecideAddress policy (binding_family (tq_family rq))
       (Some (take (binding_address_length (binding_family (tq_family rq))) (tq_address rq))) = Decision_kAllow \<or>
     tq_domain rq \<noteq> [] \<and> DecideDomain policy (Some (tq_domain rq)) = Decision_kAllow \<and>
     (\<exists>p \<in> {0, tq_port rq}. BindingTable_IsAuthorized es (request_key s rq p) now))"
  by (auto simp: TcpIsAuthorized_def Let_def)

lemma decoded_tcp_domain:
  assumes "wf_session s" "DecodeTcpProxyRequest hmac s (Some f) q = (Tcp_kSuccess, rq)"
  shows "0 \<notin> set (tq_domain rq)"
  using assms domain_okD by (auto simp: DecodeTcpProxyRequest_iff wf_tcp_request_def)

lemma live_bindings_unexpired: "(b, x) \<in> live_bindings es t \<Longrightarrow> t < x"
  by (auto simp: live_bindings_def)

lemma authorized_answered:
  assumes inv: "proxy_inv s st" and t: "px_clock st \<le> now"
    and auth: "BindingTable_IsAuthorized (px_bindings st) (request_key s rq p) now"
    and z: "0 \<notin> set (tq_domain rq)"
  shows "\<exists>a \<in> px_answers st. an_process a = tq_process rq \<and> an_domain a = tq_domain rq \<and> an_port a = p \<and>
    an_family a = binding_family (tq_family rq) \<and>
    an_address a = take (binding_address_length (binding_family (tq_family rq))) (tq_address rq) \<and>
    unat now < unat (an_time a) + unat (an_ttl a)"
proof -
  obtain x where x: "(key_binding (request_key s rq p), x) \<in> live_bindings (px_bindings st) now"
    using auth by (auto simp: binding_table.authorized_live)
  then have "now < x" by (rule live_bindings_unexpired)
  then have "unat now < unat x" by (simp add: word_less_nat_alt)
  moreover have "answered s (px_answers st) (key_binding (request_key s rq p), x)"
    using inv t x by (auto simp: proxy_inv_def)
  ultimately show ?thesis
    using z by (auto simp: answered_def key_binding_def request_key_def Let_def c_str_id)
qed

lemma connect_justified:
  assumes "wf_session s" and "proxy_reachable hmac s policy st" and "px_clock st \<le> now"
    and "ProcessTcpProxyRequest hmac s policy (px_bindings st) q (Some f) now connect =
      (response, Some (family, address, port))"
  shows "\<exists>rq. DecodeTcpProxyRequest hmac s (Some f) q = (Tcp_kSuccess, rq) \<and>
    policy_mode policy = Mode_kAllowList \<and> port = tq_port rq \<and> DecidePort policy port = Decision_kAllow \<and>
    (DecideAddress policy family (Some address) = Decision_kAllow \<or>
     DecideDomain policy (Some (tq_domain rq)) = Decision_kAllow \<and>
     (\<exists>a \<in> px_answers st. an_process a = tq_process rq \<and> an_domain a = tq_domain rq \<and>
        an_family a = family \<and> an_address a = address \<and> an_port a \<in> {0, port} \<and>
        unat now < unat (an_time a) + unat (an_ttl a)))"
proof -
  obtain rq where rq: "DecodeTcpProxyRequest hmac s (Some f) q = (Tcp_kSuccess, rq)"
    and auth: "TcpIsAuthorized s policy (px_bindings st) rq now"
    and fields: "family = binding_family (tq_family rq)"
      "address = take (binding_address_length family) (tq_address rq)" "port = tq_port rq"
    using ProcessTcpProxyRequest_call [OF assms(4)] by blast
  note inv = proxy_reachable_inv [OF assms(2,1)]
  have "\<exists>a \<in> px_answers st. an_process a = tq_process rq \<and> an_domain a = tq_domain rq \<and>
        an_family a = family \<and> an_address a = address \<and> an_port a \<in> {0, port} \<and>
        unat now < unat (an_time a) + unat (an_ttl a)"
    if "p \<in> {0, port}" "BindingTable_IsAuthorized (px_bindings st) (request_key s rq p) now" for p
    using authorized_answered [OF inv assms(3) that(2) decoded_tcp_domain [OF assms(1) rq]] that(1) fields by blast
  then show ?thesis
    using rq auth fields unfolding TcpIsAuthorized_iff by blast
qed

text \<open>
  C1. Safety of the proxy.  Whatever frames arrive, in any order and at any times, every
  \<open>Connect\<close> the proxy performs answers an authenticated request in allow-list mode for a port
  of the policy, and the address is either allowed by an address rule or was returned by
  the resolver, not longer ago than its time to live, for an allowed name that the same
  process had asked for (for this port or for no particular port).
\<close>

theorem proxy_connect_safe:
  assumes "wf_session s" and "proxy_reachable hmac s policy st" and "px_clock st \<le> now"
    and "ProcessTcpProxyRequest hmac s policy (px_bindings st) q (Some f) now connect =
      (response, Some (family, address, port))"
  shows "\<exists>rq. DecodeTcpProxyRequest hmac s (Some f) q = (Tcp_kSuccess, rq) \<and>
    policy_mode policy = Mode_kAllowList \<and> port = tq_port rq \<and> DecidePort policy port = Decision_kAllow \<and>
    (DecideAddress policy family (Some address) = Decision_kAllow \<or>
     DecideDomain policy (Some (tq_domain rq)) = Decision_kAllow \<and>
     (\<exists>a \<in> px_answers st. an_process a = tq_process rq \<and> an_domain a = tq_domain rq \<and>
        an_family a = family \<and> an_address a = address \<and> an_port a \<in> {0, port} \<and>
        unat now < unat (an_time a) + unat (an_ttl a)))"
  by (rule connect_justified [OF assms])

section \<open>What the DNS handler promises\<close>

lemma BindAnswers_authorizes:
  assumes "table_inv es" and "BindAnswers s r now as es = (True, es')"
  shows "\<forall>k. (BindingTable_IsAuthorized es k now \<longrightarrow> BindingTable_IsAuthorized es' k now) \<and>
    (k \<in> answer_key s r ` set as \<longrightarrow> BindingTable_IsAuthorized es' k now)"
  using assms
proof (induction as arbitrary: es)
  case (Cons a as)
  obtain status es1 where up: "BindingTable_Upsert es (answer_key s r a) now (ttl_milliseconds a) = (status, es1)"
    by fastforce
  have ok: "status = Binding_kSuccess" and rest: "BindAnswers s r now as es1 = (True, es')"
    using Cons.prems(2) up by (simp_all split: if_splits)
  note up = up [unfolded ok]
  have ttl: "ttl_milliseconds a \<noteq> 0" "\<not> 0xFFFFFFFFFFFFFFFF - now < ttl_milliseconds a"
    and key: "ValidateKey (answer_key s r a) \<noteq> None"
    using up by (simp_all add: BindingTable_Upsert_def split: if_splits)
  have valid: "BindingTable_IsAuthorized es k now \<Longrightarrow> ValidateKey k \<noteq> None" for k
    by (simp add: binding_table.authorized_live)
  note after = binding_table.authorized_after [OF Cons.prems(1) up order_refl]
  have "BindingTable_IsAuthorized es1 (answer_key s r a) now"
    "\<And>k. BindingTable_IsAuthorized es k now \<Longrightarrow> BindingTable_IsAuthorized es1 k now"
    using expiry_no_wrap(1) [OF ttl] key valid by (simp_all add: after)
  then show ?case
    using Cons.IH [OF binding_table.inv_upsert [OF Cons.prems(1) up] rest] by auto
qed simp

lemma bound_answer_authorized:
  assumes "table_inv es" "BindAnswers s r now as es = (True, es')" "DnsRequestAllowed policy r" "dq_domain r \<noteq> []"
    and "a \<in> set as" "dq_port r \<in> {0, port} \<and> DecidePort policy port = Decision_kAllow"
  shows "TcpIsAuthorized s policy es'
    \<lparr>tq_sequence = n, tq_process = dq_process r, tq_family = da_family a,
     tq_address = da_address a, tq_port = port, tq_domain = dq_domain r\<rparr> now"
proof -
  have "answer_key s r a = request_key s \<lparr>tq_sequence = n, tq_process = dq_process r, tq_family = da_family a,
        tq_address = da_address a, tq_port = port, tq_domain = dq_domain r\<rparr> (dq_port r)"
    by (simp add: answer_key_def request_key_def)
  then show ?thesis
    using BindAnswers_authorizes [OF assms(1,2)] assms(3-6) by (auto simp: TcpIsAuthorized_iff DnsRequestAllowed_def)
qed

lemma ProcessDnsProxyRequest_cases:
  assumes "DecodeDnsProxyRequest hmac s ptr q = (Dns_kSuccess, r)"
    and "resolve (dq_domain r) (dq_family r) = (result, as)" and "BindAnswers s r now as es = (bound, es1)"
  shows "ProcessDnsProxyRequest hmac s policy q ptr resolve es now =
    (if \<not> DnsRequestAllowed policy r then (EncodeDnsProxyResponse hmac s q 1 [], es, None)
     else if result \<noteq> 0 then (EncodeDnsProxyResponse hmac s q result [], es, Some (dq_domain r, dq_family r))
     else if as = [] \<or> 16 < length as
     then (EncodeDnsProxyResponse hmac s q 3 [], es, Some (dq_domain r, dq_family r))
     else (if bound then EncodeDnsProxyResponse hmac s q 0 as else EncodeDnsProxyResponse hmac s q 3 [],
           es1, Some (dq_domain r, dq_family r)))"
  using assms by (simp add: ProcessDnsProxyRequest_def Let_def)

lemma response_roundtrip:
  assumes "wf_session s" "list_all (\<lambda>a. length (da_address a) = 16) as"
    and "EncodeDnsProxyResponse hmac s q res as = (Dns_kSuccess, g)"
  shows "DecodeDnsProxyResponse hmac s (Some g) q =
    (Dns_kSuccess, \<lparr>dr_sequence = q, dr_result = res, dr_addresses = as\<rparr>)"
  using assms(3) unfolding EncodeDnsProxyResponse_eq [OF assms(1,2) refl] DecodeDnsProxyResponse_iff [OF assms(1)]
  by (auto split: if_splits option.splits)

lemma ProcessDnsProxyRequest_response:
  assumes "wf_session s"
    and run: "ProcessDnsProxyRequest hmac s policy q (Some f) resolve es now = ((Dns_kSuccess, g), es', query)"
    and arrays: "\<forall>name family. list_all (\<lambda>a. length (da_address a) = 16) (snd (resolve name family))"
  shows "\<exists>r rs. DecodeDnsProxyRequest hmac s (Some f) q = (Dns_kSuccess, r) \<and>
    DecodeDnsProxyResponse hmac s (Some g) q = (Dns_kSuccess, rs) \<and>
    (dr_result rs = 0 \<longrightarrow> DnsRequestAllowed policy r \<and>
       resolve (dq_domain r) (dq_family r) = (0, dr_addresses rs) \<and>
       BindAnswers s r now (dr_addresses rs) es = (True, es'))"
proof -
  obtain status r where dec: "DecodeDnsProxyRequest hmac s (Some f) q = (status, r)" by fastforce
  have ok: "status = Dns_kSuccess"
    using run by (auto simp: ProcessDnsProxyRequest_def dec Let_def split: if_splits)
  obtain result as where res: "resolve (dq_domain r) (dq_family r) = (result, as)" by fastforce
  obtain bound es1 where bind: "BindAnswers s r now as es = (bound, es1)" by fastforce
  have as: "list_all (\<lambda>a. length (da_address a) = 16) as"
    using arrays [rule_format, of "dq_domain r" "dq_family r"] by (simp add: res)
  have none: "list_all (\<lambda>a. length (da_address a) = 16) ([] :: DnsProxyAddress list)" by simp
  note run' = run [unfolded ProcessDnsProxyRequest_cases [where resolve = resolve, OF dec [unfolded ok] res bind]]
  consider "EncodeDnsProxyResponse hmac s q 0 as = (Dns_kSuccess, g)" "DnsRequestAllowed policy r"
      "result = 0" "bound" "es' = es1"
    | n where "EncodeDnsProxyResponse hmac s q n [] = (Dns_kSuccess, g)" "n \<noteq> 0"
    using run' by (auto split: if_splits)
  then show ?thesis
  proof cases
    case 1
    then show ?thesis using response_roundtrip [OF assms(1) as 1(1)] dec ok res bind by fastforce
  next
    case 2
    then show ?thesis using response_roundtrip [OF assms(1) none 2(1)] dec ok by fastforce
  qed
qed

text \<open>
  C20. What the DNS handler answers can be connected to.  If a response with result
  \<open>kSuccess\<close> was sent, the request was allowed, the addresses are the resolver's answer for
  its name, and at that time the TCP handler authorises a request of the same process for
  each of the addresses and every allowed port the query covers.
\<close>

theorem dns_answer_connectable:
  assumes "wf_session s" and "table_inv es"
    and "ProcessDnsProxyRequest hmac s policy q (Some f) resolve es now = ((Dns_kSuccess, g), es', query)"
    and "\<forall>name family. list_all (\<lambda>a. length (da_address a) = 16) (snd (resolve name family))"
    and "DecodeDnsProxyResponse hmac s (Some g) q = (Dns_kSuccess, rs)" and "dr_result rs = DnsProxyResult_kSuccess"
  shows "\<exists>r. DecodeDnsProxyRequest hmac s (Some f) q = (Dns_kSuccess, r) \<and> DnsRequestAllowed policy r \<and>
    resolve (dq_domain r) (dq_family r) = (DnsProxyResult_kSuccess, dr_addresses rs) \<and>
    (\<forall>a \<in> set (dr_addresses rs). \<forall>port n.
       dq_port r \<in> {0, port} \<and> DecidePort policy port = Decision_kAllow \<longrightarrow>
       TcpIsAuthorized s policy es'
         \<lparr>tq_sequence = n, tq_process = dq_process r, tq_family = da_family a,
          tq_address = da_address a, tq_port = port, tq_domain = dq_domain r\<rparr> now)"
proof -
  obtain r where dec: "DecodeDnsProxyRequest hmac s (Some f) q = (Dns_kSuccess, r)"
    and allowed: "DnsRequestAllowed policy r"
    and res: "resolve (dq_domain r) (dq_family r) = (0, dr_addresses rs)"
    and bind: "BindAnswers s r now (dr_addresses rs) es = (True, es')"
    using ProcessDnsProxyRequest_response [OF assms(1,3,4)] assms(5,6) by auto
  have dom: "dq_domain r \<noteq> []"
    using dec assms(1) domain_okD by (auto simp: DecodeDnsProxyRequest_iff wf_dns_request_def)
  show ?thesis using bound_answer_authorized [OF assms(2) bind allowed dom] dec allowed res by blast
qed

section \<open>The session loop\<close>

lemma decode_sequence_unique:
  assumes "wf_session s" "DecodeDnsProxyRequest hmac s (Some f) q = (Dns_kSuccess, r)"
    "DecodeDnsProxyRequest hmac s (Some f) q' = (Dns_kSuccess, r')"
  shows "q = q'"
proof -
  obtain x x' where "auth_frame hmac kDnsMagic s 1 q (dns_request_payload r x) = Some f"
    "auth_frame hmac kDnsMagic s 1 q' (dns_request_payload r' x') = Some f"
    using assms by (auto simp: DecodeDnsProxyRequest_iff)
  from auth_frame_unique [OF this assms(1,1)] show ?thesis by simp
qed

lemma handledI:
  "ProcessDnsProxyRequest hmac s policy q (Some request) (si_resolve (input i)) es (si_now (input i)) =
     ((Dns_kSuccess, response), es', query) \<Longrightarrow> handled hmac s policy input (q, request, response)"
  unfolding handled_def by auto

lemma u64_suc:
  fixes q :: u64
  assumes "q \<noteq> 0xFFFFFFFFFFFFFFFF"
  shows "unat (q + 1) = Suc (unat q)" "q + 1 \<noteq> 0"
proof -
  show "q + 1 \<noteq> 0"
  proof
    assume "q + 1 = 0"
    then have "q = - 1" by (simp add: eq_neg_iff_add_eq_0)
    then show False using assms by simp
  qed
  then show "unat (q + 1) = Suc (unat q)" by (simp add: unatSuc add.commute)
qed

lemma DnsSessionLoop_log:
  assumes "DnsSessionLoop hmac s policy input q processed n es = (final, es', log)" and "q \<noteq> 0"
  shows "length log \<le> n \<and> unat q + length log \<le> 2 ^ 64 \<and>
    map fst log = map (\<lambda>i. q + of_nat i) [0..<length log] \<and>
    list_all (handled hmac s policy input) log \<and>
    (final = Session_kCompleted \<longrightarrow> si_read (input (processed + length log)) = Read_kEof)"
  using assms
proof (induction n arbitrary: q processed es log)
  case 0
  have "unat q < 2 ^ 64" using unsigned_less [of q, where ?'a = nat] by simp
  then show ?case using 0 by auto
next
  case (Suc n)
  have q: "unat q < 2 ^ 64" using unsigned_less [of q, where ?'a = nat] by simp
  show ?case
  proof (cases "\<exists>request. si_read (input processed) = Read_kFrame request \<and> request \<noteq> []")
    case False
    then show ?thesis
      using Suc.prems(1) q by (auto split: TransportRead.splits)
  next
    case True
    then obtain request where rd: "si_read (input processed) = Read_kFrame request" "request \<noteq> []" by blast
    obtain status response es1 query where run:
      "ProcessDnsProxyRequest hmac s policy q (Some request) (si_resolve (input processed)) es (si_now (input processed)) =
         ((status, response), es1, query)" by (metis prod.exhaust)
    show ?thesis
    proof (cases "status = Dns_kSuccess \<and> response \<noteq> [] \<and> si_write (input processed) \<and> q \<noteq> 0xFFFFFFFFFFFFFFFF")
      case False
      then show ?thesis
        using Suc.prems(1) rd run q by (auto split: if_splits dest: handledI)
    next
      case True
      obtain log1 where rec: "DnsSessionLoop hmac s policy input (q + 1) (Suc processed) n es1 = (final, es', log1)"
        and log: "log = (q, request, response) # log1"
        using Suc.prems(1) rd run True by (auto split: prod.splits)
      have suc: "unat (q + 1) = Suc (unat q)" "q + 1 \<noteq> 0" using True u64_suc by blast+
      have IH: "length log1 \<le> n \<and> unat (q + 1) + length log1 \<le> 2 ^ 64 \<and>
        map fst log1 = map (\<lambda>i. q + 1 + of_nat i) [0..<length log1] \<and>
        list_all (handled hmac s policy input) log1 \<and>
        (final = Session_kCompleted \<longrightarrow> si_read (input (Suc processed + length log1)) = Read_kEof)"
        by (rule Suc.IH [OF rec suc(2)])
      have "map (\<lambda>i. q + of_nat i) [0..<length log] = q # map (\<lambda>i. q + 1 + of_nat i) [0..<length log1]"
        by (rule nth_equalityI) (auto simp: log nth_Cons' add.assoc [symmetric] simp del: upt_Suc split: nat.splits)
      then show ?thesis
        using IH suc run True by (auto simp: log intro: handledI)
    qed
  qed
qed

text \<open>
  C21. A DNS session answers its requests in order and each at most once.  The frames that
  were processed with success carry the sequence numbers 1, 2, 3, ... without wrap-around,
  there are at most \<open>maximum_requests\<close> of them, no frame was accepted twice, and every
  response is one the client accepts for that sequence number; the status \<open>kCompleted\<close>
  means that the transport ended right behind the last of them.
\<close>

theorem dns_session_in_order:
  assumes "wf_session s"
    and "RunDnsProxySession hmac s policy input es maximum_requests = (final, es', log)"
    and "\<forall>i name family. list_all (\<lambda>a. length (da_address a) = 16) (snd (si_resolve (input i) name family))"
  shows "length log \<le> maximum_requests \<and> length log < 2 ^ 64 \<and>
    map fst log = map of_nat [1..<Suc (length log)] \<and> distinct (map (\<lambda>x. fst (snd x)) log) \<and>
    (\<forall>(q, request, response) \<in> set log.
       (\<exists>r. DecodeDnsProxyRequest hmac s (Some request) q = (Dns_kSuccess, r)) \<and>
       (\<exists>rs. DecodeDnsProxyResponse hmac s (Some response) q = (Dns_kSuccess, rs))) \<and>
    (final = Session_kCompleted \<longrightarrow> si_read (input (length log)) = Read_kEof)"
proof (cases "maximum_requests = 0")
  case True
  then show ?thesis using assms(2) by (simp add: RunDnsProxySession_def)
next
  case False
  then have "DnsSessionLoop hmac s policy input 1 0 maximum_requests es = (final, es', log)"
    using assms(2) by (simp add: RunDnsProxySession_def)
  from DnsSessionLoop_log [OF this] have log: "length log \<le> maximum_requests" "length log < 2 ^ 64"
    "map fst log = map (\<lambda>i. 1 + of_nat i) [0..<length log]" "list_all (handled hmac s policy input) log"
    "final = Session_kCompleted \<longrightarrow> si_read (input (length log)) = Read_kEof"
    by simp_all
  have nums: "map fst log = map of_nat [1..<Suc (length log)]"
    unfolding log(3) by (rule nth_equalityI) (simp_all del: upt_Suc)
  have acc: "\<exists>r rs. DecodeDnsProxyRequest hmac s (Some (fst (snd x))) (fst x) = (Dns_kSuccess, r) \<and>
      DecodeDnsProxyResponse hmac s (Some (snd (snd x))) (fst x) = (Dns_kSuccess, rs)"
    if "x \<in> set log" for x
  proof -
    have "handled hmac s policy input x" using log(4) that by (simp add: list_all_iff)
    then obtain i es es' query where "ProcessDnsProxyRequest hmac s policy (fst x) (Some (fst (snd x)))
        (si_resolve (input i)) es (si_now (input i)) = ((Dns_kSuccess, snd (snd x)), es', query)"
      unfolding handled_def by blast
    from ProcessDnsProxyRequest_response [OF assms(1) this] assms(3) show ?thesis by blast
  qed
  have "distinct (map (\<lambda>x. fst (snd x)) log)"
    unfolding distinct_conv_nth
  proof (intro allI impI)
    fix i j
    assume ij: "i < length (map (\<lambda>x. fst (snd x)) log)" "j < length (map (\<lambda>x. fst (snd x)) log)" "i \<noteq> j"
    have q: "fst (log ! k) = of_nat (Suc k)" if "k < length log" for k
      using arg_cong [OF nums, of "\<lambda>l. l ! k"] that by (simp del: upt_Suc)
    have "fst (log ! i) \<noteq> fst (log ! j)"
    proof
      assume "fst (log ! i) = fst (log ! j)"
      then have "unat (of_nat (Suc i) :: u64) = unat (of_nat (Suc j) :: u64)"
        using ij q by simp
      moreover have "Suc i < 2 ^ LENGTH(64)" "Suc j < 2 ^ LENGTH(64)" using ij log(2) by simp_all
      ultimately show False using ij(3) by (simp only: unat_of_nat_less)
    qed
    then show "map (\<lambda>x. fst (snd x)) log ! i \<noteq> map (\<lambda>x. fst (snd x)) log ! j"
      using ij acc [of "log ! i"] acc [of "log ! j"] decode_sequence_unique [OF assms(1)] by fastforce
  qed
  then show ?thesis using log nums acc by fastforce
qed

lemma sample_session_wf: "wf_session sample_session"
  by code_simp

lemma sample_arrays: "\<forall>name family. list_all (\<lambda>a. length (da_address a) = 16) (snd (sample_resolve name family))"
  by (simp add: sample_resolve_def sample_address_def)

lemma sample_dns_run_success: "fst (fst sample_dns_run) = Dns_kSuccess"
  by code_simp

lemma sample_dns_run_eq:
  "ProcessDnsProxyRequest sample_hmac sample_session sample_policy 1 (Some sample_dns_frame) sample_resolve
     [empty_entry] 100 = ((Dns_kSuccess, snd (fst sample_dns_run)), fst (snd sample_dns_run), snd (snd sample_dns_run))"
  using sample_dns_run_success by (simp add: sample_dns_run_def prod_eq_iff)

lemma sample_table_inv: "table_inv [empty_entry]"
  by code_simp

lemma sample_reachable:
  "proxy_reachable sample_hmac sample_session sample_policy
     \<lparr>px_bindings = fst (snd sample_dns_run), px_clock = 100,
      px_answers = {Answer 7 (ascii ''ok.io'') 443 4 [10, 0, 0, 1] 100 60000}\<rparr>"
proof -
  let ?st = "\<lparr>px_bindings = [empty_entry], px_clock = (100 :: u64), px_answers = {}\<rparr>"
  have create: "DnsBindingTable_Create 1 = (Binding_kSuccess, Some [empty_entry])" by code_simp
  have new: "new_answers sample_resolve (snd (DecodeDnsProxyRequest sample_hmac sample_session (Some sample_dns_frame) 1))
      100 (snd (snd sample_dns_run)) = {Answer 7 (ascii ''ok.io'') 443 4 [10, 0, 0, 1] 100 60000}"
    by code_simp
  have "proxy_step sample_hmac sample_session sample_policy ?st
     (?st\<lparr>px_bindings := fst (snd sample_dns_run), px_clock := 100, px_answers := px_answers ?st \<union>
        {Answer 7 (ascii ''ok.io'') 443 4 [10, 0, 0, 1] 100 60000}\<rparr>)"
    unfolding new [symmetric]
    using proxy_step.dns [of ?st 100 sample_hmac sample_session sample_policy 1 sample_dns_frame sample_resolve]
      sample_dns_run_eq by simp
  then show ?thesis
    using proxy_reachable.step [OF proxy_reachable.start [OF create]] by simp
qed

theorem proxy_connect_safe_witness:
  "\<exists>st response. proxy_reachable sample_hmac sample_session sample_policy st \<and>
    ProcessTcpProxyRequest sample_hmac sample_session sample_policy (px_bindings st) 1 (Some sample_tcp_frame) 200
      (\<lambda>_ _ _. (True, 0)) = (response, Some (4, [10, 0, 0, 1], 443)) \<and>
    (\<exists>a \<in> px_answers st. an_domain a = ascii ''ok.io'' \<and> an_address a = [10, 0, 0, 1])"
proof -
  let ?st = "\<lparr>px_bindings = fst (snd sample_dns_run), px_clock = 100,
      px_answers = {Answer 7 (ascii ''ok.io'') 443 4 [10, 0, 0, 1] 100 60000}\<rparr>"
  let ?run = "ProcessTcpProxyRequest sample_hmac sample_session sample_policy (px_bindings ?st) 1
      (Some sample_tcp_frame) 200 (\<lambda>_ _ _. (True, 0))"
  have "snd ?run = Some (4, [10, 0, 0, 1], 443)" by code_simp
  then have run: "?run = (fst ?run, Some (4, [10, 0, 0, 1], 443))" by (metis prod.collapse)
  have t: "px_clock ?st \<le> 200" by simp
  have deny: "DecideAddress sample_policy 4 (Some [10, 0, 0, 1]) \<noteq> Decision_kAllow" by code_simp
  have dec: "tq_domain (snd (DecodeTcpProxyRequest sample_hmac sample_session (Some sample_tcp_frame) 1)) = ascii ''ok.io''"
    by code_simp
  from proxy_connect_safe [OF sample_session_wf sample_reachable t run] deny dec
  have "\<exists>a \<in> px_answers ?st. an_domain a = ascii ''ok.io'' \<and> an_address a = [10, 0, 0, 1]" by auto
  then show ?thesis using sample_reachable run by blast
qed

theorem dns_answer_connectable_witness:
  "\<exists>r :: DnsProxyRequest. dq_domain r = ascii ''ok.io'' \<and>
     TcpIsAuthorized sample_session sample_policy (fst (snd sample_dns_run))
         \<lparr>tq_sequence = 1, tq_process = dq_process r, tq_family = 4,
          tq_address = da_address sample_address, tq_port = 443, tq_domain = dq_domain r\<rparr> 100"
proof -
  let ?rs = "DecodeDnsProxyResponse sample_hmac sample_session (Some (snd (fst sample_dns_run))) 1"
  have "fst ?rs = Dns_kSuccess" by code_simp
  then have rs: "?rs = (Dns_kSuccess, snd ?rs)" by (rule eq_snd)
  have res: "dr_result (snd ?rs) = 0" "sample_address \<in> set (dr_addresses (snd ?rs))" by code_simp+
  have port: "DecidePort sample_policy 443 = Decision_kAllow" by code_simp
  have dec: "dq_port (snd (DecodeDnsProxyRequest sample_hmac sample_session (Some sample_dns_frame) 1)) = 443"
    "dq_domain (snd (DecodeDnsProxyRequest sample_hmac sample_session (Some sample_dns_frame) 1)) = ascii ''ok.io''"
    by code_simp+
  obtain r where r: "DecodeDnsProxyRequest sample_hmac sample_session (Some sample_dns_frame) 1 = (Dns_kSuccess, r)"
    "TcpIsAuthorized sample_session sample_policy (fst (snd sample_dns_run))
         \<lparr>tq_sequence = 1, tq_process = dq_process r, tq_family = da_family sample_address,
          tq_address = da_address sample_address, tq_port = 443, tq_domain = dq_domain r\<rparr> 100"
  proof -
    from dns_answer_connectable [OF sample_session_wf sample_table_inv sample_dns_run_eq sample_arrays rs res(1)]
    obtain r where "DecodeDnsProxyRequest sample_hmac sample_session (Some sample_dns_frame) 1 = (Dns_kSuccess, r)"
      and auth: "\<forall>a \<in> set (dr_addresses (snd ?rs)). \<forall>port n.
       dq_port r \<in> {0, port} \<and> DecidePort sample_policy port = Decision_kAllow \<longrightarrow>
       TcpIsAuthorized sample_session sample_policy (fst (snd sample_dns_run))
         \<lparr>tq_sequence = n, tq_process = dq_process r, tq_family = da_family a,
          tq_address = da_address a, tq_port = port, tq_domain = dq_domain r\<rparr> 100" by blast
    then show ?thesis using that [of r] auth [rule_format, OF res(2), of 443 1] dec(1) port by simp
  qed
  moreover have "da_family sample_address = 4" "dq_domain r = ascii ''ok.io''"
    using dec r(1) by (simp_all add: sample_address_def)
  ultimately show ?thesis using r(2) by (intro exI [of _ r]) simp
qed

theorem dns_session_in_order_witness:
  "\<exists>final es' log. RunDnsProxySession sample_hmac sample_session sample_policy
      (\<lambda>i. \<lparr>si_read = (if i = 0 then Read_kFrame sample_dns_frame else Read_kEof), si_resolve = sample_resolve,
            si_now = 100, si_write = True\<rparr>) [empty_entry] 5 = (final, es', log) \<and>
     final = Session_kCompleted \<and> length log = 1 \<and> map fst log = [1]"
proof -
  let ?input = "\<lambda>i. \<lparr>si_read = (if i = 0 then Read_kFrame sample_dns_frame else Read_kEof), si_resolve = sample_resolve,
            si_now = 100, si_write = True\<rparr> :: session_input"
  let ?run = "RunDnsProxySession sample_hmac sample_session sample_policy ?input [empty_entry] 5"
  have f: "fst ?run = Session_kCompleted" "length (snd (snd ?run)) = 1" by code_simp+
  have arrays: "\<forall>i name family. list_all (\<lambda>a. length (da_address a) = 16) (snd (si_resolve (?input i) name family))"
    using sample_arrays by simp
  have run: "?run = (fst ?run, fst (snd ?run), snd (snd ?run))" by simp
  from dns_session_in_order [OF sample_session_wf run arrays]
  have "map fst (snd (snd ?run)) = map of_nat [1..<Suc (length (snd (snd ?run)))]" by blast
  also have "\<dots> = [1]" by (simp only: f) simp
  finally show ?thesis using f by (intro exI conjI) (rule run)
qed

end
