(* ===== verification/ProbeTable.thy ===== *)
theory ProbeTable
  imports Prelude
begin

text \<open>
  Open addressing with linear probing, as the two caches of \<open>src/native/hook/filesystem\<close> use
  it (\<open>handle_access_cache.cpp\<close>, \<open>policy_decision_cache.cpp\<close>): a key is looked for at
  \<open>hash k\<close>, \<open>hash k + 1\<close>, ... modulo the capacity until an empty slot is met.

  The locale \<open>probing\<close> is the interface between the scans of the caches and finite maps: it
  says what a finished scan tells about the map that the table represents, and what writing
  one slot does to it.
\<close>

section \<open>Definitions\<close>

datatype ('k, 'v) slot = Slot_empty | Slot_tombstone | Slot_full 'k 'v

definition probe_index :: "nat \<Rightarrow> nat \<Rightarrow> nat \<Rightarrow> nat" where
  "probe_index cap start p = (start + p) mod cap"

definition probe_inv :: "nat \<Rightarrow> ('k \<Rightarrow> nat) \<Rightarrow> (nat \<Rightarrow> ('k, 'v) slot) \<Rightarrow> bool" where
  "probe_inv cap hash t \<longleftrightarrow>
     (\<forall>i<cap. \<forall>k v. t i = Slot_full k v \<longrightarrow>
        (\<exists>p<cap. i = probe_index cap (hash k) p \<and> (\<forall>q<p. t (probe_index cap (hash k) q) \<noteq> Slot_empty)) \<and>
        (\<forall>j<cap. \<forall>w. t j = Slot_full k w \<longrightarrow> j = i))"

fun slot_entry :: "('k, 'v) slot \<Rightarrow> ('k \<times> 'v) list" where
  "slot_entry (Slot_full k v) = [(k, v)]"
| "slot_entry _ = []"

definition table_map :: "nat \<Rightarrow> (nat \<Rightarrow> ('k, 'v) slot) \<Rightarrow> 'k \<rightharpoonup> 'v" where
  "table_map cap t = map_of (concat (map (\<lambda>i. slot_entry (t i)) [0..<cap]))"

definition is_full :: "('k, 'v) slot \<Rightarrow> bool" where
  "is_full s = (case s of Slot_full k v \<Rightarrow> True | _ \<Rightarrow> False)"

text \<open>The slots that a scan for \<open>k\<close> has passed before probe \<open>p\<close>.\<close>

definition scanned :: "nat \<Rightarrow> ('k \<Rightarrow> nat) \<Rightarrow> (nat \<Rightarrow> ('k, 'v) slot) \<Rightarrow> 'k \<Rightarrow> nat \<Rightarrow> bool" where
  "scanned cap hash t k p \<longleftrightarrow>
     (\<forall>q<p. t (probe_index cap (hash k) q) \<noteq> Slot_empty \<and> (\<forall>v. t (probe_index cap (hash k) q) \<noteq> Slot_full k v))"

section \<open>Probe sequences\<close>

lemma map_eqI_Some: "(\<And>k v. f k = Some v \<longleftrightarrow> g k = Some v) \<Longrightarrow> f = g"
  by (rule ext) (metis not_Some_eq)

lemma mask_index: "(n :: nat) AND (2 ^ b - 1) = n mod 2 ^ b"
  by (metis mask_eq_exp_minus_1 take_bit_eq_mask take_bit_eq_mod)

lemma probe_index_less [simp]: "0 < cap \<Longrightarrow> probe_index cap s p < cap"
  by (simp add: probe_index_def)

lemma probe_index_surj:
  assumes "i < cap"
  shows "\<exists>p<cap. i = probe_index cap s p"
proof (intro exI conjI)
  let ?p = "(i + (cap - s mod cap)) mod cap"
  show "?p < cap" using assms by simp
  have "(s + ?p) mod cap = (s mod cap + (i + (cap - s mod cap))) mod cap"
    by (simp add: mod_simps)
  also have "s mod cap + (i + (cap - s mod cap)) = i + cap"
  proof -
    have "s mod cap < cap" using assms by simp
    then show ?thesis by linarith
  qed
  finally show "i = probe_index cap s ?p" using assms by (simp add: probe_index_def)
qed

lemma scanned_Suc:
  "scanned cap hash t k (Suc p) \<longleftrightarrow> scanned cap hash t k p \<and>
     t (probe_index cap (hash k) p) \<noteq> Slot_empty \<and> (\<forall>v. t (probe_index cap (hash k) p) \<noteq> Slot_full k v)"
  by (auto simp: scanned_def less_Suc_eq)

lemma scanned_0 [simp]: "scanned cap hash t k 0"
  by (simp add: scanned_def)

lemma slot_entry_set: "(k, v) \<in> set (slot_entry s) \<longleftrightarrow> s = Slot_full k v"
  by (cases s) auto

lemma entries_set:
  "(k, v) \<in> set (concat (map (\<lambda>i. slot_entry (t i)) [0..<cap])) \<longleftrightarrow> (\<exists>i<cap. t i = Slot_full k v)"
  by (auto simp: slot_entry_set)

lemma fst_image: "k \<in> fst ` S \<longleftrightarrow> (\<exists>v. (k, v) \<in> S)"
  by force

lemma table_map_None: "table_map cap t k = None \<longleftrightarrow> (\<forall>i<cap. \<forall>v. t i \<noteq> Slot_full k v)"
  unfolding table_map_def map_of_eq_None_iff fst_image entries_set by blast

lemma table_map_SomeD: "table_map cap t k = Some v \<Longrightarrow> \<exists>i<cap. t i = Slot_full k v"
  unfolding table_map_def entries_set [symmetric] by (rule map_of_SomeD)

lemma dom_table_map: "dom (table_map cap t) = {k. \<exists>i<cap. \<exists>v. t i = Slot_full k v}"
  unfolding dom_def table_map_None by blast

section \<open>The contract of a probed table\<close>

locale probing =
  fixes cap :: nat
    and hash :: "'k \<Rightarrow> nat"
  assumes cap_pos: "0 < cap"
begin

lemma at_start: "t i = Slot_full k v \<Longrightarrow> i < cap \<Longrightarrow> probe_inv cap hash t \<Longrightarrow>
  \<exists>p<cap. i = probe_index cap (hash k) p \<and> (\<forall>q<p. t (probe_index cap (hash k) q) \<noteq> Slot_empty)"
  unfolding probe_inv_def by blast

lemma only_slot: "probe_inv cap hash t \<Longrightarrow> i < cap \<Longrightarrow> j < cap \<Longrightarrow> t i = Slot_full k v \<Longrightarrow> t j = Slot_full k w \<Longrightarrow> j = i"
  unfolding probe_inv_def by blast

lemma map_Some:
  assumes "probe_inv cap hash t"
  shows "table_map cap t k = Some v \<longleftrightarrow> (\<exists>i<cap. t i = Slot_full k v)"
proof
  assume "table_map cap t k = Some v"
  then show "\<exists>i<cap. t i = Slot_full k v" by (rule table_map_SomeD)
next
  assume "\<exists>i<cap. t i = Slot_full k v"
  then obtain i where i: "i < cap" "t i = Slot_full k v" by blast
  then have "table_map cap t k \<noteq> None" unfolding table_map_None by blast
  then obtain w where w: "table_map cap t k = Some w" by blast
  obtain j where j: "j < cap" "t j = Slot_full k w" using table_map_SomeD [OF w] by blast
  have "j = i" by (rule only_slot [OF assms i(1) j(1) i(2) j(2)])
  then show "table_map cap t k = Some v" using w i j by simp
qed

lemma found: "probe_inv cap hash t \<Longrightarrow> t (probe_index cap s p) = Slot_full k v \<Longrightarrow> table_map cap t k = Some v"
  using map_Some [of t k v] probe_index_less [OF cap_pos, of s p] by blast

lemma not_found:
  assumes inv: "probe_inv cap hash t" and sc: "scanned cap hash t k p"
    and stop: "p = cap \<or> t (probe_index cap (hash k) p) = Slot_empty"
  shows "table_map cap t k = None"
  unfolding table_map_None
proof (intro allI impI notI)
  fix i v assume i: "i < cap" "t i = Slot_full k v"
  from at_start [OF i(2,1) inv] obtain q where q: "q < cap" "i = probe_index cap (hash k) q"
    "\<forall>r<q. t (probe_index cap (hash k) r) \<noteq> Slot_empty" by blast
  have "\<not> q < p"
  proof
    assume "q < p"
    then have "t i \<noteq> Slot_full k v" using sc unfolding scanned_def q(2) by blast
    then show False using i(2) by simp
  qed
  moreover have "p \<noteq> q" using stop q(1,2) i(2) by auto
  ultimately have "p < q" by simp
  then show False using stop q(1,3) by auto
qed

lemma put_full:
  assumes inv: "probe_inv cap hash t"
    and p: "p < cap" "\<forall>q<p. t (probe_index cap (hash k) q) \<noteq> Slot_empty"
    and i: "i = probe_index cap (hash k) p"
    and other: "\<And>j v. j < cap \<Longrightarrow> j \<noteq> i \<Longrightarrow> t j \<noteq> Slot_full k v"
    and old: "\<And>k' v. t i = Slot_full k' v \<Longrightarrow> k' = k"
  shows "probe_inv cap hash (t(i := Slot_full k w))" (is ?inv)
    and "table_map cap (t(i := Slot_full k w)) = (table_map cap t)(k \<mapsto> w)"
proof -
  let ?t = "t(i := Slot_full k w)"
  have i_less: "i < cap" using i cap_pos by simp
  have full: "?t j = Slot_full k' v' \<longleftrightarrow> (if k' = k then j = i \<and> v' = w else t j = Slot_full k' v')"
    if "j < cap" for j k' v'
    using other [OF that] old [of k' v'] by auto
  have empty: "t j \<noteq> Slot_empty \<Longrightarrow> ?t j \<noteq> Slot_empty" for j by simp
  have start: "\<exists>p<cap. j = probe_index cap (hash k') p \<and> (\<forall>q<p. ?t (probe_index cap (hash k') q) \<noteq> Slot_empty)"
    if j: "j < cap" "?t j = Slot_full k' v'" for j k' v'
  proof (cases "k' = k")
    case True
    then have "j = i" using full [OF j(1), of k' v'] j(2) by simp
    then show ?thesis using True p i empty by blast
  next
    case False
    then have "t j = Slot_full k' v'" using full [OF j(1), of k' v'] j(2) by simp
    from at_start [OF this j(1) inv] show ?thesis using empty by blast
  qed
  have unique: "j' = j" if "j < cap" "j' < cap" "?t j = Slot_full k' v'" "?t j' = Slot_full k' w'" for j j' k' v' w'
    using that full [of j k' v'] full [of j' k' w'] only_slot [OF inv that(1,2), of k' v' w'] by (cases "k' = k") auto
  show inv': ?inv unfolding probe_inv_def using start unique by blast
  show "table_map cap ?t = (table_map cap t)(k \<mapsto> w)"
  proof (rule map_eqI_Some)
    fix k' v'
    have "table_map cap ?t k' = Some v' \<longleftrightarrow> (\<exists>j<cap. if k' = k then j = i \<and> v' = w else t j = Slot_full k' v')"
      unfolding map_Some [OF inv'] using full by blast
    also have "\<dots> \<longleftrightarrow> ((table_map cap t)(k \<mapsto> w)) k' = Some v'"
      using map_Some [OF inv, of k' v'] i_less by auto
    finally show "table_map cap ?t k' = Some v' \<longleftrightarrow> ((table_map cap t)(k \<mapsto> w)) k' = Some v'" .
  qed
qed

lemma update:
  assumes inv: "probe_inv cap hash t" and i: "i < cap" "t i = Slot_full k v"
  shows "probe_inv cap hash (t(i := Slot_full k w))"
    and "table_map cap (t(i := Slot_full k w)) = (table_map cap t)(k \<mapsto> w)"
proof -
  obtain p where p: "p < cap" "i = probe_index cap (hash k) p"
    "\<forall>q<p. t (probe_index cap (hash k) q) \<noteq> Slot_empty" using at_start [OF i(2,1) inv] by blast
  have o: "\<And>j v. j < cap \<Longrightarrow> j \<noteq> i \<Longrightarrow> t j \<noteq> Slot_full k v" using only_slot [OF inv i(1) _ i(2)] by blast
  have k: "\<And>k' v. t i = Slot_full k' v \<Longrightarrow> k' = k" using i by simp
  show "probe_inv cap hash (t(i := Slot_full k w))" "table_map cap (t(i := Slot_full k w)) = (table_map cap t)(k \<mapsto> w)"
    using put_full [OF inv p(1,3,2) o k] by auto
qed

lemma insert:
  assumes inv: "probe_inv cap hash t" and new: "table_map cap t k = None"
    and p: "p < cap" "\<forall>q<p. t (probe_index cap (hash k) q) \<noteq> Slot_empty"
    and i: "i = probe_index cap (hash k) p" "\<not> is_full (t i)"
  shows "probe_inv cap hash (t(i := Slot_full k w))"
    and "table_map cap (t(i := Slot_full k w)) = (table_map cap t)(k \<mapsto> w)"
proof -
  have o: "\<And>j v. j < cap \<Longrightarrow> j \<noteq> i \<Longrightarrow> t j \<noteq> Slot_full k v" using new unfolding table_map_None by simp
  have k: "\<And>k' v. t i = Slot_full k' v \<Longrightarrow> k' = k" using i(2) by (simp add: is_full_def)
  show "probe_inv cap hash (t(i := Slot_full k w))" "table_map cap (t(i := Slot_full k w)) = (table_map cap t)(k \<mapsto> w)"
    using put_full [OF inv p i(1) o k] by auto
qed

lemma delete:
  assumes inv: "probe_inv cap hash t" and i: "i < cap" "t i = Slot_full k v"
  shows "probe_inv cap hash (t(i := Slot_tombstone))" (is ?inv)
    and "table_map cap (t(i := Slot_tombstone)) = (table_map cap t)(k := None)"
proof -
  let ?t = "t(i := Slot_tombstone)"
  have full: "?t j = Slot_full k' v' \<longleftrightarrow> k' \<noteq> k \<and> t j = Slot_full k' v'" if "j < cap" for j k' v'
  proof (cases "j = i")
    case False
    have "t j \<noteq> Slot_full k v'" using only_slot [OF inv i(1) that i(2)] False by blast
    then show ?thesis using False by auto
  qed (use i(2) in simp)
  have empty: "?t j = Slot_empty \<longleftrightarrow> t j = Slot_empty" for j using i by simp
  have start: "\<exists>p<cap. j = probe_index cap (hash k') p \<and> (\<forall>q<p. ?t (probe_index cap (hash k') q) \<noteq> Slot_empty)"
    if j: "j < cap" "?t j = Slot_full k' v'" for j k' v'
  proof -
    have "t j = Slot_full k' v'" using full [OF j(1), of k' v'] j(2) by blast
    from at_start [OF this j(1) inv] show ?thesis unfolding empty .
  qed
  have unique: "j' = j" if "j < cap" "j' < cap" "?t j = Slot_full k' v'" "?t j' = Slot_full k' w'" for j j' k' v' w'
  proof -
    have "t j = Slot_full k' v'" "t j' = Slot_full k' w'"
      using full [OF that(1), of k' v'] full [OF that(2), of k' w'] that(3,4) by blast+
    then show ?thesis by (rule only_slot [OF inv that(1,2)])
  qed
  show inv': ?inv unfolding probe_inv_def using start unique by blast
  show "table_map cap ?t = (table_map cap t)(k := None)"
  proof (rule map_eqI_Some)
    fix k' v'
    have "table_map cap ?t k' = Some v' \<longleftrightarrow> (\<exists>j<cap. k' \<noteq> k \<and> t j = Slot_full k' v')"
      unfolding map_Some [OF inv'] using full by blast
    also have "\<dots> \<longleftrightarrow> ((table_map cap t)(k := None)) k' = Some v'"
      using map_Some [OF inv, of k' v'] by simp
    finally show "table_map cap ?t k' = Some v' \<longleftrightarrow> ((table_map cap t)(k := None)) k' = Some v'" .
  qed
qed

lemma empty_table: "probe_inv cap hash (\<lambda>_. Slot_empty)" "table_map cap (\<lambda>_. Slot_empty) = Map.empty"
  by (simp_all add: probe_inv_def table_map_None fun_eq_iff)

lemma finite_map: "finite (dom (table_map cap t))"
  unfolding table_map_def by (rule finite_dom_map_of)

text \<open>The map has as many keys as there are full slots, so a table is full at \<open>cap\<close> keys.\<close>

lemma card_map:
  assumes inv: "probe_inv cap hash t"
  shows "card (dom (table_map cap t)) = card {i. i < cap \<and> is_full (t i)}"
proof -
  let ?F = "{i. i < cap \<and> is_full (t i)}" and ?key = "\<lambda>i. case t i of Slot_full k v \<Rightarrow> k"
  have full: "is_full (t i) \<longleftrightarrow> (\<exists>k v. t i = Slot_full k v)" for i
    by (cases "t i") (auto simp: is_full_def)
  have key: "i \<in> ?F \<longleftrightarrow> i < cap \<and> (\<exists>v. t i = Slot_full (?key i) v)" for i
    unfolding mem_Collect_eq full by (cases "t i") auto
  have "inj_on ?key ?F"
  proof (rule inj_onI)
    fix i j assume "i \<in> ?F" "j \<in> ?F" "?key i = ?key j"
    then show "i = j" unfolding key using only_slot [OF inv] by metis
  qed
  then have "card (?key ` ?F) = card ?F" by (rule card_image)
  moreover have "?key ` ?F = dom (table_map cap t)"
  proof
    show "?key ` ?F \<subseteq> dom (table_map cap t)" unfolding dom_table_map using key by blast
    show "dom (table_map cap t) \<subseteq> ?key ` ?F"
    proof
      fix k assume "k \<in> dom (table_map cap t)"
      then obtain i v where "i < cap" "t i = Slot_full k v" unfolding dom_table_map by blast
      then show "k \<in> ?key ` ?F" by (intro image_eqI [of _ _ i]) (simp_all add: is_full_def)
    qed
  qed
  ultimately show ?thesis by simp
qed

lemma full_table:
  assumes inv: "probe_inv cap hash t"
  shows "card (dom (table_map cap t)) < cap \<longleftrightarrow> (\<exists>i<cap. \<not> is_full (t i))"
proof
  assume less: "card (dom (table_map cap t)) < cap"
  show "\<exists>i<cap. \<not> is_full (t i)"
  proof (rule ccontr)
    assume "\<not> (\<exists>i<cap. \<not> is_full (t i))"
    then have "{i. i < cap \<and> is_full (t i)} = {i. i < cap}" by blast
    then show False using less card_map [OF inv] by simp
  qed
next
  assume "\<exists>i<cap. \<not> is_full (t i)"
  then have "{i. i < cap \<and> is_full (t i)} \<subset> {i. i < cap}" by blast
  then have "card {i. i < cap \<and> is_full (t i)} < card {i. i < cap}" by (intro psubset_card_mono) simp_all
  then show "card (dom (table_map cap t)) < cap" by (simp add: card_map [OF inv])
qed

end

end
