(* ===== verification/HandleAccessCache.thy ===== *)
theory HandleAccessCache
  imports ProbeTable
begin

text \<open>
  \<open>src/native/hook/filesystem/handle_access_cache.cpp\<close>: the accesses that have been granted on
  open handles.  Every public operation holds the lock for its whole duration, so an operation
  is one transition of the state.  The array \<open>entries_\<close> of \<open>kCapacity\<close> entries is a function
  on indices; \<open>size_\<close> keeps its 64 bits.

  The cache refines a finite map from handles to access masks: \<open>Store\<close> joins a mask to the
  one of the handle, \<open>Remove\<close> forgets the handle, \<open>Allows\<close> asks for a mask.
\<close>

section \<open>Definitions\<close>

type_synonym HANDLE = u64

abbreviation (input) INVALID_HANDLE_VALUE :: HANDLE where
  "INVALID_HANDLE_VALUE \<equiv> - 1"

text \<open>\<open>HandleAccess\<close> is an enum over \<open>std::uint8_t\<close> whose range the operations check.\<close>

type_synonym HandleAccess = u8

abbreviation (input) HandleAccess_kRead :: HandleAccess where "HandleAccess_kRead \<equiv> 1"
abbreviation (input) HandleAccess_kWrite :: HandleAccess where "HandleAccess_kWrite \<equiv> 2"
abbreviation (input) HandleAccess_kMetadata :: HandleAccess where "HandleAccess_kMetadata \<equiv> 4"
abbreviation (input) HandleAccess_kEnumerate :: HandleAccess where "HandleAccess_kEnumerate \<equiv> 8"

datatype EntryState = EntryState_kEmpty | EntryState_kOccupied | EntryState_kTombstone

record HandleEntry =
  he_handle :: HANDLE
  he_access :: u8
  he_state :: EntryState

record HandleAccessCache =
  hac_entries :: "nat \<Rightarrow> HandleEntry"
  hac_size :: u64

definition kHandleCapacity :: nat where
  "kHandleCapacity = 8192"

definition HandleAccessCache_init :: HandleAccessCache where
  "HandleAccessCache_init =
     \<lparr> hac_entries = \<lambda>_. \<lparr> he_handle = 0, he_access = 0, he_state = EntryState_kEmpty \<rparr>, hac_size = 0 \<rparr>"

definition ValidHandle :: "HANDLE \<Rightarrow> bool" where
  "ValidHandle handle = (handle \<noteq> 0 \<and> handle \<noteq> INVALID_HANDLE_VALUE)"

definition AccessMask :: "HandleAccess \<Rightarrow> u8" where
  "AccessMask access = access"

definition HandleHash :: "HANDLE \<Rightarrow> nat" where
  "HandleHash handle =
     (let value = drop_bit 2 handle
      in unat ((value * 11400714819323198485) AND (of_nat kHandleCapacity - 1)))"

text \<open>
  The scan of \<open>Store\<close>: \<open>Inl\<close> is the occupied entry of the handle, \<open>Inr\<close> the value of
  \<open>available\<close> after the loop.
\<close>

function HandleStoreScan ::
  "(nat \<Rightarrow> HandleEntry) \<Rightarrow> HANDLE \<Rightarrow> nat \<Rightarrow> nat \<Rightarrow> nat \<Rightarrow> nat + nat"
where
  "HandleStoreScan entries handle start probe available =
     (if probe < kHandleCapacity
      then let index = (start + probe) AND (kHandleCapacity - 1);
               entry = entries index
           in if he_state entry = EntryState_kOccupied \<and> he_handle entry = handle then Inl index
              else let available =
                     (if he_state entry = EntryState_kTombstone \<and> available = kHandleCapacity
                      then index else available)
                   in if he_state entry = EntryState_kEmpty
                      then Inr (if available = kHandleCapacity then index else available)
                      else HandleStoreScan entries handle start (probe + 1) available
      else Inr available)"
  by pat_completeness auto
termination
  by (relation "measure (\<lambda>(_, _, _, probe, _). kHandleCapacity - probe)") auto

definition HandleAccessCache_Store ::
  "HandleAccessCache \<Rightarrow> HANDLE \<Rightarrow> HandleAccess \<Rightarrow> bool \<times> HandleAccessCache"
where
  "HandleAccessCache_Store cache handle access =
     (let mask = AccessMask access
      in if \<not> ValidHandle handle \<or> mask = 0 \<or> mask AND NOT 0x0f \<noteq> 0 then (False, cache)
         else case HandleStoreScan (hac_entries cache) handle (HandleHash handle) 0 kHandleCapacity of
             Inl index \<Rightarrow>
               let entry = hac_entries cache index
               in (True, cache\<lparr> hac_entries := (hac_entries cache)
                     (index := entry\<lparr> he_access := he_access entry OR mask \<rparr>) \<rparr>)
           | Inr available \<Rightarrow>
               if available = kHandleCapacity then (False, cache)
               else (True, cache\<lparr> hac_entries := (hac_entries cache)(available :=
                       \<lparr> he_handle = handle, he_access = mask, he_state = EntryState_kOccupied \<rparr>),
                     hac_size := hac_size cache + 1 \<rparr>))"

text \<open>The scan shared by \<open>Allows\<close> and \<open>Remove\<close>: the occupied entry of the handle, if any.\<close>

function HandleFindScan :: "(nat \<Rightarrow> HandleEntry) \<Rightarrow> HANDLE \<Rightarrow> nat \<Rightarrow> nat \<Rightarrow> nat option" where
  "HandleFindScan entries handle start probe =
     (if probe < kHandleCapacity
      then let index = (start + probe) AND (kHandleCapacity - 1);
               entry = entries index
           in if he_state entry = EntryState_kEmpty then None
              else if he_state entry = EntryState_kOccupied \<and> he_handle entry = handle then Some index
              else HandleFindScan entries handle start (probe + 1)
      else None)"
  by pat_completeness auto
termination
  by (relation "measure (\<lambda>(_, _, _, probe). kHandleCapacity - probe)") auto

definition HandleAccessCache_Allows :: "HandleAccessCache \<Rightarrow> HANDLE \<Rightarrow> HandleAccess \<Rightarrow> bool" where
  "HandleAccessCache_Allows cache handle access =
     (let mask = AccessMask access
      in if \<not> ValidHandle handle \<or> mask = 0 \<or> mask AND NOT 0x0f \<noteq> 0 then False
         else case HandleFindScan (hac_entries cache) handle (HandleHash handle) 0 of
             None \<Rightarrow> False
           | Some index \<Rightarrow> he_access (hac_entries cache index) AND mask = mask)"

definition HandleAccessCache_Remove :: "HandleAccessCache \<Rightarrow> HANDLE \<Rightarrow> HandleAccessCache" where
  "HandleAccessCache_Remove cache handle =
     (if \<not> ValidHandle handle then cache
      else case HandleFindScan (hac_entries cache) handle (HandleHash handle) 0 of
          None \<Rightarrow> cache
        | Some index \<Rightarrow>
            cache\<lparr> hac_entries := (hac_entries cache)(index :=
                     \<lparr> he_handle = 0, he_access = 0, he_state = EntryState_kTombstone \<rparr>),
                   hac_size := hac_size cache - 1 \<rparr>)"

definition HandleAccessCache_size :: "HandleAccessCache \<Rightarrow> u64" where
  "HandleAccessCache_size cache = hac_size cache"

declare HandleStoreScan.simps [simp del] HandleFindScan.simps [simp del]

subsection \<open>The map behind the cache\<close>

definition handle_slot :: "HandleEntry \<Rightarrow> (HANDLE, u8) slot" where
  "handle_slot e = (case he_state e of
       EntryState_kEmpty \<Rightarrow> Slot_empty
     | EntryState_kTombstone \<Rightarrow> Slot_tombstone
     | EntryState_kOccupied \<Rightarrow> Slot_full (he_handle e) (he_access e))"

definition granted :: "HandleAccessCache \<Rightarrow> HANDLE \<rightharpoonup> u8" where
  "granted c = table_map kHandleCapacity (\<lambda>i. handle_slot (hac_entries c i))"

definition handle_cache_inv :: "HandleAccessCache \<Rightarrow> bool" where
  "handle_cache_inv c \<longleftrightarrow>
     probe_inv kHandleCapacity HandleHash (\<lambda>i. handle_slot (hac_entries c i)) \<and>
     hac_size c = of_nat (card (dom (granted c))) \<and> (\<forall>h \<in> dom (granted c). ValidHandle h)"

definition mask_ok :: "HandleAccess \<Rightarrow> bool" where
  "mask_ok m \<longleftrightarrow> m \<noteq> 0 \<and> m AND NOT 0x0f = 0"

text \<open>The operations that change the cache, and the mask that a sequence of them grants.\<close>

datatype handle_op = Op_store HANDLE HandleAccess | Op_remove HANDLE

fun handle_op_run :: "handle_op \<Rightarrow> HandleAccessCache \<Rightarrow> HandleAccessCache" where
  "handle_op_run (Op_store h m) c = snd (HandleAccessCache_Store c h m)"
| "handle_op_run (Op_remove h) c = HandleAccessCache_Remove c h"

fun grant_step :: "handle_op \<Rightarrow> (HANDLE \<Rightarrow> u8) \<Rightarrow> HANDLE \<Rightarrow> u8" where
  "grant_step (Op_store h m) g = (if ValidHandle h \<and> mask_ok m then g(h := g h OR m) else g)"
| "grant_step (Op_remove h) g = g(h := 0)"

definition stored_handles :: "handle_op list \<Rightarrow> HANDLE set" where
  "stored_handles ops = {h. \<exists>m. Op_store h m \<in> set ops}"

abbreviation slots :: "HandleAccessCache \<Rightarrow> nat \<Rightarrow> (HANDLE, u8) slot" where
  "slots c \<equiv> \<lambda>i. handle_slot (hac_entries c i)"

definition available_ok :: "(nat \<Rightarrow> HandleEntry) \<Rightarrow> HANDLE \<Rightarrow> nat \<Rightarrow> nat \<Rightarrow> bool" where
  "available_ok t h probe a \<longleftrightarrow>
     (if a = kHandleCapacity
      then \<forall>q<probe. he_state (t (probe_index kHandleCapacity (HandleHash h) q)) = EntryState_kOccupied
      else \<exists>q<probe. a = probe_index kHandleCapacity (HandleHash h) q \<and> he_state (t a) \<noteq> EntryState_kOccupied)"

definition joined :: "u8 option \<Rightarrow> u8 \<Rightarrow> u8" where
  "joined old m = (case old of None \<Rightarrow> m | Some a \<Rightarrow> a OR m)"

definition mask_of :: "u8 option \<Rightarrow> u8" where
  "mask_of a = (case a of None \<Rightarrow> 0 | Some m \<Rightarrow> m)"

section \<open>The scans\<close>

interpretation handle_table: probing kHandleCapacity HandleHash
  by unfold_locales (simp add: kHandleCapacity_def)

lemma handle_index: "(start + probe) AND (kHandleCapacity - 1) = probe_index kHandleCapacity start probe"
  using mask_index [of "start + probe" 13] by (simp add: kHandleCapacity_def probe_index_def)

lemma handle_index_less: "probe_index kHandleCapacity start probe < kHandleCapacity"
  by (simp add: kHandleCapacity_def)

lemmas HandleFindScan_unfold = HandleFindScan.simps [unfolded handle_index Let_def]

lemmas HandleStoreScan_unfold = HandleStoreScan.simps [unfolded handle_index Let_def]

lemma handle_slot_full: "handle_slot e = Slot_full h a \<longleftrightarrow>
    he_state e = EntryState_kOccupied \<and> he_handle e = h \<and> he_access e = a"
  by (cases "he_state e") (auto simp: handle_slot_def)

lemma handle_slot_empty: "handle_slot e = Slot_empty \<longleftrightarrow> he_state e = EntryState_kEmpty"
  by (cases "he_state e") (auto simp: handle_slot_def)

lemma handle_slot_not_full: "\<not> is_full (handle_slot e) \<longleftrightarrow> he_state e \<noteq> EntryState_kOccupied"
  by (cases "he_state e") (auto simp: handle_slot_def is_full_def)

lemma scanned_handle_Suc:
  "scanned cap hash (\<lambda>i. handle_slot (t i)) h (Suc p) \<longleftrightarrow> scanned cap hash (\<lambda>i. handle_slot (t i)) h p \<and>
     he_state (t (probe_index cap (hash h) p)) \<noteq> EntryState_kEmpty \<and>
     \<not> (he_state (t (probe_index cap (hash h) p)) = EntryState_kOccupied \<and> he_handle (t (probe_index cap (hash h) p)) = h)"
  by (auto simp: scanned_Suc handle_slot_full handle_slot_empty)

lemma HandleFindScan_result:
  "scanned kHandleCapacity HandleHash (\<lambda>i. handle_slot (t i)) h probe \<Longrightarrow> probe \<le> kHandleCapacity \<Longrightarrow>
   (case HandleFindScan t h (HandleHash h) probe of
      Some i \<Rightarrow> i < kHandleCapacity \<and> he_state (t i) = EntryState_kOccupied \<and> he_handle (t i) = h
    | None \<Rightarrow> \<exists>p. scanned kHandleCapacity HandleHash (\<lambda>i. handle_slot (t i)) h p \<and>
        (p = kHandleCapacity \<or> handle_slot (t (probe_index kHandleCapacity (HandleHash h) p)) = Slot_empty))"
proof (induction t h "HandleHash h" probe rule: HandleFindScan.induct)
  case (1 t h probe)
  let ?e = "t (probe_index kHandleCapacity (HandleHash h) probe)"
  note unfold = HandleFindScan_unfold [of t h "HandleHash h" probe]
  have step: "scanned kHandleCapacity HandleHash (\<lambda>i. handle_slot (t i)) h (probe + 1)"
    if "he_state ?e \<noteq> EntryState_kEmpty" "\<not> (he_state ?e = EntryState_kOccupied \<and> he_handle ?e = h)"
    using 1(2) that by (simp add: scanned_handle_Suc)
  consider "probe = kHandleCapacity" | "probe < kHandleCapacity" "he_state ?e = EntryState_kEmpty"
    | "probe < kHandleCapacity" "he_state ?e = EntryState_kOccupied" "he_handle ?e = h"
    | "probe < kHandleCapacity" "he_state ?e \<noteq> EntryState_kEmpty" "\<not> (he_state ?e = EntryState_kOccupied \<and> he_handle ?e = h)"
    using 1(3) by linarith
  then show ?case
  proof cases
    case 1
    then show ?thesis
      using "1.prems" by (auto simp: HandleFindScan.simps [of _ _ _ kHandleCapacity])
  next
    case 2
    then show ?thesis using "1.prems" by (auto simp: unfold handle_slot_empty)
  next
    case 3
    then show ?thesis by (simp add: unfold kHandleCapacity_def)
  next
    case 4
    then show ?thesis using "1.hyps" [OF 4(1) refl refl, unfolded handle_index] step by (simp add: unfold)
  qed
qed

lemma available_ok_Suc:
  assumes "available_ok t h probe a" "probe < kHandleCapacity"
    and i: "i = probe_index kHandleCapacity (HandleHash h) probe"
    and a': "a' = (if he_state (t i) \<noteq> EntryState_kOccupied \<and> a = kHandleCapacity then i else a)"
  shows "available_ok t h (Suc probe) a'"
proof (cases "a = kHandleCapacity")
  case True
  have "probe_index kHandleCapacity (HandleHash h) probe \<noteq> kHandleCapacity"
    using handle_index_less by (rule less_imp_neq)
  then show ?thesis
    using assms True unfolding available_ok_def by (auto simp: less_Suc_eq)
next
  case False
  then show ?thesis using assms unfolding available_ok_def by (auto simp: less_Suc_eq)
qed

lemma HandleStoreScan_result:
  "scanned kHandleCapacity HandleHash (\<lambda>i. handle_slot (t i)) h probe \<Longrightarrow> probe \<le> kHandleCapacity \<Longrightarrow>
   available_ok t h probe a \<Longrightarrow>
   (case HandleStoreScan t h (HandleHash h) probe a of
      Inl i \<Rightarrow> i < kHandleCapacity \<and> he_state (t i) = EntryState_kOccupied \<and> he_handle (t i) = h
    | Inr b \<Rightarrow> \<exists>p. scanned kHandleCapacity HandleHash (\<lambda>i. handle_slot (t i)) h p \<and>
        (p = kHandleCapacity \<and> available_ok t h p b \<or>
         p < kHandleCapacity \<and> b \<noteq> kHandleCapacity \<and> available_ok t h (Suc p) b \<and>
           handle_slot (t (probe_index kHandleCapacity (HandleHash h) p)) = Slot_empty))"
proof (induction t h "HandleHash h" probe a rule: HandleStoreScan.induct)
  case (1 t h probe a)
  let ?i = "probe_index kHandleCapacity (HandleHash h) probe"
  let ?e = "t ?i"
  let ?a = "if he_state ?e = EntryState_kTombstone \<and> a = kHandleCapacity then ?i else a"
  note unfold = HandleStoreScan_unfold [of t h "HandleHash h" probe a]
  have i_less: "?i < kHandleCapacity" by (rule handle_index_less)
  have step: "scanned kHandleCapacity HandleHash (\<lambda>i. handle_slot (t i)) h (probe + 1)"
    if "he_state ?e \<noteq> EntryState_kEmpty" "\<not> (he_state ?e = EntryState_kOccupied \<and> he_handle ?e = h)"
    using 1(2) that by (simp add: scanned_handle_Suc)
  consider "probe = kHandleCapacity" | "probe < kHandleCapacity" "he_state ?e = EntryState_kEmpty"
    | "probe < kHandleCapacity" "he_state ?e = EntryState_kOccupied" "he_handle ?e = h"
    | "probe < kHandleCapacity" "he_state ?e \<noteq> EntryState_kEmpty" "\<not> (he_state ?e = EntryState_kOccupied \<and> he_handle ?e = h)"
    using 1(3) by linarith
  then show ?case
  proof cases
    case 1
    then show ?thesis
      using "1.prems" by (auto simp: HandleStoreScan.simps [of _ _ _ kHandleCapacity])
  next
    case 2
    let ?b = "if a = kHandleCapacity then ?i else a"
    have r: "HandleStoreScan t h (HandleHash h) probe a = Inr ?b" using 2 by (simp add: unfold)
    have "available_ok t h (Suc probe) ?b"
      by (rule available_ok_Suc [OF "1.prems"(3) 2(1) refl]) (simp add: 2)
    then show ?thesis unfolding r sum.case
      using "1.prems"(1) 2 less_imp_neq [OF i_less] by (intro exI [of _ probe]) (simp add: handle_slot_empty)
  next
    case 3
    then show ?thesis by (simp add: unfold i_less)
  next
    case 4
    have "available_ok t h (Suc probe) ?a"
    proof (rule available_ok_Suc [OF "1.prems"(3) 4(1) refl])
      show "?a = (if he_state ?e \<noteq> EntryState_kOccupied \<and> a = kHandleCapacity then ?i else a)"
        using 4 by (cases "he_state ?e") auto
    qed
    moreover have "HandleStoreScan t h (HandleHash h) probe a = HandleStoreScan t h (HandleHash h) (probe + 1) ?a"
      using 4 by (auto simp: unfold)
    ultimately show ?thesis
      using "1.hyps" [OF 4(1) refl refl _ refl, unfolded handle_index] step 4 by simp
  qed
qed

section \<open>The cache refines a map\<close>

lemma handle_slot_upd: "(\<lambda>i. handle_slot ((t(j := e)) i)) = (\<lambda>i. handle_slot (t i))(j := handle_slot e)"
  by auto

lemma find_handle:
  assumes inv: "handle_cache_inv c"
  shows "case HandleFindScan (hac_entries c) h (HandleHash h) 0 of
      None \<Rightarrow> granted c h = None
    | Some i \<Rightarrow> i < kHandleCapacity \<and> slots c i = Slot_full h (he_access (hac_entries c i)) \<and>
        granted c h = Some (he_access (hac_entries c i))"
proof -
  have t: "probe_inv kHandleCapacity HandleHash (slots c)" using inv by (simp add: handle_cache_inv_def)
  note r = HandleFindScan_result [of "hac_entries c" h 0, simplified]
  show ?thesis
  proof (cases "HandleFindScan (hac_entries c) h (HandleHash h) 0")
    case None
    then obtain p where p: "scanned kHandleCapacity HandleHash (slots c) h p"
      "p = kHandleCapacity \<or> slots c (probe_index kHandleCapacity (HandleHash h) p) = Slot_empty" using r by auto
    have "granted c h = None" unfolding granted_def by (rule handle_table.not_found [OF t p])
    then show ?thesis using None by simp
  next
    case (Some i)
    then have i: "i < kHandleCapacity" "slots c i = Slot_full h (he_access (hac_entries c i))"
      using r by (simp_all add: handle_slot_full)
    then have "granted c h = Some (he_access (hac_entries c i))"
      unfolding granted_def handle_table.map_Some [OF t] by blast
    then show ?thesis using Some i by simp
  qed
qed

lemma Allows_granted:
  assumes "handle_cache_inv c"
  shows "HandleAccessCache_Allows c h m \<longleftrightarrow>
    ValidHandle h \<and> mask_ok m \<and> (\<exists>a. granted c h = Some a \<and> a AND m = m)"
  using find_handle [OF assms, of h]
  by (cases "HandleFindScan (hac_entries c) h (HandleHash h) 0")
    (auto simp: HandleAccessCache_Allows_def AccessMask_def mask_ok_def Let_def)

lemma Remove_granted:
  assumes inv: "handle_cache_inv c"
  shows "granted (HandleAccessCache_Remove c h) = (granted c)(h := None)"
    and "handle_cache_inv (HandleAccessCache_Remove c h)"
proof -
  have t: "probe_inv kHandleCapacity HandleHash (slots c)" and size: "hac_size c = of_nat (card (dom (granted c)))"
    and valid: "\<forall>h \<in> dom (granted c). ValidHandle h"
    using inv by (simp_all add: handle_cache_inv_def)
  let ?c = "HandleAccessCache_Remove c h"
  have unchanged: "granted ?c = (granted c)(h := None) \<and> handle_cache_inv ?c" if "?c = c" "granted c h = None"
    using that inv by (simp add: fun_upd_idem)
  have "granted ?c = (granted c)(h := None) \<and> handle_cache_inv ?c"
  proof (cases "ValidHandle h \<and> HandleFindScan (hac_entries c) h (HandleHash h) 0 \<noteq> None")
    case False
    have "granted c h = None"
    proof (cases "ValidHandle h")
      case True
      then have "HandleFindScan (hac_entries c) h (HandleHash h) 0 = None" using False by blast
      then show ?thesis using find_handle [OF inv, of h] by simp
    next
      case False
      then show ?thesis using valid by blast
    qed
    moreover have "?c = c" using False by (auto simp: HandleAccessCache_Remove_def)
    ultimately show ?thesis using unchanged by blast
  next
    case True
    then obtain i where i: "HandleFindScan (hac_entries c) h (HandleHash h) 0 = Some i" by blast
    note f = find_handle [OF inv, of h, unfolded i option.case]
    have e: "slots ?c = (slots c)(i := Slot_tombstone)" and s: "hac_size ?c = hac_size c - 1"
      using True i by (simp_all add: HandleAccessCache_Remove_def handle_slot_def fun_eq_iff)
    note d = handle_table.delete [OF t conjunct1 [OF f] conjunct1 [OF conjunct2 [OF f]]]
    have g: "granted ?c = (granted c)(h := None)" unfolding granted_def e by (rule d(2))
    have "h \<in> dom (granted c)" using f by blast
    then have "card (dom (granted c)) = Suc (card (dom (granted c) - {h}))"
      using card.remove [OF handle_table.finite_map [of "slots c", folded granted_def]] by simp
    then have "hac_size ?c = of_nat (card (dom (granted ?c)))" unfolding s size g by simp
    moreover have "\<forall>h \<in> dom (granted ?c). ValidHandle h" unfolding g using valid by simp
    ultimately show ?thesis using g d(1) unfolding handle_cache_inv_def e by blast
  qed
  then show "granted ?c = (granted c)(h := None)" "handle_cache_inv ?c" by auto
qed

lemma init_granted: "handle_cache_inv HandleAccessCache_init" "granted HandleAccessCache_init = Map.empty"
proof -
  have e: "slots HandleAccessCache_init = (\<lambda>_. Slot_empty)"
    by (simp add: HandleAccessCache_init_def handle_slot_def)
  show g: "granted HandleAccessCache_init = Map.empty"
    unfolding granted_def e by (rule handle_table.empty_table)
  show "handle_cache_inv HandleAccessCache_init"
    using handle_table.empty_table(1) unfolding handle_cache_inv_def g e
    by (simp add: HandleAccessCache_init_def)
qed

lemma store_scan:
  assumes inv: "handle_cache_inv c"
  shows "case HandleStoreScan (hac_entries c) h (HandleHash h) 0 kHandleCapacity of
      Inl i \<Rightarrow> i < kHandleCapacity \<and> slots c i = Slot_full h (he_access (hac_entries c i)) \<and>
        granted c h = Some (he_access (hac_entries c i))
    | Inr a \<Rightarrow> granted c h = None \<and>
        (if a = kHandleCapacity then card (dom (granted c)) = kHandleCapacity
         else \<exists>p<kHandleCapacity. a = probe_index kHandleCapacity (HandleHash h) p \<and>
           (\<forall>q<p. slots c (probe_index kHandleCapacity (HandleHash h) q) \<noteq> Slot_empty) \<and> \<not> is_full (slots c a))"
proof -
  have t: "probe_inv kHandleCapacity HandleHash (slots c)" using inv by (simp add: handle_cache_inv_def)
  have start: "available_ok (hac_entries c) h 0 kHandleCapacity" by (simp add: available_ok_def)
  note r = HandleStoreScan_result [OF scanned_0 _ start, simplified]
  show ?thesis
  proof (cases "HandleStoreScan (hac_entries c) h (HandleHash h) 0 kHandleCapacity")
    case (Inl i)
    then have i: "i < kHandleCapacity" "slots c i = Slot_full h (he_access (hac_entries c i))"
      using r by (simp_all add: handle_slot_full)
    then have "granted c h = Some (he_access (hac_entries c i))"
      unfolding granted_def handle_table.map_Some [OF t] by blast
    then show ?thesis using Inl i by simp
  next
    case (Inr a)
    from r [unfolded Inr sum.case] obtain p where
      p: "scanned kHandleCapacity HandleHash (slots c) h p"
        "p = kHandleCapacity \<and> available_ok (hac_entries c) h p a \<or>
         p < kHandleCapacity \<and> a \<noteq> kHandleCapacity \<and> available_ok (hac_entries c) h (Suc p) a \<and>
           slots c (probe_index kHandleCapacity (HandleHash h) p) = Slot_empty" by blast
    have none: "granted c h = None"
      unfolding granted_def by (rule handle_table.not_found [OF t p(1)]) (use p(2) in blast)
    have "if a = kHandleCapacity then card (dom (granted c)) = kHandleCapacity
         else \<exists>p<kHandleCapacity. a = probe_index kHandleCapacity (HandleHash h) p \<and>
           (\<forall>q<p. slots c (probe_index kHandleCapacity (HandleHash h) q) \<noteq> Slot_empty) \<and> \<not> is_full (slots c a)"
    proof (cases "a = kHandleCapacity")
      case True
      then have "\<forall>q<kHandleCapacity. he_state (hac_entries c (probe_index kHandleCapacity (HandleHash h) q)) = EntryState_kOccupied"
        using p(2) by (simp add: available_ok_def)
      then have "\<forall>i<kHandleCapacity. is_full (slots c i)"
        using probe_index_surj [of _ kHandleCapacity "HandleHash h"] handle_slot_not_full by metis
      then have "{i. i < kHandleCapacity \<and> is_full (slots c i)} = {i. i < kHandleCapacity}" by blast
      then show ?thesis using True handle_table.card_map [OF t] by (simp add: granted_def)
    next
      case False
      let ?n = "if p = kHandleCapacity then p else Suc p"
      have "available_ok (hac_entries c) h ?n a" "p \<le> kHandleCapacity" using p(2) by auto
      then obtain q where q: "q < ?n" "a = probe_index kHandleCapacity (HandleHash h) q" "\<not> is_full (slots c a)"
        using False unfolding available_ok_def handle_slot_not_full by auto
      then have q': "q < Suc p" "q < kHandleCapacity" using \<open>p \<le> kHandleCapacity\<close> by (simp_all split: if_splits)
      have "\<forall>r<q. slots c (probe_index kHandleCapacity (HandleHash h) r) \<noteq> Slot_empty"
        using p(1) q'(1) by (simp add: scanned_def)
      then show ?thesis using False q(2,3) q'(2) by auto
    qed
    then show ?thesis unfolding Inr sum.case using none by blast
  qed
qed

lemma Store_unfold:
  assumes "ValidHandle h" "mask_ok m"
  shows "HandleAccessCache_Store c h m =
    (case HandleStoreScan (hac_entries c) h (HandleHash h) 0 kHandleCapacity of
       Inl i \<Rightarrow> (True, c\<lparr> hac_entries := (hac_entries c)
         (i := (hac_entries c i)\<lparr> he_access := he_access (hac_entries c i) OR m \<rparr>) \<rparr>)
     | Inr a \<Rightarrow> if a = kHandleCapacity then (False, c)
         else (True, c\<lparr> hac_entries := (hac_entries c)
           (a := \<lparr> he_handle = h, he_access = m, he_state = EntryState_kOccupied \<rparr>), hac_size := hac_size c + 1 \<rparr>))"
  using assms by (simp add: HandleAccessCache_Store_def AccessMask_def mask_ok_def Let_def split: sum.split)

lemma Store_granted:
  assumes inv: "handle_cache_inv c"
  shows "fst (HandleAccessCache_Store c h m) \<longleftrightarrow> ValidHandle h \<and> mask_ok m \<and>
      (h \<in> dom (granted c) \<or> card (dom (granted c)) < kHandleCapacity)"
    and "granted (snd (HandleAccessCache_Store c h m)) =
      (if fst (HandleAccessCache_Store c h m) then (granted c)(h \<mapsto> joined (granted c h) m) else granted c)"
    and "handle_cache_inv (snd (HandleAccessCache_Store c h m))"
proof -
  have t: "probe_inv kHandleCapacity HandleHash (slots c)" and size: "hac_size c = of_nat (card (dom (granted c)))"
    and valid: "\<forall>h \<in> dom (granted c). ValidHandle h"
    using inv by (simp_all add: handle_cache_inv_def)
  let ?r = "HandleAccessCache_Store c h m" and ?full = "h \<in> dom (granted c) \<or> card (dom (granted c)) < kHandleCapacity"
  have invI: "handle_cache_inv c'" if "probe_inv kHandleCapacity HandleHash (slots c')" "ValidHandle h"
    "granted c' = (granted c)(h \<mapsto> a)" "hac_size c' = of_nat (card (insert h (dom (granted c))))" for c' a
    using that valid by (simp add: handle_cache_inv_def)
  have "(fst ?r \<longleftrightarrow> ValidHandle h \<and> mask_ok m \<and> ?full) \<and> handle_cache_inv (snd ?r) \<and>
     granted (snd ?r) = (if fst ?r then (granted c)(h \<mapsto> joined (granted c h) m) else granted c)"
  proof (cases "ValidHandle h \<and> mask_ok m")
    case False
    then have "?r = (False, c)" by (auto simp: HandleAccessCache_Store_def mask_ok_def AccessMask_def Let_def)
    then show ?thesis using False inv by auto
  next
    case ok: True
    note r = Store_unfold [OF conjunct1 [OF ok] conjunct2 [OF ok], of c]
    show ?thesis
    proof (cases "HandleStoreScan (hac_entries c) h (HandleHash h) 0 kHandleCapacity")
      case (Inl i)
      note f = store_scan [OF inv, of h, unfolded Inl sum.case]
      let ?e = "hac_entries c i"
      have slot: "handle_slot (?e\<lparr>he_access := he_access ?e OR m\<rparr>) = Slot_full h (he_access ?e OR m)"
        using f by (simp add: handle_slot_full)
      have e: "fst ?r" "slots (snd ?r) = (slots c)(i := Slot_full h (he_access ?e OR m))" "hac_size (snd ?r) = hac_size c"
        unfolding r Inl sum.case by (simp_all add: fun_eq_iff slot)
      note u = handle_table.update [OF t conjunct1 [OF f] conjunct1 [OF conjunct2 [OF f]]]
      have dom: "h \<in> dom (granted c)" using f by blast
      have g: "granted (snd ?r) = (granted c)(h \<mapsto> joined (granted c h) m)"
        using u(2) f unfolding granted_def e(2) joined_def by simp
      have "handle_cache_inv (snd ?r)"
        by (rule invI [OF _ _ g]) (use u(1) e ok dom size in \<open>simp_all add: insert_absorb\<close>)
      then show ?thesis using e(1) ok dom g by simp
    next
      case (Inr a)
      note f = store_scan [OF inv, of h, unfolded Inr sum.case]
      have nd: "h \<notin> dom (granted c)" using conjunct1 [OF f] by (simp add: domIff)
      show ?thesis
      proof (cases "a = kHandleCapacity")
        case True
        have "?r = (False, c)" unfolding r Inr sum.case using True by simp
        moreover have "\<not> ?full" using f True nd by simp
        ultimately show ?thesis using inv by simp
      next
        case False
        then obtain p where p: "p < kHandleCapacity" "a = probe_index kHandleCapacity (HandleHash h) p"
          "\<forall>q<p. slots c (probe_index kHandleCapacity (HandleHash h) q) \<noteq> Slot_empty" "\<not> is_full (slots c a)"
          using f by auto
        have e: "fst ?r" "slots (snd ?r) = (slots c)(a := Slot_full h m)" "hac_size (snd ?r) = hac_size c + 1"
          unfolding r Inr sum.case using False by (simp_all add: fun_eq_iff handle_slot_def)
        note u = handle_table.insert [OF t conjunct1 [OF f, unfolded granted_def] p(1,3,2,4)]
        have g: "granted (snd ?r) = (granted c)(h \<mapsto> joined (granted c h) m)"
          using u(2) f unfolding granted_def e(2) joined_def by simp
        have "finite (dom (granted c))" unfolding granted_def by (rule handle_table.finite_map)
        then have "handle_cache_inv (snd ?r)"
          by (intro invI [OF _ _ g]) (use u(1) e ok nd size in simp_all)
        moreover have "card (dom (granted c)) < kHandleCapacity"
          using handle_table.full_table [OF t] p by (simp add: granted_def) (use handle_index_less in blast)
        ultimately show ?thesis using e(1) ok g by simp
      qed
    qed
  qed
  then show "fst ?r \<longleftrightarrow> ValidHandle h \<and> mask_ok m \<and> ?full" "handle_cache_inv (snd ?r)"
    "granted (snd ?r) = (if fst ?r then (granted c)(h \<mapsto> joined (granted c h) m) else granted c)" by blast+
qed

text \<open>
  C26. The cache of granted handles implements a map.  On every state that satisfies the
  probing invariant (the initial state does) \<open>Allows\<close> answers from the mask stored for the
  handle, \<open>Store\<close> succeeds exactly if the arguments are valid and the handle is known or a
  slot is free and then joins the mask to the old one, \<open>Remove\<close> forgets the handle, \<open>size\<close>
  counts the handles, and the invariant is kept.
\<close>

theorem handle_cache_refines_map:
  assumes "handle_cache_inv c"
  shows "(HandleAccessCache_Allows c h m \<longleftrightarrow> ValidHandle h \<and> mask_ok m \<and> (\<exists>a. granted c h = Some a \<and> a AND m = m)) \<and>
    (fst (HandleAccessCache_Store c h m) \<longleftrightarrow> ValidHandle h \<and> mask_ok m \<and>
       (h \<in> dom (granted c) \<or> card (dom (granted c)) < kHandleCapacity)) \<and>
    granted (snd (HandleAccessCache_Store c h m)) =
       (if fst (HandleAccessCache_Store c h m) then (granted c)(h \<mapsto> joined (granted c h) m) else granted c) \<and>
    granted (HandleAccessCache_Remove c h) = (granted c)(h := None) \<and>
    unat (HandleAccessCache_size c) = card (dom (granted c)) \<and>
    handle_cache_inv (snd (HandleAccessCache_Store c h m)) \<and> handle_cache_inv (HandleAccessCache_Remove c h)"
proof -
  have "{i. i < kHandleCapacity \<and> is_full (slots c i)} \<subseteq> {i. i < kHandleCapacity}" by blast
  then have "card (dom (granted c)) \<le> kHandleCapacity"
    using assms card_mono [of "{i. i < kHandleCapacity}"]
    by (simp add: granted_def handle_table.card_map handle_cache_inv_def)
  then have "card (dom (granted c)) < 2 ^ 64" by (simp add: kHandleCapacity_def)
  then have "unat (HandleAccessCache_size c) = card (dom (granted c))"
    using assms by (simp add: HandleAccessCache_size_def handle_cache_inv_def unat_of_nat_less)
  then show ?thesis using Allows_granted Store_granted Remove_granted assms by blast
qed

theorem handle_cache_refines_map_witness:
  "handle_cache_inv HandleAccessCache_init \<and> fst (HandleAccessCache_Store HandleAccessCache_init 0x44 HandleAccess_kRead) \<and>
   granted (snd (HandleAccessCache_Store HandleAccessCache_init 0x44 HandleAccess_kRead)) = [0x44 \<mapsto> 1]"
proof -
  have "fst (HandleAccessCache_Store HandleAccessCache_init 0x44 HandleAccess_kRead)"
    using handle_cache_refines_map [OF init_granted(1), of "0x44" HandleAccess_kRead]
    by (simp add: init_granted ValidHandle_def mask_ok_def kHandleCapacity_def)
  then show ?thesis
    using handle_cache_refines_map [OF init_granted(1), of "0x44" HandleAccess_kRead]
    by (simp add: init_granted joined_def)
qed

lemma run_inv: "handle_cache_inv c \<Longrightarrow> handle_cache_inv (handle_op_run op c)"
  by (cases op) (simp_all add: Store_granted Remove_granted)

lemma joined_mask: "mask_of (Some (joined a m)) = mask_of a OR m"
  by (cases a) (simp_all add: mask_of_def joined_def)

lemma and_or_le: "(a :: u8) AND b = a \<Longrightarrow> (a OR m) AND (b OR m) = a OR m"
  by (simp add: bit_eq_iff bit_simps) blast

lemma and_le_or: "(a :: u8) AND b = a \<Longrightarrow> a AND (b OR m) = a"
  by (simp add: bit_eq_iff bit_simps) blast

lemma run_granted_le:
  assumes "handle_cache_inv c" "\<And>h. mask_of (granted c h) AND g h = mask_of (granted c h)"
  shows "mask_of (granted (handle_op_run op c) h) AND grant_step op g h = mask_of (granted (handle_op_run op c) h)"
proof (cases op)
  case (Op_store h' m)
  have "granted (handle_op_run op c) = (if fst (HandleAccessCache_Store c h' m) then (granted c)(h' \<mapsto> joined (granted c h') m) else granted c)"
    using Store_granted(2) [OF assms(1)] Op_store by simp
  moreover have "ValidHandle h' \<and> mask_ok m" if "fst (HandleAccessCache_Store c h' m)"
    using that Store_granted(1) [OF assms(1)] by blast
  ultimately show ?thesis
    using assms(2) [of h] assms(2) [of h'] Op_store
    by (simp add: joined_mask and_or_le and_le_or split: if_splits)
next
  case (Op_remove h')
  then show ?thesis using Remove_granted(1) [OF assms(1)] assms(2) by (simp add: mask_of_def)
qed

lemma history_le:
  "handle_cache_inv (fold handle_op_run ops HandleAccessCache_init) \<and>
   mask_of (granted (fold handle_op_run ops HandleAccessCache_init) h) AND fold grant_step ops (\<lambda>_. 0) h =
     mask_of (granted (fold handle_op_run ops HandleAccessCache_init) h)"
proof (induction ops arbitrary: h rule: rev_induct)
  case Nil
  then show ?case by (simp add: init_granted mask_of_def)
next
  case (snoc op ops)
  then show ?case using run_inv run_granted_le by simp
qed

lemma dom_stored:
  "dom (granted (fold handle_op_run ops HandleAccessCache_init)) \<subseteq> stored_handles ops"
proof (induction ops rule: rev_induct)
  case Nil
  then show ?case by (simp add: init_granted)
next
  case (snoc op ops)
  let ?c = "fold handle_op_run ops HandleAccessCache_init"
  have inv: "handle_cache_inv ?c" using history_le by blast
  have sub: "stored_handles ops \<subseteq> stored_handles (ops @ [op])" by (auto simp: stored_handles_def)
  show ?case
  proof (cases op)
    case (Op_store h m)
    have "h \<in> stored_handles (ops @ [op])" using Op_store by (auto simp: stored_handles_def)
    moreover have "dom (granted (handle_op_run op ?c)) \<subseteq> insert h (dom (granted ?c))"
      using Op_store by (simp add: Store_granted(2) [OF inv] subset_insertI)
    ultimately show ?thesis using snoc sub by auto
  next
    case (Op_remove h)
    have "dom (granted (handle_op_run op ?c)) \<subseteq> dom (granted ?c)"
      unfolding Op_remove handle_op_run.simps Remove_granted(1) [OF inv] by simp
    then show ?thesis using snoc sub by auto
  qed
qed

lemma finite_stored: "finite (stored_handles ops)"
proof -
  have "stored_handles ops \<subseteq> (\<lambda>op. case op of Op_store h m \<Rightarrow> h | Op_remove h \<Rightarrow> h) ` set ops"
    by (force simp: stored_handles_def)
  then show ?thesis using finite_surj by blast
qed

lemma stored_mono: "stored_handles ops \<subseteq> stored_handles (ops @ ops')"
  by (auto simp: stored_handles_def)

lemma history_eq:
  "card (stored_handles ops) \<le> kHandleCapacity \<Longrightarrow>
   mask_of (granted (fold handle_op_run ops HandleAccessCache_init) h) = fold grant_step ops (\<lambda>_. 0) h"
proof (induction ops arbitrary: h rule: rev_induct)
  case Nil
  then show ?case by (simp add: init_granted mask_of_def)
next
  case (snoc op ops)
  let ?c = "fold handle_op_run ops HandleAccessCache_init"
  have inv: "handle_cache_inv ?c" using history_le by blast
  have card: "card (stored_handles ops) \<le> card (stored_handles (ops @ [op]))"
    by (rule card_mono [OF finite_stored stored_mono])
  have IH: "mask_of (granted ?c h) = fold grant_step ops (\<lambda>_. 0) h" for h using snoc card by simp
  show ?case
  proof (cases op)
    case (Op_store h' m)
    have "fst (HandleAccessCache_Store ?c h' m) \<longleftrightarrow> ValidHandle h' \<and> mask_ok m"
    proof -
      have "card (dom (granted ?c)) < kHandleCapacity" if "h' \<notin> dom (granted ?c)"
      proof -
        have "dom (granted ?c) \<subseteq> stored_handles (ops @ [op]) - {h'}" using dom_stored stored_mono that by blast
        moreover have "h' \<in> stored_handles (ops @ [op])" using Op_store by (auto simp: stored_handles_def)
        ultimately have "dom (granted ?c) \<subset> stored_handles (ops @ [op])" by blast
        then show ?thesis using psubset_card_mono [OF finite_stored] snoc(2) by (meson less_le_trans)
      qed
      then show ?thesis using Store_granted(1) [OF inv] by blast
    qed
    then have "granted (handle_op_run op ?c) = (if ValidHandle h' \<and> mask_ok m then (granted ?c)(h' \<mapsto> joined (granted ?c h') m) else granted ?c)"
      using Store_granted(2) [OF inv] Op_store by simp
    then show ?thesis using Op_store IH by (simp add: joined_mask)
  next
    case (Op_remove h')
    then show ?thesis using IH by (simp add: Remove_granted(1) [OF inv] mask_of_def)
  qed
qed

text \<open>
  C8. No stale grants: after any sequence of \<open>Store\<close> and \<open>Remove\<close> operations on a fresh cache,
  \<open>Allows\<close> answers true for a mask only if each of its bits was stored for the handle after
  the handle was last removed.  As long as no more than \<open>kCapacity\<close> different handles have been
  stored the answer is exactly that: nothing granted is lost either.
\<close>

theorem handle_cache_history:
  "(HandleAccessCache_Allows (fold handle_op_run ops HandleAccessCache_init) h m \<longrightarrow>
      fold grant_step ops (\<lambda>_. 0) h AND m = m) \<and>
   (card (stored_handles ops) \<le> kHandleCapacity \<longrightarrow> ValidHandle h \<longrightarrow> mask_ok m \<longrightarrow>
      (HandleAccessCache_Allows (fold handle_op_run ops HandleAccessCache_init) h m \<longleftrightarrow>
       fold grant_step ops (\<lambda>_. 0) h AND m = m))"
proof -
  let ?c = "fold handle_op_run ops HandleAccessCache_init" and ?g = "fold grant_step ops (\<lambda>_. 0) h"
  have inv: "handle_cache_inv ?c" and le: "mask_of (granted ?c h) AND ?g = mask_of (granted ?c h)"
    using history_le by blast+
  have and_trans: "a AND b = a \<Longrightarrow> a AND m = m \<Longrightarrow> b AND m = m" for a b :: u8
    by (simp add: bit_eq_iff bit_simps) blast
  have allows: "HandleAccessCache_Allows ?c h m \<longleftrightarrow> ValidHandle h \<and> mask_ok m \<and> mask_of (granted ?c h) AND m = m"
    unfolding Allows_granted [OF inv] by (cases "granted ?c h") (auto simp: mask_of_def mask_ok_def)
  show ?thesis
    unfolding allows using and_trans [OF le] history_eq [of ops h] by auto
qed

theorem handle_cache_history_witness:
  "(let ops = [Op_store 0x44 HandleAccess_kRead, Op_store 0x48 HandleAccess_kWrite,
               Op_remove 0x44, Op_store 0x44 HandleAccess_kMetadata];
        c = fold handle_op_run ops HandleAccessCache_init
    in \<not> HandleAccessCache_Allows c 0x44 HandleAccess_kRead \<and> HandleAccessCache_Allows c 0x44 HandleAccess_kMetadata \<and>
       HandleAccessCache_Allows c 0x48 HandleAccess_kWrite)"
proof -
  let ?ops = "[Op_store 0x44 HandleAccess_kRead, Op_store 0x48 HandleAccess_kWrite,
    Op_remove 0x44, Op_store 0x44 HandleAccess_kMetadata]"
  have "stored_handles ?ops \<subseteq> {0x44, 0x48}" by (auto simp: stored_handles_def)
  then have "card (stored_handles ?ops) \<le> card {0x44, 0x48 :: HANDLE}" by (intro card_mono) simp_all
  then have card: "card (stored_handles ?ops) \<le> kHandleCapacity" by (simp add: kHandleCapacity_def)
  have v: "ValidHandle 0x44" "ValidHandle 0x48" by (simp_all add: ValidHandle_def)
  have m: "mask_ok HandleAccess_kRead" "mask_ok HandleAccess_kMetadata" "mask_ok HandleAccess_kWrite"
    by (simp_all add: mask_ok_def)
  note h = handle_cache_history [of ?ops, THEN conjunct2, rule_format, OF card]
  show ?thesis
    unfolding Let_def h [OF v(1) m(1)] h [OF v(1) m(2)] h [OF v(2) m(3)]
    using v m by simp
qed

end
