(* ===== verification/DecisionCache.thy ===== *)
theory DecisionCache
  imports ProbeTable
begin

text \<open>
  \<open>src/native/hook/filesystem/policy_decision_cache.cpp\<close>: the evaluations that the filesystem
  policy has already computed, keyed by the path as the caller wrote it and the access.  The
  lock covers each operation, copies of strings succeed.  The cache never deletes an entry and
  never replaces one; it refines a finite map that only grows.  The types of
  \<open>filesystem_policy.h\<close> that the cache stores are defined here as well.
\<close>

section \<open>Definitions\<close>

datatype Access = Access_kRead | Access_kWrite | Access_kMetadata

datatype FsDecision = FsDecision_kAllow | FsDecision_kDeny | FsDecision_kInheritUser

record PolicyEvaluation =
  pe_decision :: FsDecision
  pe_normalized_path :: wstr

definition PolicyEvaluation_init :: PolicyEvaluation where
  "PolicyEvaluation_init = \<lparr> pe_decision = FsDecision_kDeny, pe_normalized_path = [] \<rparr>"

record DecisionEntry =
  de_path :: wstr
  de_normalized_path :: wstr
  de_access :: Access
  de_decision :: FsDecision
  de_occupied :: bool

record PolicyDecisionCache =
  pdc_entries :: "nat \<Rightarrow> DecisionEntry"
  pdc_size :: u64

definition kDecisionCapacity :: nat where
  "kDecisionCapacity = 2048"

definition kMaximumPathLength :: nat where
  "kMaximumPathLength = 1024"

definition PolicyDecisionCache_init :: PolicyDecisionCache where
  "PolicyDecisionCache_init =
     \<lparr> pdc_entries = \<lambda>_. \<lparr> de_path = [], de_normalized_path = [], de_access = Access_kMetadata,
                            de_decision = FsDecision_kDeny, de_occupied = False \<rparr>, pdc_size = 0 \<rparr>"

abbreviation (input) wchr_backslash :: wchar where "wchr_backslash \<equiv> 0x5c"
abbreviation (input) wchr_slash :: wchar where "wchr_slash \<equiv> 0x2f"
abbreviation (input) wchr_colon :: wchar where "wchr_colon \<equiv> 0x3a"
abbreviation (input) wchr_question :: wchar where "wchr_question \<equiv> 0x3f"

definition Separator :: "wchar \<Rightarrow> bool" where
  "Separator value = (value = wchr_backslash \<or> value = wchr_slash)"

definition Cacheable :: "wchar_ptr \<Rightarrow> bool" where
  "Cacheable path = (case path of None \<Rightarrow> False | Some path \<Rightarrow>
     let length = bounded_scan kMaximumPathLength 0 path
     in if length = 0 \<or> kMaximumPathLength < length then False
        else let drive_absolute = 3 \<le> length \<and> path ! 1 = wchr_colon \<and> Separator (path ! 2);
                 network_or_extended = 2 \<le> length \<and> Separator (path ! 0) \<and> Separator (path ! 1);
                 nt_absolute = 4 \<le> length \<and> path ! 0 = wchr_backslash \<and> path ! 1 = wchr_question \<and>
                   path ! 2 = wchr_question \<and> Separator (path ! 3)
             in drive_absolute \<or> network_or_extended \<or> nt_absolute)"

fun access_byte :: "Access \<Rightarrow> u8" where
  "access_byte Access_kRead = 0"
| "access_byte Access_kWrite = 1"
| "access_byte Access_kMetadata = 2"

definition DecisionHash :: "wstr \<Rightarrow> Access \<Rightarrow> nat" where
  "DecisionHash path access =
     (let hash = fold (\<lambda>current hash. (hash XOR ucast current) * 1099511628211) (c_str path)
                   ((14695981039346656037 :: u64) XOR ucast (access_byte access))
      in unat (hash AND (of_nat kDecisionCapacity - 1)))"

text \<open>
  The scan of \<open>Store\<close>: \<open>Inl ()\<close> when the key is present, \<open>Inr (Some i)\<close> for the first free
  entry and \<open>Inr None\<close> when the loop ends.
\<close>

function DecisionStoreScan ::
  "(nat \<Rightarrow> DecisionEntry) \<Rightarrow> wstr \<Rightarrow> Access \<Rightarrow> nat \<Rightarrow> nat \<Rightarrow> unit + nat option"
where
  "DecisionStoreScan entries stored_path access start probe =
     (if probe < kDecisionCapacity
      then let index = (start + probe) AND (kDecisionCapacity - 1);
               entry = entries index
           in if de_occupied entry \<and> de_access entry = access \<and> de_path entry = stored_path then Inl ()
              else if \<not> de_occupied entry then Inr (Some index)
              else DecisionStoreScan entries stored_path access start (probe + 1)
      else Inr None)"
  by pat_completeness auto
termination
  by (relation "measure (\<lambda>(_, _, _, _, probe). kDecisionCapacity - probe)") auto

definition PolicyDecisionCache_Store ::
  "PolicyDecisionCache \<Rightarrow> wchar_ptr \<Rightarrow> Access \<Rightarrow> PolicyEvaluation \<Rightarrow> bool \<times> PolicyDecisionCache"
where
  "PolicyDecisionCache_Store cache path access evaluation =
     (if \<not> Cacheable path \<or> pe_normalized_path evaluation = [] \<or>
         kMaximumPathLength < length (pe_normalized_path evaluation)
      then (False, cache)
      else let stored_path = c_str (the path);
               stored_normalized = pe_normalized_path evaluation;
               start = DecisionHash (the path) access
           in case DecisionStoreScan (pdc_entries cache) stored_path access start 0 of
               Inl _ \<Rightarrow> (True, cache)
             | Inr None \<Rightarrow> (False, cache)
             | Inr (Some index) \<Rightarrow>
                 (True, cache\<lparr> pdc_entries := (pdc_entries cache)(index :=
                          \<lparr> de_path = stored_path, de_normalized_path = stored_normalized, de_access = access,
                             de_decision = pe_decision evaluation, de_occupied = True \<rparr>),
                        pdc_size := pdc_size cache + 1 \<rparr>))"

function DecisionLookupScan ::
  "(nat \<Rightarrow> DecisionEntry) \<Rightarrow> wstr \<Rightarrow> Access \<Rightarrow> nat \<Rightarrow> nat \<Rightarrow> PolicyEvaluation option"
where
  "DecisionLookupScan entries path access start probe =
     (if probe < kDecisionCapacity
      then let entry = entries ((start + probe) AND (kDecisionCapacity - 1))
           in if \<not> de_occupied entry then None
              else if de_access entry = access \<and> de_path entry = c_str path
              then Some \<lparr> pe_decision = de_decision entry, pe_normalized_path = de_normalized_path entry \<rparr>
              else DecisionLookupScan entries path access start (probe + 1)
      else None)"
  by pat_completeness auto
termination
  by (relation "measure (\<lambda>(_, _, _, _, probe). kDecisionCapacity - probe)") auto

definition PolicyDecisionCache_Lookup ::
  "PolicyDecisionCache \<Rightarrow> wchar_ptr \<Rightarrow> Access \<Rightarrow> PolicyEvaluation option"
where
  "PolicyDecisionCache_Lookup cache path access =
     (if \<not> Cacheable path then None
      else DecisionLookupScan (pdc_entries cache) (the path) access (DecisionHash (the path) access) 0)"

definition PolicyDecisionCache_size :: "PolicyDecisionCache \<Rightarrow> u64" where
  "PolicyDecisionCache_size cache = pdc_size cache"

declare DecisionStoreScan.simps [simp del] DecisionLookupScan.simps [simp del]

subsection \<open>The map behind the cache\<close>

type_synonym decision_key = "wstr \<times> Access"

definition decision_slot :: "DecisionEntry \<Rightarrow> (decision_key, PolicyEvaluation) slot" where
  "decision_slot e =
     (if de_occupied e
      then Slot_full (de_path e, de_access e)
             \<lparr> pe_decision = de_decision e, pe_normalized_path = de_normalized_path e \<rparr>
      else Slot_empty)"

definition key_hash :: "decision_key \<Rightarrow> nat" where
  "key_hash k = DecisionHash (fst k) (snd k)"

definition decided :: "PolicyDecisionCache \<Rightarrow> decision_key \<rightharpoonup> PolicyEvaluation" where
  "decided c = table_map kDecisionCapacity (\<lambda>i. decision_slot (pdc_entries c i))"

definition decision_cache_inv :: "PolicyDecisionCache \<Rightarrow> bool" where
  "decision_cache_inv c \<longleftrightarrow>
     probe_inv kDecisionCapacity key_hash (\<lambda>i. decision_slot (pdc_entries c i)) \<and>
     pdc_size c = of_nat (card (dom (decided c)))"

abbreviation path_key :: "wchar_ptr \<Rightarrow> Access \<Rightarrow> decision_key" where
  "path_key path access \<equiv> (c_str (the path), access)"

abbreviation decision_slots :: "PolicyDecisionCache \<Rightarrow> nat \<Rightarrow> (decision_key, PolicyEvaluation) slot" where
  "decision_slots c \<equiv> \<lambda>i. decision_slot (pdc_entries c i)"

definition storable :: "wchar_ptr \<Rightarrow> PolicyEvaluation \<Rightarrow> bool" where
  "storable path e \<longleftrightarrow> Cacheable path \<and> pe_normalized_path e \<noteq> [] \<and> length (pe_normalized_path e) \<le> kMaximumPathLength"

section \<open>The scans\<close>

interpretation decision_table: probing kDecisionCapacity key_hash
  by unfold_locales (simp add: kDecisionCapacity_def)

lemma decision_index: "(start + probe) AND (kDecisionCapacity - 1) = probe_index kDecisionCapacity start probe"
  using mask_index [of "start + probe" 11] by (simp add: kDecisionCapacity_def probe_index_def)

lemma decision_index_less: "probe_index kDecisionCapacity start probe < kDecisionCapacity"
  by (simp add: kDecisionCapacity_def)

lemmas DecisionStoreScan_unfold = DecisionStoreScan.simps [unfolded decision_index Let_def]

lemmas DecisionLookupScan_unfold = DecisionLookupScan.simps [unfolded decision_index Let_def]

lemma decision_slot_cases:
  "decision_slot e \<noteq> Slot_tombstone"
  "decision_slot e = Slot_empty \<longleftrightarrow> \<not> de_occupied e"
  "is_full (decision_slot e) \<longleftrightarrow> de_occupied e"
  "decision_slot e = Slot_full k v \<longleftrightarrow> de_occupied e \<and> de_path e = fst k \<and> de_access e = snd k \<and>
     v = \<lparr> pe_decision = de_decision e, pe_normalized_path = de_normalized_path e \<rparr>"
  by (auto simp: decision_slot_def is_full_def)

lemma scanned_decision_Suc:
  "scanned cap hash (\<lambda>i. decision_slot (t i)) k (Suc p) \<longleftrightarrow> scanned cap hash (\<lambda>i. decision_slot (t i)) k p \<and>
     de_occupied (t (probe_index cap (hash k) p)) \<and>
     \<not> (de_access (t (probe_index cap (hash k) p)) = snd k \<and> de_path (t (probe_index cap (hash k) p)) = fst k)"
  by (auto simp: scanned_Suc decision_slot_cases)

lemma c_str_key: "key_hash (c_str p, a) = DecisionHash p a"
  by (simp add: key_hash_def DecisionHash_def)

lemma DecisionLookupScan_result:
  "scanned kDecisionCapacity key_hash (\<lambda>i. decision_slot (t i)) (c_str p, a) probe \<Longrightarrow> probe \<le> kDecisionCapacity \<Longrightarrow>
   start = DecisionHash p a \<Longrightarrow>
   (case DecisionLookupScan t p a start probe of
      Some e \<Rightarrow> \<exists>q. decision_slot (t (probe_index kDecisionCapacity start q)) = Slot_full (c_str p, a) e
    | None \<Rightarrow> \<exists>q. scanned kDecisionCapacity key_hash (\<lambda>i. decision_slot (t i)) (c_str p, a) q \<and>
        (q = kDecisionCapacity \<or> decision_slot (t (probe_index kDecisionCapacity start q)) = Slot_empty))"
proof (induction t p a start probe rule: DecisionLookupScan.induct)
  case (1 t p a start probe)
  let ?e = "t (probe_index kDecisionCapacity start probe)"
  note unfold = DecisionLookupScan_unfold [of t p a start probe]
  have step: "scanned kDecisionCapacity key_hash (\<lambda>i. decision_slot (t i)) (c_str p, a) (probe + 1)"
    if "de_occupied ?e" "\<not> (de_access ?e = a \<and> de_path ?e = c_str p)"
    using 1(2,4) that by (simp add: scanned_decision_Suc c_str_key)
  consider "probe = kDecisionCapacity" | "probe < kDecisionCapacity" "\<not> de_occupied ?e"
    | "probe < kDecisionCapacity" "de_occupied ?e" "de_access ?e = a \<and> de_path ?e = c_str p"
    | "probe < kDecisionCapacity" "de_occupied ?e" "\<not> (de_access ?e = a \<and> de_path ?e = c_str p)"
    using 1(3) by linarith
  then show ?case
  proof cases
    case 1
    then show ?thesis
      using "1.prems" by (auto simp: DecisionLookupScan.simps [of _ _ _ _ kDecisionCapacity])
  next
    case 2
    then show ?thesis using "1.prems"(1) by (simp add: unfold) (auto simp: decision_slot_cases)
  next
    case 3
    then show ?thesis by (simp add: unfold) (auto simp: decision_slot_cases)
  next
    case 4
    have eq: "DecisionLookupScan t p a start probe = DecisionLookupScan t p a start (probe + 1)"
      using 4 by (auto simp: unfold)
    show ?thesis
      unfolding eq using "1.IH" [OF 4(1) refl, unfolded decision_index] step 4 "1.prems"(3) by simp
  qed
qed

lemma DecisionStoreScan_result:
  "scanned kDecisionCapacity key_hash (\<lambda>i. decision_slot (t i)) (p, a) probe \<Longrightarrow> probe \<le> kDecisionCapacity \<Longrightarrow>
   start = key_hash (p, a) \<Longrightarrow>
   (case DecisionStoreScan t p a start probe of
      Inl _ \<Rightarrow> \<exists>q e. decision_slot (t (probe_index kDecisionCapacity start q)) = Slot_full (p, a) e
    | Inr None \<Rightarrow> scanned kDecisionCapacity key_hash (\<lambda>i. decision_slot (t i)) (p, a) kDecisionCapacity
    | Inr (Some i) \<Rightarrow> \<exists>q<kDecisionCapacity. scanned kDecisionCapacity key_hash (\<lambda>i. decision_slot (t i)) (p, a) q \<and>
        i = probe_index kDecisionCapacity start q \<and> decision_slot (t i) = Slot_empty)"
proof (induction t p a start probe rule: DecisionStoreScan.induct)
  case (1 t p a start probe)
  let ?e = "t (probe_index kDecisionCapacity start probe)"
  note unfold = DecisionStoreScan_unfold [of t p a start probe]
  have step: "scanned kDecisionCapacity key_hash (\<lambda>i. decision_slot (t i)) (p, a) (probe + 1)"
    if "de_occupied ?e" "\<not> (de_occupied ?e \<and> de_access ?e = a \<and> de_path ?e = p)"
    using 1(2,4) that by (simp add: scanned_decision_Suc)
  consider "probe = kDecisionCapacity" | "probe < kDecisionCapacity" "\<not> de_occupied ?e"
    | "probe < kDecisionCapacity" "de_occupied ?e \<and> de_access ?e = a \<and> de_path ?e = p"
    | "probe < kDecisionCapacity" "de_occupied ?e" "\<not> (de_occupied ?e \<and> de_access ?e = a \<and> de_path ?e = p)"
    using 1(3) by linarith
  then show ?case
  proof cases
    case 1
    then show ?thesis
      using "1.prems" by (auto simp: DecisionStoreScan.simps [of _ _ _ _ kDecisionCapacity])
  next
    case 2
    then show ?thesis using "1.prems"(1) by (simp add: unfold) (auto simp: decision_slot_cases)
  next
    case 3
    then show ?thesis by (simp add: unfold) (auto simp: decision_slot_cases)
  next
    case 4
    have eq: "DecisionStoreScan t p a start probe = DecisionStoreScan t p a start (probe + 1)"
      using 4 by (auto simp: unfold)
    show ?thesis
      unfolding eq using "1.IH" [OF 4(1) refl refl, unfolded decision_index] step 4 "1.prems"(3) by simp
  qed
qed

section \<open>The cache refines a map\<close>

lemma Lookup_decided:
  assumes inv: "decision_cache_inv c"
  shows "PolicyDecisionCache_Lookup c path a = (if Cacheable path then decided c (path_key path a) else None)"
proof (cases "Cacheable path")
  case True
  let ?p = "the path"
  have t: "probe_inv kDecisionCapacity key_hash (decision_slots c)" using inv by (simp add: decision_cache_inv_def)
  note r = DecisionLookupScan_result [OF scanned_0 _ refl, of "pdc_entries c" ?p a, simplified]
  have l: "PolicyDecisionCache_Lookup c path a = DecisionLookupScan (pdc_entries c) ?p a (DecisionHash ?p a) 0"
    using True by (simp add: PolicyDecisionCache_Lookup_def)
  have "decided c (c_str ?p, a) = DecisionLookupScan (pdc_entries c) ?p a (DecisionHash ?p a) 0"
  proof (cases "DecisionLookupScan (pdc_entries c) ?p a (DecisionHash ?p a) 0")
    case None
    from r [unfolded None option.case] obtain q where
      q: "scanned kDecisionCapacity key_hash (decision_slots c) (c_str ?p, a) q"
        "q = kDecisionCapacity \<or> decision_slots c (probe_index kDecisionCapacity (key_hash (c_str ?p, a)) q) = Slot_empty"
      unfolding c_str_key by blast
    have "decided c (c_str ?p, a) = None"
      unfolding decided_def by (rule decision_table.not_found [OF t q])
    then show ?thesis using None by simp
  next
    case (Some e)
    from r [unfolded Some option.case] obtain q where
      "decision_slots c (probe_index kDecisionCapacity (DecisionHash ?p a) q) = Slot_full (c_str ?p, a) e" by blast
    then have "decided c (c_str ?p, a) = Some e" unfolding decided_def by (rule decision_table.found [OF t])
    then show ?thesis using Some by simp
  qed
  then show ?thesis using True l by simp
qed (simp add: PolicyDecisionCache_Lookup_def)

lemma Store_decided:
  assumes inv: "decision_cache_inv c"
  shows "fst (PolicyDecisionCache_Store c path a e) \<longleftrightarrow> storable path e \<and>
      (path_key path a \<in> dom (decided c) \<or> card (dom (decided c)) < kDecisionCapacity)"
    and "decided (snd (PolicyDecisionCache_Store c path a e)) =
      (if fst (PolicyDecisionCache_Store c path a e) \<and> path_key path a \<notin> dom (decided c)
       then (decided c)(path_key path a \<mapsto> e) else decided c)"
    and "decision_cache_inv (snd (PolicyDecisionCache_Store c path a e))"
proof -
  let ?r = "PolicyDecisionCache_Store c path a e" and ?k = "path_key path a" and ?h = "key_hash (path_key path a)"
  have t: "probe_inv kDecisionCapacity key_hash (decision_slots c)" and size: "pdc_size c = of_nat (card (dom (decided c)))"
    using inv by (simp_all add: decision_cache_inv_def)
  let ?scan = "DecisionStoreScan (pdc_entries c) (c_str (the path)) a ?h 0"
  note scan = DecisionStoreScan_result [OF scanned_0 _ refl, of "pdc_entries c" "c_str (the path)" a, simplified]
  have "(fst ?r \<longleftrightarrow> storable path e \<and> (?k \<in> dom (decided c) \<or> card (dom (decided c)) < kDecisionCapacity)) \<and>
    decided (snd ?r) = (if fst ?r \<and> ?k \<notin> dom (decided c) then (decided c)(?k \<mapsto> e) else decided c) \<and>
    decision_cache_inv (snd ?r)"
  proof (cases "storable path e")
    case False
    then have "?r = (False, c)" by (auto simp: PolicyDecisionCache_Store_def storable_def)
    then show ?thesis using False inv by simp
  next
    case ok: True
    then have guard: "\<not> (\<not> Cacheable path \<or> pe_normalized_path e = [] \<or> kMaximumPathLength < length (pe_normalized_path e))"
      by (simp add: storable_def)
    note r = PolicyDecisionCache_Store_def [of c path a e, unfolded if_not_P [OF guard] Let_def c_str_key [symmetric]]
    consider "?scan = Inl ()" | "?scan = Inr None" | i where "?scan = Inr (Some i)"
    proof (cases ?scan)
      case (Inr x)
      then show thesis using that(2,3) by (cases x) simp_all
    qed (use that(1) in simp)
    then show ?thesis
    proof cases
      case 1
      from scan [unfolded 1 sum.case] obtain q v where
        "decision_slots c (probe_index kDecisionCapacity ?h q) = Slot_full ?k v" by blast
      then have "decided c ?k = Some v" unfolding decided_def by (rule decision_table.found [OF t])
      moreover have "?r = (True, c)" unfolding r 1 by simp
      ultimately show ?thesis using ok inv by auto
    next
      case 2
      have sc: "scanned kDecisionCapacity key_hash (decision_slots c) ?k kDecisionCapacity"
        using scan [unfolded 2 sum.case option.case] .
      have none: "decided c ?k = None"
        unfolding decided_def by (rule decision_table.not_found [OF t sc]) simp
      have "is_full (decision_slots c i)" if i: "i < kDecisionCapacity" for i
      proof -
        obtain q where "q < kDecisionCapacity" "i = probe_index kDecisionCapacity ?h q"
          using probe_index_surj [OF i] by blast
        then have "decision_slots c i \<noteq> Slot_empty" using sc by (simp add: scanned_def)
        then show ?thesis unfolding decision_slot_cases by simp
      qed
      then have "\<not> card (dom (decided c)) < kDecisionCapacity"
        unfolding decided_def decision_table.full_table [OF t] by blast
      moreover have "?r = (False, c)" unfolding r 2 by simp
      ultimately show ?thesis using none inv by (simp add: domIff)
    next
      case (3 i)
      from scan [unfolded 3 sum.case option.case] obtain q where
        q: "q < kDecisionCapacity" "scanned kDecisionCapacity key_hash (decision_slots c) ?k q"
          "i = probe_index kDecisionCapacity ?h q" "decision_slots c i = Slot_empty" by blast
      have none: "decided c ?k = None"
        unfolding decided_def by (rule decision_table.not_found [OF t q(2)]) (use q(3,4) in simp)
      have ne: "\<forall>p<q. decision_slots c (probe_index kDecisionCapacity ?h p) \<noteq> Slot_empty"
        using q(2) by (simp add: scanned_def)
      have nf: "\<not> is_full (decision_slots c i)" unfolding q(4) by (simp add: is_full_def)
      have s: "fst ?r" "decision_slots (snd ?r) = (decision_slots c)(i := Slot_full ?k e)" "pdc_size (snd ?r) = pdc_size c + 1"
        unfolding r 3 by (simp_all add: fun_eq_iff decision_slot_def)
      note u = decision_table.insert [OF t none [unfolded decided_def] q(1) ne q(3) nf]
      have g: "decided (snd ?r) = (decided c)(?k \<mapsto> e)" using u(2) unfolding decided_def s(2) .
      have "finite (dom (decided c))" unfolding decided_def by (rule decision_table.finite_map)
      then have "decision_cache_inv (snd ?r)"
        using none size unfolding decision_cache_inv_def g s(2,3) by (simp add: u(1) domIff)
      moreover have "card (dom (decided c)) < kDecisionCapacity"
        unfolding decided_def decision_table.full_table [OF t] using nf q(3) decision_index_less by blast
      ultimately show ?thesis using s(1) ok none g by (simp add: domIff)
    qed
  qed
  then show "fst ?r \<longleftrightarrow> storable path e \<and> (?k \<in> dom (decided c) \<or> card (dom (decided c)) < kDecisionCapacity)"
    "decided (snd ?r) = (if fst ?r \<and> ?k \<notin> dom (decided c) then (decided c)(?k \<mapsto> e) else decided c)"
    "decision_cache_inv (snd ?r)" by blast+
qed

lemma decision_init: "decision_cache_inv PolicyDecisionCache_init" "decided PolicyDecisionCache_init = Map.empty"
proof -
  have e: "decision_slots PolicyDecisionCache_init = (\<lambda>_. Slot_empty)"
    by (simp add: PolicyDecisionCache_init_def decision_slot_def)
  show g: "decided PolicyDecisionCache_init = Map.empty"
    unfolding decided_def e by (rule decision_table.empty_table)
  show "decision_cache_inv PolicyDecisionCache_init"
    using decision_table.empty_table(1) unfolding decision_cache_inv_def g e
    by (simp add: PolicyDecisionCache_init_def)
qed

text \<open>
  The decision cache implements a map that only grows.  On every state that satisfies the
  probing invariant (the initial state does) \<open>Lookup\<close> of a cacheable path returns what the map
  holds for the path up to its terminator and the access; \<open>Store\<close> succeeds exactly if the
  evaluation may be stored and the key is known or an entry is free, adds the evaluation of an
  unknown key, never changes an existing entry, and keeps the invariant.
\<close>

theorem decision_cache_refines_map:
  assumes "decision_cache_inv c"
  shows "PolicyDecisionCache_Lookup c path a = (if Cacheable path then decided c (path_key path a) else None) \<and>
    (fst (PolicyDecisionCache_Store c path a e) \<longleftrightarrow> storable path e \<and>
       (path_key path a \<in> dom (decided c) \<or> card (dom (decided c)) < kDecisionCapacity)) \<and>
    decided (snd (PolicyDecisionCache_Store c path a e)) =
       (if fst (PolicyDecisionCache_Store c path a e) \<and> path_key path a \<notin> dom (decided c)
        then (decided c)(path_key path a \<mapsto> e) else decided c) \<and>
    PolicyDecisionCache_size c = of_nat (card (dom (decided c))) \<and>
    decision_cache_inv (snd (PolicyDecisionCache_Store c path a e))"
proof -
  have "PolicyDecisionCache_size c = of_nat (card (dom (decided c)))"
    using assms by (simp add: decision_cache_inv_def PolicyDecisionCache_size_def)
  then show ?thesis using Lookup_decided [OF assms] Store_decided [OF assms] by blast
qed

theorem decision_cache_refines_map_witness:
  "(let path = Some (wide ''C:/a''); e = \<lparr> pe_decision = FsDecision_kAllow, pe_normalized_path = wide ''C:/a'' \<rparr>
    in decision_cache_inv PolicyDecisionCache_init \<and>
       fst (PolicyDecisionCache_Store PolicyDecisionCache_init path Access_kRead e) \<and>
       PolicyDecisionCache_Lookup (snd (PolicyDecisionCache_Store PolicyDecisionCache_init path Access_kRead e))
         path Access_kRead = Some e)"
proof -
  let ?path = "Some (wide ''C:/a'')" and ?e = "\<lparr> pe_decision = FsDecision_kAllow, pe_normalized_path = wide ''C:/a'' \<rparr>"
  have c: "Cacheable ?path" by code_simp
  have s: "storable ?path ?e" unfolding storable_def by (simp add: c) code_simp
  note w = decision_cache_refines_map [OF decision_init(1), of ?path Access_kRead ?e]
  have f: "fst (PolicyDecisionCache_Store PolicyDecisionCache_init ?path Access_kRead ?e)"
    using w s by (simp add: decision_init kDecisionCapacity_def)
  let ?c = "snd (PolicyDecisionCache_Store PolicyDecisionCache_init ?path Access_kRead ?e)"
  have i: "decision_cache_inv ?c" using w by blast
  have "decided ?c = [path_key ?path Access_kRead \<mapsto> ?e]" using w f by (simp add: decision_init)
  then show ?thesis
    unfolding Let_def using decision_cache_refines_map [OF i, of ?path Access_kRead ?e] f decision_init(1) c by simp
qed

end
