(* ===== verification/AccessRules.thy ===== *)
theory AccessRules
  imports DecisionCache
begin

text \<open>
  Two small components of \<open>src/native/hook/filesystem\<close> on which the policy and the hooks rely:
  \<open>safe_device.cpp\<close> (names of devices) and \<open>access_classifier.cpp\<close> (which access a request to
  open a file asks for).

  \<open>CompareStringOrdinal\<close> with \<open>bIgnoreCase\<close> compares code units after mapping them with the
  upper-case table of the operating system; the table is the parameter \<open>upcase\<close>.  A negative
  count stands for a terminated string.  The object name that \<open>NtQueryObject\<close> returns for a
  handle is a parameter as well.
\<close>

section \<open>Definitions\<close>

type_synonym upcase_table = "wchar \<Rightarrow> wchar"

definition CompareOrdinalIgnoreCase :: "upcase_table \<Rightarrow> wstr \<Rightarrow> wstr \<Rightarrow> bool" where
  "CompareOrdinalIgnoreCase upcase a b = (map upcase a = map upcase b)"

subsection \<open>Device names\<close>

definition EqualName :: "upcase_table \<Rightarrow> wstr \<Rightarrow> wstr \<Rightarrow> bool" where
  "EqualName upcase value expected = CompareOrdinalIgnoreCase upcase value expected"

text \<open>The literals of the source; \<open>backslash\<close> is a backslash.\<close>

abbreviation (input) backslash :: wstr where "backslash \<equiv> [0x5c]"

definition dos_device :: "string \<Rightarrow> wstr" where
  "dos_device name = backslash @ backslash @ wide ''.'' @ backslash @ wide name"

definition nt_dos_device :: "string \<Rightarrow> wstr" where
  "nt_dos_device name = backslash @ wide ''??'' @ backslash @ wide name"

definition nt_device :: "string \<Rightarrow> wstr" where
  "nt_device name = backslash @ wide ''Device'' @ backslash @ wide name"

definition IsNullDevicePath :: "upcase_table \<Rightarrow> wchar_ptr \<Rightarrow> bool" where
  "IsNullDevicePath upcase path = (case path of None \<Rightarrow> False | Some path \<Rightarrow>
     if c_str path = [] then False
     else EqualName upcase (c_str path) (wide ''NUL'') \<or>
          EqualName upcase (c_str path) (wide ''NUL:'') \<or>
          EqualName upcase (c_str path) (dos_device ''NUL'') \<or>
          EqualName upcase (c_str path) (nt_dos_device ''NUL'') \<or>
          EqualName upcase (c_str path) (nt_device ''Null''))"

definition IsConsoleDevicePath :: "upcase_table \<Rightarrow> wchar_ptr \<Rightarrow> bool" where
  "IsConsoleDevicePath upcase path = (case path of None \<Rightarrow> False | Some path \<Rightarrow>
     if c_str path = [] then False
     else EqualName upcase (c_str path) (wide ''CONIN$'') \<or>
          EqualName upcase (c_str path) (wide ''CONOUT$'') \<or>
          EqualName upcase (c_str path) (dos_device ''CONIN$'') \<or>
          EqualName upcase (c_str path) (dos_device ''CONOUT$''))"

definition IsKernelSecurityDevicePath :: "upcase_table \<Rightarrow> wchar_ptr \<Rightarrow> bool" where
  "IsKernelSecurityDevicePath upcase path = (case path of None \<Rightarrow> False | Some path \<Rightarrow>
     if c_str path = [] then False
     else EqualName upcase (c_str path) (wide ''KsecDD'') \<or>
          EqualName upcase (c_str path) (dos_device ''KsecDD'') \<or>
          EqualName upcase (c_str path) (nt_dos_device ''KsecDD'') \<or>
          EqualName upcase (c_str path) (nt_device ''KsecDD''))"

text \<open>
  The source compares \<open>afd_length\<close> code units of the path without knowing its length.  On a
  shorter path the terminator differs from the letter of the literal, so the comparison fails
  whatever follows it in memory.
\<close>

definition IsNetworkDevicePath :: "upcase_table \<Rightarrow> wchar_ptr \<Rightarrow> bool" where
  "IsNetworkDevicePath upcase path = (case path of None \<Rightarrow> False | Some path \<Rightarrow>
     if c_str path = [] then False
     else let path = c_str path; afd = nt_device ''Afd''; afd_length = length afd
          in if \<not> CompareOrdinalIgnoreCase upcase (take afd_length path) afd then False
             else length path = afd_length \<or> path ! afd_length = wchr_backslash)"

text \<open>
  \<open>object_name\<close> is what the query stores for a handle: the fields \<open>Length\<close> and \<open>Buffer\<close> of the
  \<open>UNICODE_STRING\<close>, the latter as an address, and the code units that lie there.  \<open>storage\<close> is
  the address of the 512-byte buffer.
\<close>

record object_name =
  on_length :: u16
  on_buffer :: u64
  on_units :: wstr

definition IsNullDeviceHandle ::
  "upcase_table \<Rightarrow> bool \<Rightarrow> u64 \<Rightarrow> object_name option \<Rightarrow> u64 \<Rightarrow> bool"
where
  "IsNullDeviceHandle upcase file_type_char handle query storage =
     (if handle = 0 \<or> handle = - 1 \<or> \<not> file_type_char then False
      else case query of None \<Rightarrow> False | Some information \<Rightarrow>
        if on_buffer information = 0 \<or> on_length information = 0 \<or> on_length information mod 2 \<noteq> 0 then False
        else let storage_end = storage + 512;
                 name_begin = on_buffer information;
                 name_end = name_begin + ucast (on_length information)
             in if name_begin < storage \<or> name_end < name_begin \<or> storage_end < name_end then False
                else EqualName upcase (take (unat (on_length information) div 2) (on_units information))
                       (nt_device ''Null''))"

subsection \<open>Classification of requests\<close>

abbreviation (input) FilesystemOperation_kCreate :: u8 where "FilesystemOperation_kCreate \<equiv> 3"
abbreviation (input) FilesystemOperation_kRead :: u8 where "FilesystemOperation_kRead \<equiv> 0"
abbreviation (input) FilesystemOperation_kWrite :: u8 where "FilesystemOperation_kWrite \<equiv> 1"
abbreviation (input) FilesystemOperation_kDelete :: u8 where "FilesystemOperation_kDelete \<equiv> 4"
abbreviation (input) FilesystemOperation_kMetadata :: u8 where "FilesystemOperation_kMetadata \<equiv> 2"

type_synonym ClassifiedAccess = "Access \<times> u8"

text \<open>The access rights and dispositions of the Windows headers.\<close>

abbreviation (input) GENERIC_READ :: u32 where "GENERIC_READ \<equiv> 0x80000000"
abbreviation (input) GENERIC_WRITE :: u32 where "GENERIC_WRITE \<equiv> 0x40000000"
abbreviation (input) GENERIC_EXECUTE :: u32 where "GENERIC_EXECUTE \<equiv> 0x20000000"
abbreviation (input) GENERIC_ALL :: u32 where "GENERIC_ALL \<equiv> 0x10000000"
abbreviation (input) MAXIMUM_ALLOWED :: u32 where "MAXIMUM_ALLOWED \<equiv> 0x02000000"
abbreviation (input) ACCESS_SYSTEM_SECURITY :: u32 where "ACCESS_SYSTEM_SECURITY \<equiv> 0x01000000"
abbreviation (input) SYNCHRONIZE :: u32 where "SYNCHRONIZE \<equiv> 0x00100000"
abbreviation (input) WRITE_OWNER :: u32 where "WRITE_OWNER \<equiv> 0x00080000"
abbreviation (input) WRITE_DAC :: u32 where "WRITE_DAC \<equiv> 0x00040000"
abbreviation (input) READ_CONTROL :: u32 where "READ_CONTROL \<equiv> 0x00020000"
abbreviation (input) DELETE_RIGHT :: u32 where "DELETE_RIGHT \<equiv> 0x00010000"
abbreviation (input) FILE_READ_DATA :: u32 where "FILE_READ_DATA \<equiv> 0x0001"
abbreviation (input) FILE_WRITE_DATA :: u32 where "FILE_WRITE_DATA \<equiv> 0x0002"
abbreviation (input) FILE_APPEND_DATA :: u32 where "FILE_APPEND_DATA \<equiv> 0x0004"
abbreviation (input) FILE_READ_EA :: u32 where "FILE_READ_EA \<equiv> 0x0008"
abbreviation (input) FILE_WRITE_EA :: u32 where "FILE_WRITE_EA \<equiv> 0x0010"
abbreviation (input) FILE_EXECUTE :: u32 where "FILE_EXECUTE \<equiv> 0x0020"
abbreviation (input) FILE_READ_ATTRIBUTES :: u32 where "FILE_READ_ATTRIBUTES \<equiv> 0x0080"
abbreviation (input) FILE_WRITE_ATTRIBUTES :: u32 where "FILE_WRITE_ATTRIBUTES \<equiv> 0x0100"

abbreviation (input) CREATE_NEW :: u32 where "CREATE_NEW \<equiv> 1"
abbreviation (input) CREATE_ALWAYS :: u32 where "CREATE_ALWAYS \<equiv> 2"
abbreviation (input) OPEN_EXISTING :: u32 where "OPEN_EXISTING \<equiv> 3"
abbreviation (input) OPEN_ALWAYS :: u32 where "OPEN_ALWAYS \<equiv> 4"
abbreviation (input) TRUNCATE_EXISTING :: u32 where "TRUNCATE_EXISTING \<equiv> 5"
abbreviation (input) FILE_FLAG_DELETE_ON_CLOSE :: u32 where "FILE_FLAG_DELETE_ON_CLOSE \<equiv> 0x04000000"
abbreviation (input) FILE_FLAG_OPEN_REPARSE_POINT :: u32 where "FILE_FLAG_OPEN_REPARSE_POINT \<equiv> 0x00200000"

definition write_access :: u32 where
  "write_access = GENERIC_ALL OR GENERIC_WRITE OR DELETE_RIGHT OR FILE_WRITE_DATA OR FILE_APPEND_DATA OR
     FILE_WRITE_EA OR FILE_WRITE_ATTRIBUTES OR WRITE_DAC OR WRITE_OWNER OR ACCESS_SYSTEM_SECURITY OR MAXIMUM_ALLOWED"

definition read_access :: u32 where
  "read_access = GENERIC_READ OR GENERIC_EXECUTE OR FILE_READ_DATA OR FILE_EXECUTE"

definition metadata_access :: u32 where
  "metadata_access = FILE_READ_ATTRIBUTES OR FILE_READ_EA OR READ_CONTROL OR SYNCHRONIZE"

definition known_access :: u32 where
  "known_access = write_access OR read_access OR metadata_access"

definition ClassifyCreateFileRequest :: "u32 \<Rightarrow> u32 \<Rightarrow> ClassifiedAccess" where
  "ClassifyCreateFileRequest desired_access creation_disposition =
     (if creation_disposition = CREATE_NEW \<or> creation_disposition = CREATE_ALWAYS \<or>
         creation_disposition = OPEN_ALWAYS
      then (Access_kWrite, FilesystemOperation_kCreate)
      else if creation_disposition = TRUNCATE_EXISTING then (Access_kWrite, FilesystemOperation_kWrite)
      else if creation_disposition \<noteq> OPEN_EXISTING then (Access_kWrite, FilesystemOperation_kWrite)
      else if desired_access AND write_access \<noteq> 0 \<or> desired_access AND NOT known_access \<noteq> 0
      then (Access_kWrite, FilesystemOperation_kWrite)
      else if desired_access AND read_access \<noteq> 0 then (Access_kRead, FilesystemOperation_kRead)
      else (Access_kMetadata, FilesystemOperation_kMetadata))"

definition ClassifyCreateFileRequestWithFlags :: "u32 \<Rightarrow> u32 \<Rightarrow> u32 \<Rightarrow> ClassifiedAccess" where
  "ClassifyCreateFileRequestWithFlags desired_access creation_disposition flags_and_attributes =
     (if flags_and_attributes AND FILE_FLAG_DELETE_ON_CLOSE \<noteq> 0
      then (Access_kWrite, FilesystemOperation_kDelete)
      else ClassifyCreateFileRequest desired_access creation_disposition)"

definition RequiresPreOpenFinalResolution :: "ClassifiedAccess \<Rightarrow> u32 \<Rightarrow> bool" where
  "RequiresPreOpenFinalResolution request flags_and_attributes =
     (fst request = Access_kWrite \<or>
      flags_and_attributes AND (FILE_FLAG_DELETE_ON_CLOSE OR FILE_FLAG_OPEN_REPARSE_POINT) \<noteq> 0)"

text \<open>The order of the accesses: what may be written may be read, what may be read may be looked at.\<close>

fun access_rank :: "Access \<Rightarrow> nat" where
  "access_rank Access_kMetadata = 0"
| "access_rank Access_kRead = 1"
| "access_rank Access_kWrite = 2"

section \<open>Properties of the classification\<close>

lemma rights_partition:
  "write_access AND read_access = 0" "write_access AND metadata_access = 0" "read_access AND metadata_access = 0"
  by (simp_all add: write_access_def read_access_def metadata_access_def)

lemma and_mono_nonzero: "(a :: u32) AND b = a \<Longrightarrow> a AND m \<noteq> 0 \<Longrightarrow> b AND m \<noteq> 0"
  by (metis and.assoc and_zero_eq)

lemma classify_access:
  "fst (ClassifyCreateFileRequestWithFlags d c f) =
     (if f AND FILE_FLAG_DELETE_ON_CLOSE \<noteq> 0 \<or> c \<noteq> OPEN_EXISTING \<or> d AND write_access \<noteq> 0 \<or> d AND NOT known_access \<noteq> 0
      then Access_kWrite else if d AND read_access \<noteq> 0 then Access_kRead else Access_kMetadata)"
  by (simp add: ClassifyCreateFileRequestWithFlags_def ClassifyCreateFileRequest_def)

lemma subset_known:
  "(d :: u32) AND w = 0 \<Longrightarrow> d AND NOT (w OR r OR m) = 0 \<Longrightarrow> d AND r = 0 \<Longrightarrow> d AND m = d"
  by (simp add: bit_eq_iff bit_simps) blast

lemma subset_known2:
  "(d :: u32) AND w = 0 \<Longrightarrow> d AND NOT (w OR r OR m) = 0 \<Longrightarrow> d AND (r OR m) = d"
  by (simp add: bit_eq_iff bit_simps) blast

lemma access_masks_disjoint:
  "metadata_access AND write_access = 0" "metadata_access AND read_access = 0" "read_access AND write_access = 0"
  using rights_partition by (simp_all add: and.commute)

lemma and_or_zero: "(f :: u32) AND (a OR b) = 0 \<longleftrightarrow> f AND a = 0 \<and> f AND b = 0"
  by (auto simp: bit_eq_iff bit_simps)

lemma subset_disjoint: "(d :: u32) AND m = d \<Longrightarrow> m AND w = 0 \<Longrightarrow> d AND w = 0"
  by (metis and.assoc and_zero_eq)

lemma subset_not_outside: "(d :: u32) AND m = d \<Longrightarrow> d AND NOT (w OR r OR m) = 0"
  "(d :: u32) AND (r OR m) = d \<Longrightarrow> d AND NOT (w OR r OR m) = 0"
  by (auto simp: bit_eq_iff bit_simps)

lemma disjoint_union: "(r :: u32) AND w = 0 \<Longrightarrow> m AND w = 0 \<Longrightarrow> (r OR m) AND w = 0"
  using and_or_zero [of w r m] by (simp add: and.commute)

text \<open>
  C27. Exactly how a request is classified.  It counts as a metadata access if and only if it opens
  an existing file without deleting it on close and every requested right is one of the metadata rights; as a
  read if and only if it opens an existing file in that way, every requested right reads data or
  metadata, and some right reads data; and as a write in all other cases, in particular if any requested
  right is unknown.  Adding rights to a request never lowers its class.  The predicate that asks for the
  final path before the file is opened holds exactly for the writes and for requests that open a
  reparse point itself.
\<close>

theorem classification_sound:
  shows "(fst (ClassifyCreateFileRequestWithFlags d c f) = Access_kMetadata \<longleftrightarrow>
      c = OPEN_EXISTING \<and> f AND FILE_FLAG_DELETE_ON_CLOSE = 0 \<and> d AND metadata_access = d) \<and>
    (fst (ClassifyCreateFileRequestWithFlags d c f) = Access_kRead \<longleftrightarrow>
      c = OPEN_EXISTING \<and> f AND FILE_FLAG_DELETE_ON_CLOSE = 0 \<and> d AND (read_access OR metadata_access) = d \<and>
      d AND read_access \<noteq> 0) \<and>
    (fst (ClassifyCreateFileRequestWithFlags d c f) = Access_kWrite \<longleftrightarrow>
      c \<noteq> OPEN_EXISTING \<or> f AND FILE_FLAG_DELETE_ON_CLOSE \<noteq> 0 \<or> d AND (read_access OR metadata_access) \<noteq> d) \<and>
    (d AND d' = d \<longrightarrow> access_rank (fst (ClassifyCreateFileRequestWithFlags d c f)) \<le>
      access_rank (fst (ClassifyCreateFileRequestWithFlags d' c f))) \<and>
    (RequiresPreOpenFinalResolution (ClassifyCreateFileRequestWithFlags d c f) f \<longleftrightarrow>
      c \<noteq> OPEN_EXISTING \<or> f AND FILE_FLAG_DELETE_ON_CLOSE \<noteq> 0 \<or> d AND (read_access OR metadata_access) \<noteq> d \<or>
      f AND FILE_FLAG_OPEN_REPARSE_POINT \<noteq> 0)"
proof -
  let ?W = "d AND write_access \<noteq> 0 \<or> d AND NOT known_access \<noteq> 0"
  have w: "?W \<longleftrightarrow> d AND (read_access OR metadata_access) \<noteq> d"
    using subset_known2 [of d write_access read_access metadata_access]
      subset_disjoint [of d "read_access OR metadata_access" write_access]
      subset_not_outside(2) [of d read_access metadata_access write_access]
      disjoint_union [OF access_masks_disjoint(3,1)]
    unfolding known_access_def by blast
  have m: "\<not> ?W \<and> d AND read_access = 0 \<longleftrightarrow> d AND metadata_access = d"
    using subset_known [of d write_access read_access metadata_access] subset_disjoint [OF _ access_masks_disjoint(1), of d]
      subset_disjoint [OF _ access_masks_disjoint(2), of d] subset_not_outside(1) [of d metadata_access write_access read_access]
    unfolding known_access_def by blast
  have "access_rank (fst (ClassifyCreateFileRequestWithFlags d c f)) \<le>
      access_rank (fst (ClassifyCreateFileRequestWithFlags d' c f))" if "d AND d' = d"
    using and_mono_nonzero [OF that] unfolding classify_access by auto
  moreover have "f AND (FILE_FLAG_DELETE_ON_CLOSE OR FILE_FLAG_OPEN_REPARSE_POINT) = 0 \<longleftrightarrow>
      f AND FILE_FLAG_DELETE_ON_CLOSE = 0 \<and> f AND FILE_FLAG_OPEN_REPARSE_POINT = 0"
    by (rule and_or_zero)
  ultimately show ?thesis
    using w m unfolding RequiresPreOpenFinalResolution_def classify_access by auto
qed

theorem classification_sound_witness:
  "fst (ClassifyCreateFileRequestWithFlags GENERIC_READ OPEN_EXISTING 0) = Access_kRead \<and>
   fst (ClassifyCreateFileRequestWithFlags (GENERIC_READ OR FILE_WRITE_ATTRIBUTES) OPEN_EXISTING 0) = Access_kWrite \<and>
   GENERIC_READ AND (read_access OR metadata_access) = GENERIC_READ \<and>
   RequiresPreOpenFinalResolution (ClassifyCreateFileRequestWithFlags 0x80 OPEN_EXISTING FILE_FLAG_DELETE_ON_CLOSE) FILE_FLAG_DELETE_ON_CLOSE"
proof -
  have r: "fst (ClassifyCreateFileRequestWithFlags GENERIC_READ OPEN_EXISTING 0) = Access_kRead" by code_simp
  have w: "fst (ClassifyCreateFileRequestWithFlags (GENERIC_READ OR FILE_WRITE_ATTRIBUTES) OPEN_EXISTING 0) = Access_kWrite" by code_simp
  have f: "FILE_FLAG_DELETE_ON_CLOSE AND FILE_FLAG_DELETE_ON_CLOSE \<noteq> (0 :: u32)" by simp
  show ?thesis
    using r w classification_sound [where d = GENERIC_READ and c = OPEN_EXISTING and f = 0]
      classification_sound [where d = "0x80" and c = OPEN_EXISTING and f = FILE_FLAG_DELETE_ON_CLOSE] f by blast
qed

end
