(* ===== verification/FilesystemPolicy.thy ===== *)
theory FilesystemPolicy
  imports AccessRules PolicyPayload
begin

text \<open>
  \<open>src/native/hook/filesystem/filesystem_policy.cpp\<close>: loading the filesystem rules of a policy
  payload and deciding accesses with them.  One definition per function, in the order of the
  source.

  What the operating system and the path library answer is collected in the record \<open>path_os\<close>,
  a parameter of the definitions: the upper-case table of \<open>CompareStringOrdinal\<close>, whether the
  parent directory of a path is case-sensitive, the identity of a file, the drives with their
  volume and device names, and the canonical form that \<open>CanonicalizedPath\<close> computes.
  Allocations succeed, so the status \<open>kOutOfMemory\<close> does not occur.
\<close>

section \<open>Definitions\<close>

datatype PathType = PathType_Win32 | PathType_LocalDevice | PathType_Win32Nt

type_synonym file_identity = "u64 \<times> bytes"

record path_os =
  os_upcase :: upcase_table
  os_parent_case_sensitive :: "wstr \<Rightarrow> bool"
  os_file_identity :: "wstr \<Rightarrow> file_identity option"
  os_drive_strings :: "wstr list"
  os_volume_name :: "wstr \<Rightarrow> wstr option"
  os_dos_device :: "wstr \<Rightarrow> wstr option"
  os_canonicalize :: "wstr \<Rightarrow> (PathType \<times> wstr) option"

datatype RuleKind =
    Rule_kReadWrite
  | Rule_kReadOnly
  | Rule_kDeny
  | Rule_kMetadataRead
  | Rule_kInheritUser
  | Rule_kDeviceReadOnly

definition rule_kind :: "u8 \<Rightarrow> RuleKind" where
  "rule_kind k =
     (if k = 0 then Rule_kReadWrite else if k = 1 then Rule_kReadOnly else if k = 2 then Rule_kDeny
      else if k = 3 then Rule_kMetadataRead else if k = 4 then Rule_kInheritUser else Rule_kDeviceReadOnly)"

record Rule =
  rule_root :: wstr
  rule_kind_of :: RuleKind
  rule_depth :: nat
  rule_case_sensitive :: bool

record PathAlias =
  alias_prefix :: wstr
  alias_replacement :: wstr

definition INT_MAX :: int where
  "INT_MAX = 2147483647"

definition IsDirectorySeparator :: "wchar \<Rightarrow> bool" where
  "IsDirectorySeparator c = (c = wchr_backslash \<or> c = wchr_slash)"

subsection \<open>Parsing a rule\<close>

definition code_unit :: "bytes \<Rightarrow> nat \<Rightarrow> wchar" where
  "code_unit bytes index = ucast (bytes ! (index * 2)) OR push_bit 8 (ucast (bytes ! (index * 2 + 1)))"

definition ReadComponent :: "Reader \<Rightarrow> (u8 \<times> wstr \<times> Reader) option" where
  "ReadComponent reader = do {
     (kind, reader) \<leftarrow> ReaderU8 reader;
     (code_units, reader) \<leftarrow> ReadCount reader;
     if 0x7FFFFFFFFFFFFFFF < (of_nat code_units :: u64) then None
     else do {
       (bytes, reader) \<leftarrow> ReadBytes (code_units * 2) reader;
       let value = map (code_unit bytes) [0..<code_units] in
       if list_ex (\<lambda>u. u = 0) value then None else Some (kind, value, reader) } }"

definition HasSeparator :: "wstr \<Rightarrow> bool" where
  "HasSeparator value = list_ex (\<lambda>c. c = wchr_backslash \<or> c = wchr_slash) value"

text \<open>The loop over the components behind the prefix; the argument is the rest of the path.\<close>

function DeviceComponents :: "wstr \<Rightarrow> bool" where
  "DeviceComponents rest =
     (if rest = [] then True
      else let component = takeWhile (\<lambda>c. c \<noteq> wchr_backslash) rest
           in if component = [] \<or> component = wide ''.'' \<or> component = wide ''..'' then False
              else DeviceComponents (drop (length component + 1) rest))"
  by pat_completeness auto
termination
  by (relation "measure length") auto

declare DeviceComponents.simps [simp del]

definition ValidExactDevicePath :: "upcase_table \<Rightarrow> wstr \<Rightarrow> bool" where
  "ValidExactDevicePath upcase value =
     (let prefix = nt_device ''''; prefix_length = length prefix;
          win32_prefix = dos_device ''''; win32_prefix_length = length win32_prefix
      in if value = [] \<or> 1024 < length value \<or> last value = wchr_backslash \<or>
            list_ex (\<lambda>c. c = wchr_slash \<or> c = wchr_colon \<or> c = 0x2a \<or> c = wchr_question) value
         then False
         else if win32_prefix_length < length value \<and>
                 CompareOrdinalIgnoreCase upcase (take win32_prefix_length value) win32_prefix
         then \<not> list_ex (\<lambda>c. c = wchr_backslash) (drop win32_prefix_length value)
         else if length value \<le> prefix_length \<or>
                 \<not> CompareOrdinalIgnoreCase upcase (take prefix_length value) prefix
         then False
         else DeviceComponents (drop prefix_length value))"

definition push_separator :: "wstr \<Rightarrow> wstr" where
  "push_separator root = (if \<not> IsDirectorySeparator (last root) then root @ [wchr_backslash] else root)"

fun ReadPathComponents :: "nat \<Rightarrow> wstr \<Rightarrow> Reader \<Rightarrow> (wstr \<times> Reader) option" where
  "ReadPathComponents 0 root reader = Some (root, reader)"
| "ReadPathComponents (Suc n) root reader = do {
     (component_kind, component, reader) \<leftarrow> ReadComponent reader;
     if component_kind \<noteq> 2 \<or> component = [] \<or> HasSeparator component \<or>
        component = wide ''.'' \<or> component = wide ''..''
     then None
     else ReadPathComponents n (push_separator root @ component) reader }"

definition ParseRule :: "upcase_table \<Rightarrow> bytes \<Rightarrow> Rule option" where
  "ParseRule upcase bytes = do {
     (kind, reader) \<leftarrow> ReaderU8 bytes;
     if 5 < kind then None
     else do {
       (component_count, reader) \<leftarrow> ReadCount reader;
       if kind = 5 then
         if component_count \<noteq> 1 then None
         else do {
           (component_kind, device, reader) \<leftarrow> ReadComponent reader;
           if component_kind \<noteq> 3 \<or> \<not> ValidExactDevicePath upcase device \<or> \<not> Finished reader then None
           else Some \<lparr> rule_root = device, rule_kind_of = Rule_kDeviceReadOnly, rule_depth = 1,
                        rule_case_sensitive = False \<rparr> }
       else if component_count < 2 then None
       else do {
         (component_kind, component, reader) \<leftarrow> ReadComponent reader;
         if component_kind \<noteq> 0 \<or> component = [] then None
         else do {
           let root = component;
           (component_kind, component, reader) \<leftarrow> ReadComponent reader;
           if component_kind \<noteq> 1 \<or> component \<noteq> [] then None
           else do {
             let root = (if root \<noteq> [] \<and> \<not> IsDirectorySeparator (last root) then root @ [wchr_backslash] else root);
             (root, reader) \<leftarrow> ReadPathComponents (component_count - 2) root reader;
             if Finished reader
             then Some \<lparr> rule_root = root, rule_kind_of = rule_kind kind, rule_depth = component_count,
                          rule_case_sensitive = False \<rparr>
             else None } } } } }"

subsection \<open>Comparing paths\<close>

definition EqualIgnoreCase :: "upcase_table \<Rightarrow> wstr \<Rightarrow> wstr \<Rightarrow> bool" where
  "EqualIgnoreCase upcase left right =
     (if length left \<noteq> length right \<or> INT_MAX < int (length left) then False
      else CompareOrdinalIgnoreCase upcase left right)"

definition QueryCaseSensitiveIdentity :: "path_os \<Rightarrow> wstr \<Rightarrow> file_identity option" where
  "QueryCaseSensitiveIdentity os root =
     (if take 2 root = backslash @ backslash then None
      else if \<not> os_parent_case_sensitive os root then None
      else os_file_identity os root)"

definition EnableCaseSensitiveRules :: "path_os \<Rightarrow> Rule \<Rightarrow> Rule \<Rightarrow> (Rule \<times> Rule) option" where
  "EnableCaseSensitiveRules os left right = do {
     left_identity \<leftarrow> QueryCaseSensitiveIdentity os (rule_root left);
     right_identity \<leftarrow> QueryCaseSensitiveIdentity os (rule_root right);
     if left_identity = right_identity then None
     else Some (left\<lparr> rule_case_sensitive := True \<rparr>, right\<lparr> rule_case_sensitive := True \<rparr>) }"

definition CompareOrdinal :: "upcase_table \<Rightarrow> bool \<Rightarrow> wstr \<Rightarrow> wstr \<Rightarrow> bool" where
  "CompareOrdinal upcase ignore_case a b = (if ignore_case then CompareOrdinalIgnoreCase upcase a b else a = b)"

definition RootContains :: "upcase_table \<Rightarrow> wstr \<Rightarrow> wstr \<Rightarrow> bool \<Rightarrow> bool" where
  "RootContains upcase root path case_sensitive =
     (let path_length = length path
      in if path_length < length root \<or> INT_MAX < int (length root) then False
         else if \<not> CompareOrdinal upcase (\<not> case_sensitive) root (take (length root) path) then False
         else length root = path_length \<or> IsDirectorySeparator (last root) \<or>
              IsDirectorySeparator (path ! length root))"

definition HasPrefixIgnoreCase :: "upcase_table \<Rightarrow> wstr \<Rightarrow> wstr \<Rightarrow> bool" where
  "HasPrefixIgnoreCase upcase value prefix =
     (length prefix \<le> length value \<and> int (length prefix) \<le> INT_MAX \<and>
      CompareOrdinalIgnoreCase upcase (take (length prefix) value) prefix)"

fun ReplaceAlias :: "upcase_table \<Rightarrow> wstr \<Rightarrow> PathAlias list \<Rightarrow> wstr option" where
  "ReplaceAlias upcase path [] = None"
| "ReplaceAlias upcase path (alias # aliases) =
     (if \<not> HasPrefixIgnoreCase upcase path (alias_prefix alias) \<or>
         (length (alias_prefix alias) < length path \<and>
          \<not> IsDirectorySeparator (last (alias_prefix alias)) \<and>
          \<not> IsDirectorySeparator (path ! length (alias_prefix alias)))
      then ReplaceAlias upcase path aliases
      else Some (alias_replacement alias @ drop (length (alias_prefix alias)) path))"

definition drive_aliases :: "path_os \<Rightarrow> wstr \<Rightarrow> PathAlias list" where
  "drive_aliases os drive =
     (if length drive < 3 then []
      else (case os_volume_name os drive of
              None \<Rightarrow> []
            | Some volume \<Rightarrow>
                if take 4 volume = backslash @ backslash @ wide ''?'' @ backslash \<and> 4 < length volume
                then [\<lparr> alias_prefix = drop 4 volume, alias_replacement = drive \<rparr>] else []) @
           (let drive_name = [drive ! 0, wchr_colon]
            in case os_dos_device os drive_name of
                 None \<Rightarrow> []
               | Some device_name \<Rightarrow> [\<lparr> alias_prefix = device_name, alias_replacement = drive_name \<rparr>]))"

definition LoadPathAliases :: "path_os \<Rightarrow> PathAlias list" where
  "LoadPathAliases os = concat (map (drive_aliases os) (os_drive_strings os))"

definition AssignPolicyPath :: "path_os \<Rightarrow> wchar_ptr \<Rightarrow> PathAlias list \<Rightarrow> wstr option" where
  "AssignPolicyPath os path aliases = (case path of None \<Rightarrow> None | Some path \<Rightarrow>
     let raw_path = c_str path
     in case ReplaceAlias (os_upcase os) raw_path aliases of
         Some normalized_path \<Rightarrow> Some normalized_path
       | None \<Rightarrow> (case os_canonicalize os raw_path of
           None \<Rightarrow> None
         | Some (type, normalized) \<Rightarrow>
             let unc_marker = wide ''UNC'' @ backslash;
                 normalized_path =
                   (if type = PathType_Win32Nt \<and> length unc_marker \<le> length normalized \<and>
                       CompareOrdinalIgnoreCase (os_upcase os) (take (length unc_marker) normalized) unc_marker
                    then backslash @ backslash @ drop (length unc_marker) normalized
                    else normalized)
             in case ReplaceAlias (os_upcase os) normalized_path aliases of
                  Some replaced \<Rightarrow> Some replaced
                | None \<Rightarrow> Some normalized_path))"

fun ApplyRule :: "RuleKind \<Rightarrow> Access \<Rightarrow> FsDecision" where
  "ApplyRule Rule_kReadWrite access = FsDecision_kAllow"
| "ApplyRule Rule_kReadOnly access = (if access = Access_kWrite then FsDecision_kDeny else FsDecision_kAllow)"
| "ApplyRule Rule_kDeny access = FsDecision_kDeny"
| "ApplyRule Rule_kMetadataRead access = (if access = Access_kMetadata then FsDecision_kAllow else FsDecision_kDeny)"
| "ApplyRule Rule_kInheritUser access = FsDecision_kInheritUser"
| "ApplyRule Rule_kDeviceReadOnly access = (if access = Access_kWrite then FsDecision_kDeny else FsDecision_kAllow)"

subsection \<open>Loading\<close>

record FilesystemPolicy =
  fp_rules :: "Rule list"
  fp_aliases :: "PathAlias list"
  fp_decision_cache :: PolicyDecisionCache

datatype FsLoadStatus =
    FsLoad_kValid
  | FsLoad_kInvalidPayload
  | FsLoad_kInvalidFilesystemPolicy
  | FsLoad_kOutOfMemory

text \<open>
  The loop that compares a new rule with the rules read so far: it may mark an existing rule
  and the new one as case-sensitive, and fails on a contradiction.
\<close>

fun CheckExistingRules :: "path_os \<Rightarrow> Rule list \<Rightarrow> Rule \<Rightarrow> (Rule list \<times> Rule) option" where
  "CheckExistingRules os [] rule = Some ([], rule)"
| "CheckExistingRules os (existing # rest) rule =
     (if \<not> EqualIgnoreCase (os_upcase os) (rule_root existing) (rule_root rule) \<or>
         rule_kind_of existing = rule_kind_of rule
      then do { (rest, rule) \<leftarrow> CheckExistingRules os rest rule; Some (existing # rest, rule) }
      else if rule_root existing \<noteq> rule_root rule
      then do {
        (existing, rule) \<leftarrow> EnableCaseSensitiveRules os existing rule;
        (rest, rule) \<leftarrow> CheckExistingRules os rest rule;
        Some (existing # rest, rule) }
      else if rule_kind_of existing \<noteq> Rule_kDeny \<and> rule_kind_of rule \<noteq> Rule_kDeny then None
      else do { (rest, rule) \<leftarrow> CheckExistingRules os rest rule; Some (existing # rest, rule) })"

fun LoadRules :: "path_os \<Rightarrow> nat \<Rightarrow> Rule list \<Rightarrow> Reader \<Rightarrow> Rule list option" where
  "LoadRules os 0 rules body = Some rules"
| "LoadRules os (Suc n) rules body = do {
     (record_bytes, body) \<leftarrow> ReadSizedBytes body;
     rule \<leftarrow> ParseRule (os_upcase os) record_bytes;
     (rules, rule) \<leftarrow> CheckExistingRules os rules rule;
     LoadRules os n (rules @ [rule]) body }"

definition FilesystemPolicy_Load ::
  "(bytes \<Rightarrow> bytes option) \<Rightarrow> (bytes \<Rightarrow> bool) \<Rightarrow> path_os \<Rightarrow> byte_ptr \<Rightarrow> FsLoadStatus \<times> FilesystemPolicy option"
where
  "FilesystemPolicy_Load sha256 is_utf8 os payload =
     (if ValidatePolicyPayload sha256 is_utf8 payload \<noteq> Policy_kValid then (FsLoad_kInvalidPayload, None)
      else case do {
          (child_policy, body) \<leftarrow> ReaderU8 (drop kPolicyEnvelopeLength (the payload));
          (rule_count, body) \<leftarrow> ReadCount body;
          LoadRules os rule_count [] body } of
        None \<Rightarrow> (FsLoad_kInvalidFilesystemPolicy, None)
      | Some rules \<Rightarrow>
          (FsLoad_kValid, Some \<lparr> fp_rules = rules, fp_aliases = LoadPathAliases os,
                                  fp_decision_cache = PolicyDecisionCache_init \<rparr>))"

subsection \<open>Deciding\<close>

definition RuleMatches :: "upcase_table \<Rightarrow> Rule \<Rightarrow> wstr \<Rightarrow> bool" where
  "RuleMatches upcase rule normalized =
     (if rule_kind_of rule = Rule_kDeviceReadOnly
      then EqualIgnoreCase upcase (rule_root rule) normalized
      else RootContains upcase (rule_root rule) normalized (rule_case_sensitive rule))"

text \<open>The loop over the rules: \<open>Inl\<close> is a return from inside the loop, \<open>Inr\<close> its normal end.\<close>

fun EvaluateRules ::
  "upcase_table \<Rightarrow> Access \<Rightarrow> wstr \<Rightarrow> Rule list \<Rightarrow> nat \<Rightarrow> FsDecision \<Rightarrow> FsDecision + FsDecision"
where
  "EvaluateRules upcase access normalized [] maximum_depth decision = Inr decision"
| "EvaluateRules upcase access normalized (rule # rules) maximum_depth decision =
     (if \<not> RuleMatches upcase rule normalized
      then EvaluateRules upcase access normalized rules maximum_depth decision
      else if rule_kind_of rule = Rule_kDeny then Inl FsDecision_kDeny
      else if maximum_depth < rule_depth rule
      then EvaluateRules upcase access normalized rules (rule_depth rule) (ApplyRule (rule_kind_of rule) access)
      else if rule_depth rule = maximum_depth
      then let candidate = ApplyRule (rule_kind_of rule) access
           in if candidate = FsDecision_kDeny then Inl FsDecision_kDeny
              else EvaluateRules upcase access normalized rules maximum_depth
                     (if candidate = FsDecision_kInheritUser then candidate else decision)
      else EvaluateRules upcase access normalized rules maximum_depth decision)"

definition DeviceRule :: "upcase_table \<Rightarrow> Rule list \<Rightarrow> wstr \<Rightarrow> Rule option" where
  "DeviceRule upcase rules path =
     List.find (\<lambda>rule. rule_kind_of rule = Rule_kDeviceReadOnly \<and> EqualIgnoreCase upcase (rule_root rule) path) rules"

definition FilesystemPolicy_Evaluate ::
  "path_os \<Rightarrow> FilesystemPolicy \<Rightarrow> wchar_ptr \<Rightarrow> Access \<Rightarrow> PolicyEvaluation \<times> FilesystemPolicy"
where
  "FilesystemPolicy_Evaluate os policy path access =
     (if path = None then (PolicyEvaluation_init, policy)
      else if IsNullDevicePath (os_upcase os) path
      then (\<lparr> pe_decision = FsDecision_kAllow, pe_normalized_path = wide ''NUL'' \<rparr>, policy)
      else case DeviceRule (os_upcase os) (fp_rules policy) (c_str (the path)) of
          Some rule \<Rightarrow>
            (\<lparr> pe_decision = ApplyRule (rule_kind_of rule) access, pe_normalized_path = rule_root rule \<rparr>, policy)
        | None \<Rightarrow> (case PolicyDecisionCache_Lookup (fp_decision_cache policy) path access of
            Some evaluation \<Rightarrow> (evaluation, policy)
          | None \<Rightarrow> (case AssignPolicyPath os path (fp_aliases policy) of
              None \<Rightarrow> (PolicyEvaluation_init, policy)
            | Some normalized_path \<Rightarrow>
                (case EvaluateRules (os_upcase os) access (c_str normalized_path) (fp_rules policy) 0 FsDecision_kDeny of
                   Inl decision \<Rightarrow> (\<lparr> pe_decision = decision, pe_normalized_path = normalized_path \<rparr>, policy)
                 | Inr decision \<Rightarrow>
                     let evaluation = \<lparr> pe_decision = decision, pe_normalized_path = normalized_path \<rparr>
                     in (evaluation, policy\<lparr> fp_decision_cache :=
                           snd (PolicyDecisionCache_Store (fp_decision_cache policy) path access evaluation) \<rparr>)))))"

definition PolicyView_Decide :: "path_os \<Rightarrow> FilesystemPolicy \<Rightarrow> wchar_ptr \<Rightarrow> Access \<Rightarrow> FsDecision" where
  "PolicyView_Decide os policy path access = pe_decision (fst (FilesystemPolicy_Evaluate os policy path access))"

definition HasDeniedDescendant :: "path_os \<Rightarrow> FilesystemPolicy \<Rightarrow> wchar_ptr \<Rightarrow> bool" where
  "HasDeniedDescendant os policy path =
     (if path = None then True
      else case AssignPolicyPath os path (fp_aliases policy) of
          None \<Rightarrow> True
        | Some normalized_root \<Rightarrow>
            list_ex (\<lambda>rule. rule_kind_of rule = Rule_kDeny \<and> length normalized_root < length (rule_root rule) \<and>
                       RootContains (os_upcase os) normalized_root (rule_root rule) (rule_case_sensitive rule))
              (fp_rules policy))"

subsection \<open>What a policy says\<close>

definition fs_units :: "bytes \<Rightarrow> wstr" where
  "fs_units units = map (code_unit units) [0..<length units div 2]"

definition component_ok :: "fs_component \<Rightarrow> bool" where
  "component_ok c \<longleftrightarrow> 0 \<notin> set (fs_units (snd c))"

definition path_component_ok :: "fs_component \<Rightarrow> bool" where
  "path_component_ok c \<longleftrightarrow> fst c = 2 \<and> component_ok c \<and> fs_units (snd c) \<noteq> [] \<and> \<not> HasSeparator (fs_units (snd c)) \<and>
     fs_units (snd c) \<noteq> wide ''.'' \<and> fs_units (snd c) \<noteq> wide ''..''"

fun fs_rule_ok :: "upcase_table \<Rightarrow> fs_rule \<Rightarrow> bool" where
  "fs_rule_ok up (kind, components) =
     (if kind = 5 then (case components of
          [c] \<Rightarrow> component_ok c \<and> ValidExactDevicePath up (fs_units (snd c)) | _ \<Rightarrow> False)
      else (case components of
          c0 # c1 # rest \<Rightarrow> fst c0 = 0 \<and> component_ok c0 \<and> fs_units (snd c0) \<noteq> [] \<and> fst c1 = 1 \<and> list_all path_component_ok rest
        | _ \<Rightarrow> False))"

fun fs_rule_loaded :: "fs_rule \<Rightarrow> Rule" where
  "fs_rule_loaded (kind, components) =
     (if kind = 5
      then \<lparr> rule_root = fs_units (snd (hd components)), rule_kind_of = Rule_kDeviceReadOnly, rule_depth = 1,
              rule_case_sensitive = False \<rparr>
      else \<lparr> rule_root = foldl (\<lambda>root c. push_separator root @ fs_units (snd c))
                 (push_separator (fs_units (snd (hd components)))) (drop 2 components),
              rule_kind_of = rule_kind kind, rule_depth = length components, rule_case_sensitive = False \<rparr>)"

text \<open>
  Two rules clash if they name one path in different spellings and say different things; they
  are compatible if the file system tells the two spellings apart, or if they name the path in
  one spelling and one of them denies.
\<close>

definition clash :: "path_os \<Rightarrow> Rule \<Rightarrow> Rule \<Rightarrow> bool" where
  "clash os a b \<longleftrightarrow> EqualIgnoreCase (os_upcase os) (rule_root a) (rule_root b) \<and>
     rule_kind_of a \<noteq> rule_kind_of b \<and> rule_root a \<noteq> rule_root b"

definition distinct_files :: "path_os \<Rightarrow> wstr \<Rightarrow> wstr \<Rightarrow> bool" where
  "distinct_files os p q \<longleftrightarrow> QueryCaseSensitiveIdentity os p \<noteq> None \<and> QueryCaseSensitiveIdentity os q \<noteq> None \<and>
     QueryCaseSensitiveIdentity os p \<noteq> QueryCaseSensitiveIdentity os q"

definition compatible :: "path_os \<Rightarrow> Rule \<Rightarrow> Rule \<Rightarrow> bool" where
  "compatible os a b \<longleftrightarrow> (EqualIgnoreCase (os_upcase os) (rule_root a) (rule_root b) \<and> rule_kind_of a \<noteq> rule_kind_of b \<longrightarrow>
     (if rule_root a \<noteq> rule_root b then distinct_files os (rule_root a) (rule_root b)
      else rule_kind_of a = Rule_kDeny \<or> rule_kind_of b = Rule_kDeny))"

definition marked :: "path_os \<Rightarrow> Rule list \<Rightarrow> Rule list" where
  "marked os rules = map (\<lambda>r. r\<lparr> rule_case_sensitive := list_ex (clash os r) rules \<rparr>) rules"

fun add_rules :: "path_os \<Rightarrow> Rule list \<Rightarrow> Rule list \<Rightarrow> Rule list option" where
  "add_rules os acc [] = Some acc"
| "add_rules os acc (r # rs) = do { (acc, r) \<leftarrow> CheckExistingRules os acc r; add_rules os (acc @ [r]) rs }"

definition ascii_upcase :: upcase_table where
  "ascii_upcase c = (if 0x61 \<le> c \<and> c \<le> 0x7a then c - 0x20 else c)"

definition sample_os :: path_os where
  "sample_os = \<lparr> os_upcase = ascii_upcase, os_parent_case_sensitive = (\<lambda>_. False), os_file_identity = (\<lambda>_. None),
     os_drive_strings = [], os_volume_name = (\<lambda>_. None), os_dos_device = (\<lambda>_. None),
     os_canonicalize = (\<lambda>p. Some (PathType_Win32, p)) \<rparr>"

text \<open>\<open>C:\a\<close> may be read, \<open>C:\a\b\<close> written, \<open>C:\a\b\c\<close> is denied.\<close>

definition sample_fs_rules :: "fs_rule list" where
  "sample_fs_rules =
     [(1, [(0, [0x43, 0, 0x3a, 0]), (1, []), (2, [0x61, 0])]),
      (0, [(0, [0x43, 0, 0x3a, 0]), (1, []), (2, [0x61, 0]), (2, [0x62, 0])]),
      (2, [(0, [0x43, 0, 0x3a, 0]), (1, []), (2, [0x61, 0]), (2, [0x62, 0]), (2, [0x63, 0])])]"

definition sample_fs_body :: policy_body where
  "sample_fs_body = \<lparr> pb_child = 0, pb_filesystem = sample_fs_rules, pb_network = Network_mode 0, pb_registry = [] \<rparr>"

definition sample_fs_payload :: bytes where
  "sample_fs_payload = policy_envelope (replicate 32 0) (ser_body sample_fs_body)"

definition sample_fs_policy :: FilesystemPolicy where
  "sample_fs_policy = \<lparr> fp_rules = map fs_rule_loaded sample_fs_rules, fp_aliases = [],
     fp_decision_cache = PolicyDecisionCache_init \<rparr>"

section \<open>Loading\<close>

lemma length_fs_units: "length (fs_units u) = length u div 2"
  by (simp add: fs_units_def)

lemma ReadComponent_ser:
  assumes "wf_fs_component k c"
  shows "ReadComponent (ser_fs_component c @ t) =
    (if component_ok c then Some (fst c, fs_units (snd c), t) else None)"
proof -
  obtain kind units where c: "c = (kind, units)" by (cases c)
  have wf: "even (length units)" "count_ok (length units div 2)" using assms by (simp_all add: c wf_fs_component_def)
  have len: "length units = length units div 2 * 2" using wf(1) by simp
  have "unat (of_nat (length units div 2) :: u64) = length units div 2" using wf(2) by (simp add: unat_of_nat_less)
  then have small: "\<not> 0x7FFFFFFFFFFFFFFF < (of_nat (length units div 2) :: u64)"
    using wf(2) by (simp add: word_less_nat_alt)
  show ?thesis
    using wf small len
    by (simp add: c ReadComponent_def ser_fs_component_def component_ok_def fs_units_def Let_def list_ex_iff del: ReadCount_Some)
qed

lemma ReadPathComponents_ser:
  assumes "list_all (wf_fs_component k) cs"
  shows "ReadPathComponents (length cs) root (concat (map ser_fs_component cs) @ t) =
    (if list_all path_component_ok cs
     then Some (foldl (\<lambda>root c. push_separator root @ fs_units (snd c)) root cs, t) else None)"
  using assms
proof (induction cs arbitrary: root)
  case Nil
  then show ?case by simp
next
  case (Cons c cs)
  show ?case
    using Cons by (auto simp: ReadComponent_ser [of k] path_component_ok_def)
qed

lemma rule_kind_5: "rule_kind 5 = Rule_kDeviceReadOnly"
  by (simp add: rule_kind_def)

lemma ParseRule_device:
  assumes wf: "wf_fs_rule (5, components)"
  shows "ParseRule up (fs_record (5, components)) =
    (if fs_rule_ok up (5, components) then Some (fs_rule_loaded (5, components)) else None)"
proof -
  obtain c where c: "components = [c]"
    using wf by (auto simp: wf_fs_rule_def length_Suc_conv)
  have wfc: "wf_fs_component 5 c" using wf by (simp add: c wf_fs_rule_def)
  then have "fst c = 3" by (auto simp: wf_fs_component_def split: prod.splits)
  then show ?thesis
    using ReadComponent_ser [OF wfc, of "[]"]
    by (simp add: ParseRule_def fs_record_def c ser_list_def Finished_def del: ReadCount_Some)
qed

lemma ParseRule_path:
  assumes wf: "wf_fs_rule (kind, components)" and kind: "kind \<noteq> 5"
  shows "ParseRule up (fs_record (kind, components)) =
    (if fs_rule_ok up (kind, components) then Some (fs_rule_loaded (kind, components)) else None)"
proof -
  have le: "\<not> 5 < kind" and count: "count_ok (length components)" and wfc: "list_all (wf_fs_component kind) components"
    using wf by (auto simp: wf_fs_rule_def)
  have start: "ParseRule up (fs_record (kind, components)) = (if length components < 2 then None else do {
         (component_kind, component, reader) \<leftarrow> ReadComponent (concat (map ser_fs_component components));
         if component_kind \<noteq> 0 \<or> component = [] then None
         else do {
           let root = component;
           (component_kind, component, reader) \<leftarrow> ReadComponent reader;
           if component_kind \<noteq> 1 \<or> component \<noteq> [] then None
           else do {
             let root = (if root \<noteq> [] \<and> \<not> IsDirectorySeparator (last root) then root @ [wchr_backslash] else root);
             (root, reader) \<leftarrow> ReadPathComponents (length components - 2) root reader;
             if Finished reader
             then Some \<lparr> rule_root = root, rule_kind_of = rule_kind kind, rule_depth = length components,
                          rule_case_sensitive = False \<rparr>
             else None } } })"
    using kind le count by (simp add: ParseRule_def fs_record_def ser_list_def del: ReadCount_Some)
  show ?thesis
  proof (cases "length components < 2")
    case True
    then have "\<not> fs_rule_ok up (kind, components)" using kind by (auto split: list.splits)
    then show ?thesis using True start by simp
  next
    case False
    then obtain c0 c1 cs where c: "components = c0 # c1 # cs"
      by (cases components; cases "tl components") auto
    have w: "wf_fs_component kind c0" "wf_fs_component kind c1" "list_all (wf_fs_component kind) cs"
      using wfc by (simp_all add: c)
    have e1: "fst c1 = 1 \<Longrightarrow> fs_units (snd c1) = [] \<and> component_ok c1"
      using w(2) kind by (auto simp: wf_fs_component_def fs_units_def component_ok_def split: prod.splits)
    show ?thesis
      unfolding start unfolding c
      using kind e1 ReadPathComponents_ser [OF w(3), of _ "[]"]
      by (auto simp: ReadComponent_ser [OF w(1)] ReadComponent_ser [OF w(2)] Finished_def push_separator_def Let_def)
  qed
qed

lemma ParseRule_ser:
  assumes "wf_fs_rule r"
  shows "ParseRule up (fs_record r) = (if fs_rule_ok up r then Some (fs_rule_loaded r) else None)"
  using ParseRule_device [of "snd r" up] ParseRule_path [of "fst r" "snd r" up] assms
  by (cases r; cases "fst r = 5") (simp_all del: fs_rule_ok.simps fs_rule_loaded.simps)

lemma CheckExistingRules_eq:
  "CheckExistingRules os acc r =
     (if list_all (\<lambda>e. compatible os e r) acc
      then Some (map (\<lambda>e. if clash os e r then e\<lparr> rule_case_sensitive := True \<rparr> else e) acc,
                 if list_ex (\<lambda>e. clash os e r) acc then r\<lparr> rule_case_sensitive := True \<rparr> else r)
      else None)"
proof (induction acc arbitrary: r)
  case Nil
  then show ?case by simp
next
  case (Cons e acc)
  have inv: "compatible os e' (r\<lparr> rule_case_sensitive := True \<rparr>) \<longleftrightarrow> compatible os e' r"
    "clash os e' (r\<lparr> rule_case_sensitive := True \<rparr>) \<longleftrightarrow> clash os e' r" for e'
    by (simp_all add: compatible_def clash_def)
  have enable: "EnableCaseSensitiveRules os e r =
      (if distinct_files os (rule_root e) (rule_root r)
       then Some (e\<lparr> rule_case_sensitive := True \<rparr>, r\<lparr> rule_case_sensitive := True \<rparr>) else None)"
    by (cases "QueryCaseSensitiveIdentity os (rule_root e)"; cases "QueryCaseSensitiveIdentity os (rule_root r)")
      (simp_all add: EnableCaseSensitiveRules_def distinct_files_def)
  consider "\<not> EqualIgnoreCase (os_upcase os) (rule_root e) (rule_root r) \<or> rule_kind_of e = rule_kind_of r"
    | "clash os e r"
    | "EqualIgnoreCase (os_upcase os) (rule_root e) (rule_root r)" "rule_kind_of e \<noteq> rule_kind_of r" "rule_root e = rule_root r"
    unfolding clash_def by blast
  then show ?case
  proof cases
    case 1
    then have "compatible os e r" "\<not> clash os e r" by (auto simp: compatible_def clash_def)
    then show ?thesis using 1 Cons.IH [of r] by simp
  next
    case 2
    then have "\<not> (\<not> EqualIgnoreCase (os_upcase os) (rule_root e) (rule_root r) \<or> rule_kind_of e = rule_kind_of r)"
      "rule_root e \<noteq> rule_root r" "compatible os e r \<longleftrightarrow> distinct_files os (rule_root e) (rule_root r)"
      by (auto simp: clash_def compatible_def)
    then show ?thesis using 2 Cons.IH [of "r\<lparr> rule_case_sensitive := True \<rparr>"] by (simp add: enable inv)
  next
    case 3
    then have "compatible os e r \<longleftrightarrow> rule_kind_of e = Rule_kDeny \<or> rule_kind_of r = Rule_kDeny" "\<not> clash os e r"
      by (auto simp: compatible_def clash_def)
    then show ?thesis using 3 Cons.IH [of r] by simp
  qed
qed

lemma clash_sym: "clash os a b \<longleftrightarrow> clash os b a"
  by (auto simp: clash_def EqualIgnoreCase_def CompareOrdinalIgnoreCase_def)

lemma clash_flag [simp]:
  "clash os (a\<lparr> rule_case_sensitive := x \<rparr>) b \<longleftrightarrow> clash os a b"
  "compatible os (a\<lparr> rule_case_sensitive := x \<rparr>) b \<longleftrightarrow> compatible os a b"
  by (simp_all add: clash_def compatible_def)

lemma clash_irrefl: "\<not> clash os r r"
  by (simp add: clash_def)

lemma marked_snoc:
  assumes "\<not> rule_case_sensitive r"
  shows "marked os (rs @ [r]) =
     map (\<lambda>e. if clash os e r then e\<lparr> rule_case_sensitive := True \<rparr> else e) (marked os rs) @
     [if list_ex (\<lambda>e. clash os e r) (marked os rs) then r\<lparr> rule_case_sensitive := True \<rparr> else r]"
proof -
  have "list_ex (\<lambda>e. clash os e r) (marked os rs) \<longleftrightarrow> list_ex (clash os r) rs"
    using clash_sym [of os r] by (simp add: marked_def list_ex_iff)
  moreover have "r\<lparr> rule_case_sensitive := False \<rparr> = r" using assms by simp
  ultimately show ?thesis by (simp add: marked_def clash_irrefl)
qed

lemma add_rules_eq:
  "sorted_wrt (compatible os) acc \<Longrightarrow> list_all (\<lambda>r. \<not> rule_case_sensitive r) rs \<Longrightarrow>
   add_rules os (marked os acc) rs =
     (if sorted_wrt (compatible os) (acc @ rs) then Some (marked os (acc @ rs)) else None)"
proof (induction rs arbitrary: acc)
  case Nil
  then show ?case by simp
next
  case (Cons r rs)
  have all: "list_all (\<lambda>e. compatible os e r) (marked os acc) \<longleftrightarrow> (\<forall>e \<in> set acc. compatible os e r)"
    by (simp add: marked_def list_all_iff)
  show ?case
  proof (cases "\<forall>e \<in> set acc. compatible os e r")
    case True
    then have "sorted_wrt (compatible os) (acc @ [r])" using Cons.prems by (simp add: sorted_wrt_append)
    then have "add_rules os (marked os (acc @ [r])) rs =
        (if sorted_wrt (compatible os) (acc @ r # rs) then Some (marked os (acc @ r # rs)) else None)"
      using Cons.IH [of "acc @ [r]"] Cons.prems by simp
    then show ?thesis using True Cons.prems by (simp add: CheckExistingRules_eq all marked_snoc)
  next
    case False
    then have "\<not> sorted_wrt (compatible os) (acc @ r # rs)" by (auto simp: sorted_wrt_append)
    then show ?thesis using False by (auto simp: CheckExistingRules_eq all)
  qed
qed

lemma LoadRules_ser:
  assumes "list_all wf_fs_rule xs"
  shows "LoadRules os (length xs) acc (concat (map ser_fs_rule xs) @ t) =
    (if list_all (fs_rule_ok (os_upcase os)) xs then add_rules os acc (map fs_rule_loaded xs)
     else None)"
  using assms
proof (induction xs arbitrary: acc)
  case Nil
  then show ?case by simp
next
  case (Cons x xs)
  have wf: "count_ok (length (fs_record x))" using Cons.prems by (auto simp: wf_fs_rule_def)
  then have read: "ReadSizedBytes (ser_fs_rule x @ concat (map ser_fs_rule xs) @ t) = Some (fs_record x, concat (map ser_fs_rule xs) @ t)"
    by (simp add: ser_fs_rule_def del: ReadSizedBytes_Some)
  show ?case
    using Cons by (cases "CheckExistingRules os acc (fs_rule_loaded x)")
      (auto simp: read ParseRule_ser simp del: fs_rule_ok.simps fs_rule_loaded.simps ReadSizedBytes_Some)
qed

lemma loaded_flag: "\<not> rule_case_sensitive (fs_rule_loaded r)"
  by (cases r) (simp split: if_split)

lemma FilesystemPolicy_Load_body:
  assumes "wf_body u b" "drop 44 p = ser_body b" "ValidatePolicyPayload sha u (Some p) = Policy_kValid"
  shows "FilesystemPolicy_Load sha u os (Some p) =
    (if list_all (fs_rule_ok (os_upcase os)) (pb_filesystem b) \<and>
        sorted_wrt (compatible os) (map fs_rule_loaded (pb_filesystem b))
     then (FsLoad_kValid, Some \<lparr> fp_rules = marked os (map fs_rule_loaded (pb_filesystem b)),
             fp_aliases = LoadPathAliases os, fp_decision_cache = PolicyDecisionCache_init \<rparr>)
     else (FsLoad_kInvalidFilesystemPolicy, None))"
proof -
  let ?xs = "pb_filesystem b" and ?t = "ser_network (pb_network b) @ ser_list ser_registry_entry (pb_registry b)"
  have wf: "count_ok (length ?xs)" "list_all wf_fs_rule ?xs" using assms(1) by (simp_all add: wf_body_def)
  have flags: "list_all (\<lambda>r. \<not> rule_case_sensitive r) (map fs_rule_loaded ?xs)"
    by (simp add: list_all_iff loaded_flag del: fs_rule_loaded.simps)
  have "do { (child_policy, body) \<leftarrow> ReaderU8 (ser_body b); (rule_count, body) \<leftarrow> ReadCount body; LoadRules os rule_count [] body }
      = LoadRules os (length ?xs) [] (concat (map ser_fs_rule ?xs) @ ?t)"
    using wf(1) by (simp add: ser_body_def ser_list_def del: ReadCount_Some)
  also have "\<dots> = (if list_all (fs_rule_ok (os_upcase os)) ?xs then add_rules os (marked os []) (map fs_rule_loaded ?xs) else None)"
    using LoadRules_ser [OF wf(2), of os "[]" ?t] by (simp add: marked_def)
  also have "\<dots> = (if list_all (fs_rule_ok (os_upcase os)) ?xs \<and> sorted_wrt (compatible os) (map fs_rule_loaded ?xs)
      then Some (marked os (map fs_rule_loaded ?xs)) else None)"
    using add_rules_eq [of os "[]", OF _ flags] by simp
  finally have r: "do { (child_policy, body) \<leftarrow> ReaderU8 (ser_body b); (rule_count, body) \<leftarrow> ReadCount body; LoadRules os rule_count [] body } =
    (if list_all (fs_rule_ok (os_upcase os)) ?xs \<and> sorted_wrt (compatible os) (map fs_rule_loaded ?xs)
      then Some (marked os (map fs_rule_loaded ?xs)) else None)" .
  show ?thesis
    unfolding FilesystemPolicy_Load_def using assms(3) by (simp add: assms(2) r del: bind_eq_Some_conv)
qed

section \<open>A sample policy\<close>

lemma wf_sample_fs_body: "wf_body (\<lambda>_. True) sample_fs_body"
  by (simp add: wf_body_def sample_fs_body_def sample_fs_rules_def wf_fs_rule_def wf_fs_component_def fs_record_def
      ser_list_def ser_fs_component_def)

lemma length_sample_fs_body: "length (ser_body sample_fs_body) \<le> kPolicyMaximumBodyLength"
  by (simp add: ser_body_def sample_fs_body_def sample_fs_rules_def ser_fs_rule_def fs_record_def ser_sized_def
      ser_list_def ser_fs_component_def)

lemma sample_fs_valid:
  "ValidatePolicyPayload (\<lambda>_. Some (replicate 32 0)) (\<lambda>_. True) (Some sample_fs_payload) = Policy_kValid"
  "drop 44 sample_fs_payload = ser_body sample_fs_body"
  unfolding sample_fs_payload_def
  by (rule ValidatePolicyPayload_envelope [where sha = "\<lambda>_. Some (replicate 32 0)", OF wf_sample_fs_body length_sample_fs_body refl]; simp)+

lemma sample_fs_rules_ok:
  "list_all (fs_rule_ok ascii_upcase) sample_fs_rules" "sorted_wrt (compatible sample_os) (map fs_rule_loaded sample_fs_rules)"
  "marked sample_os (map fs_rule_loaded sample_fs_rules) = map fs_rule_loaded sample_fs_rules"
  by code_simp+

section \<open>Properties\<close>

text \<open>
  C28. Loading the filesystem policy from the envelope of any well-formed policy succeeds exactly
  if every rule is acceptable (a device path, or a drive or share followed by the root and named
  components without separators) and every two rules for one path are compatible.  It yields the
  rules of the policy in their order, with the joined components as root and their number as
  depth; a rule is matched case-sensitively exactly if it clashes with another one.
\<close>

theorem filesystem_load_exact:
  assumes "wf_body is_utf8 b" and "length (ser_body b) \<le> kPolicyMaximumBodyLength"
    and "sha256 (policy_head (length (ser_body b)) @ ser_body b) = Some digest" and "length digest = 32"
  shows "FilesystemPolicy_Load sha256 is_utf8 os (Some (policy_envelope digest (ser_body b))) =
    (if list_all (fs_rule_ok (os_upcase os)) (pb_filesystem b) \<and>
        sorted_wrt (compatible os) (map fs_rule_loaded (pb_filesystem b))
     then (FsLoad_kValid, Some \<lparr> fp_rules = marked os (map fs_rule_loaded (pb_filesystem b)),
             fp_aliases = LoadPathAliases os, fp_decision_cache = PolicyDecisionCache_init \<rparr>)
     else (FsLoad_kInvalidFilesystemPolicy, None))"
  using FilesystemPolicy_Load_body [OF assms(1)] ValidatePolicyPayload_envelope [where sha = sha256, OF assms] by blast

theorem filesystem_load_exact_witness:
  "FilesystemPolicy_Load (\<lambda>_. Some (replicate 32 0)) (\<lambda>_. True) sample_os (Some sample_fs_payload) =
     (FsLoad_kValid, Some sample_fs_policy)"
  using filesystem_load_exact [OF wf_sample_fs_body length_sample_fs_body, of "\<lambda>_. Some (replicate 32 0)" "replicate 32 0" sample_os]
    sample_fs_rules_ok
  by (simp add: sample_fs_payload_def sample_fs_policy_def sample_os_def sample_fs_body_def LoadPathAliases_def)

end
