(* ===== verification/FilesystemDecisions.thy ===== *)
theory FilesystemDecisions
  imports FilesystemPolicy "HOL-Library.Multiset"
begin

text \<open>
  What the decisions of a loaded filesystem policy mean: they do not depend on the decision
  cache, they are those of the deepest matching rules up to the exceptions in \<open>rules_decision\<close>,
  asking for fewer rights is never worse, and \<open>HasDeniedDescendant\<close> misses no denied path below a directory.
\<close>

section \<open>Definitions\<close>

definition fresh :: "FilesystemPolicy \<Rightarrow> FilesystemPolicy" where
  "fresh p = p\<lparr> fp_decision_cache := PolicyDecisionCache_init \<rparr>"

definition policy_inv :: "path_os \<Rightarrow> FilesystemPolicy \<Rightarrow> bool" where
  "policy_inv os p \<longleftrightarrow> decision_cache_inv (fp_decision_cache p) \<and>
     (\<forall>w a e. decided (fp_decision_cache p) (w, a) = Some e \<longrightarrow> fst (FilesystemPolicy_Evaluate os (fresh p) (Some w) a) = e)"

fun evaluate_all :: "path_os \<Rightarrow> FilesystemPolicy \<Rightarrow> (wchar_ptr \<times> Access) list \<Rightarrow> PolicyEvaluation list" where
  "evaluate_all os p [] = []"
| "evaluate_all os p ((path, access) # calls) =
     (let r = FilesystemPolicy_Evaluate os p path access in fst r # evaluate_all os (snd r) calls)"

definition early :: "path_os \<Rightarrow> Rule list \<Rightarrow> wchar_ptr \<Rightarrow> bool" where
  "early os rules path \<longleftrightarrow> path = None \<or> IsNullDevicePath (os_upcase os) path \<or>
     DeviceRule (os_upcase os) rules (c_str (the path)) \<noteq> None"

definition early_evaluation :: "path_os \<Rightarrow> Rule list \<Rightarrow> wchar_ptr \<Rightarrow> Access \<Rightarrow> PolicyEvaluation" where
  "early_evaluation os rules path a =
     (if path = None then PolicyEvaluation_init
      else if IsNullDevicePath (os_upcase os) path
      then \<lparr> pe_decision = FsDecision_kAllow, pe_normalized_path = wide ''NUL'' \<rparr>
      else let rule = the (DeviceRule (os_upcase os) rules (c_str (the path)))
           in \<lparr> pe_decision = ApplyRule (rule_kind_of rule) a, pe_normalized_path = rule_root rule \<rparr>)"

text \<open>
  The specification of a decision, over the rules that match the normalised path, in policy
  order.  A rule of kind deny wins wherever it stands.  Otherwise the rules of greatest depth
  decide: the user's rights if one of them says so, and else what the first of them says.  The
  exception is \<open>repeated_denial\<close>: a rule that denies the access and is as deep as the deepest rule
  before it ends the evaluation, even if a deeper rule comes after it.
\<close>

definition matching :: "upcase_table \<Rightarrow> wstr \<Rightarrow> Rule list \<Rightarrow> Rule list" where
  "matching up n rules = filter (\<lambda>r. RuleMatches up r n) rules"

definition deepest :: "Rule list \<Rightarrow> Rule list" where
  "deepest M = filter (\<lambda>r. rule_depth r = Max (set (map rule_depth M))) M"

definition repeated_denial :: "Access \<Rightarrow> Rule list \<Rightarrow> bool" where
  "repeated_denial access M \<longleftrightarrow>
     (\<exists>i < length M. 0 < i \<and> rule_depth (M ! i) = Max (set (map rule_depth (take i M))) \<and>
       ApplyRule (rule_kind_of (M ! i)) access = FsDecision_kDeny)"

definition deepest_decision :: "Access \<Rightarrow> Rule list \<Rightarrow> FsDecision" where
  "deepest_decision access M =
     (if M = [] then FsDecision_kDeny
      else if \<exists>r \<in> set (deepest M). ApplyRule (rule_kind_of r) access = FsDecision_kInheritUser then FsDecision_kInheritUser
      else ApplyRule (rule_kind_of (hd (deepest M))) access)"

definition rules_decision :: "Access \<Rightarrow> Rule list \<Rightarrow> FsDecision" where
  "rules_decision access M =
     (if Rule_kDeny \<in> set (map rule_kind_of M) \<or> repeated_denial access M then FsDecision_kDeny
      else deepest_decision access M)"

text \<open>The state of the loop after the matching rules \<open>seen\<close>.\<close>

definition loop_state :: "Access \<Rightarrow> Rule list \<Rightarrow> nat \<Rightarrow> FsDecision \<Rightarrow> bool" where
  "loop_state access seen depth d \<longleftrightarrow>
     depth = (if seen = [] then 0 else Max (set (map rule_depth seen))) \<and>
     d = deepest_decision access seen \<and> Rule_kDeny \<notin> set (map rule_kind_of seen) \<and> \<not> repeated_denial access seen"

definition same_depth_rule :: "RuleKind \<Rightarrow> nat \<Rightarrow> Rule" where
  "same_depth_rule k depth = \<lparr> rule_root = wide ''C:'', rule_kind_of = k, rule_depth = depth, rule_case_sensitive = False \<rparr>"

definition separators_caseless :: "upcase_table \<Rightarrow> bool" where
  "separators_caseless up \<longleftrightarrow> (\<forall>c d. up c = up d \<longrightarrow> IsDirectorySeparator c = IsDirectorySeparator d)"

text \<open>\<open>q\<close> is the directory \<open>n\<close> or lies below it.\<close>

definition at_or_below :: "wstr \<Rightarrow> wstr \<Rightarrow> bool" where
  "at_or_below n q \<longleftrightarrow> (\<exists>s. q = n @ s \<and> (s = [] \<or> IsDirectorySeparator (last n) \<or> IsDirectorySeparator (hd s)))"

definition sample_path :: wstr where
  "sample_path = [0x43, 0x3a, 0x5c, 0x41, 0x5c, 0x62, 0x5c, 0x78]"

definition sample_denied :: wstr where
  "sample_denied = [0x43, 0x3a, 0x5c, 0x61, 0x5c, 0x62, 0x5c, 0x63]"

section \<open>The decision cache is transparent\<close>

lemma Lookup_init: "PolicyDecisionCache_Lookup PolicyDecisionCache_init path a = None"
  by (simp add: Lookup_decided decision_init)

lemma fresh_simps [simp]:
  "fp_rules (fresh p) = fp_rules p" "fp_aliases (fresh p) = fp_aliases p"
  "fp_decision_cache (fresh p) = PolicyDecisionCache_init" "fresh (p\<lparr> fp_decision_cache := c \<rparr>) = fresh p"
  by (simp_all add: fresh_def)

lemma Evaluate_early:
  "early os rules path \<Longrightarrow> fp_rules p = rules \<Longrightarrow>
   FilesystemPolicy_Evaluate os p path a = (early_evaluation os rules path a, p)"
  by (auto simp: FilesystemPolicy_Evaluate_def early_def early_evaluation_def Let_def)

lemma Evaluate_late:
  "\<not> early os rules path \<Longrightarrow> fp_rules p = rules \<Longrightarrow>
   FilesystemPolicy_Evaluate os p path a =
     (case PolicyDecisionCache_Lookup (fp_decision_cache p) path a of
            Some evaluation \<Rightarrow> (evaluation, p)
          | None \<Rightarrow> (case AssignPolicyPath os path (fp_aliases p) of
              None \<Rightarrow> (PolicyEvaluation_init, p)
            | Some normalized_path \<Rightarrow>
                (case EvaluateRules (os_upcase os) a (c_str normalized_path) (fp_rules p) 0 FsDecision_kDeny of
                   Inl decision \<Rightarrow> (\<lparr> pe_decision = decision, pe_normalized_path = normalized_path \<rparr>, p)
                 | Inr decision \<Rightarrow>
                     let evaluation = \<lparr> pe_decision = decision, pe_normalized_path = normalized_path \<rparr>
                     in (evaluation, p\<lparr> fp_decision_cache :=
                           snd (PolicyDecisionCache_Store (fp_decision_cache p) path a evaluation) \<rparr>))))"
  unfolding FilesystemPolicy_Evaluate_def early_def by (cases path) simp_all

lemma path_c_str:
  "early os rules (Some (c_str w)) = early os rules (Some w)"
  "early_evaluation os rules (Some (c_str w)) a = early_evaluation os rules (Some w) a"
  "AssignPolicyPath os (Some (c_str w)) aliases = AssignPolicyPath os (Some w) aliases"
  by (simp_all add: early_def early_evaluation_def IsNullDevicePath_def AssignPolicyPath_def)

lemma fst_Evaluate_fresh:
  "fst (FilesystemPolicy_Evaluate os (fresh p) path a) =
     (if early os (fp_rules p) path then early_evaluation os (fp_rules p) path a
      else case AssignPolicyPath os path (fp_aliases p) of
          None \<Rightarrow> PolicyEvaluation_init
        | Some n \<Rightarrow> \<lparr> pe_decision =
              (case EvaluateRules (os_upcase os) a (c_str n) (fp_rules p) 0 FsDecision_kDeny of Inl d \<Rightarrow> d | Inr d \<Rightarrow> d),
            pe_normalized_path = n \<rparr>)"
proof (cases "early os (fp_rules p) path")
  case True
  then show ?thesis by (simp add: Evaluate_early [OF True])
next
  case False
  then show ?thesis
    unfolding Evaluate_late [OF False, of "fresh p", simplified] Lookup_init
    by (cases "AssignPolicyPath os path (fp_aliases p)")
      (simp_all add: Let_def split: sum.split)
qed

lemma Evaluate_c_str:
  "fst (FilesystemPolicy_Evaluate os (fresh p) (Some (c_str w)) a) = fst (FilesystemPolicy_Evaluate os (fresh p) (Some w) a)"
  unfolding fst_Evaluate_fresh path_c_str by (rule refl)

lemma policy_inv_store:
  assumes inv: "policy_inv os p" and w: "path = Some w"
    and e: "fst (FilesystemPolicy_Evaluate os (fresh p) path a) = e"
  shows "policy_inv os (p\<lparr> fp_decision_cache := snd (PolicyDecisionCache_Store (fp_decision_cache p) path a e) \<rparr>)"
proof -
  let ?c = "fp_decision_cache p" and ?c' = "snd (PolicyDecisionCache_Store (fp_decision_cache p) path a e)"
  have ci: "decision_cache_inv ?c"
    and ce: "\<And>w a e. decided ?c (w, a) = Some e \<Longrightarrow> fst (FilesystemPolicy_Evaluate os (fresh p) (Some w) a) = e"
    using inv by (auto simp: policy_inv_def)
  have "fst (FilesystemPolicy_Evaluate os (fresh p) (Some w') a') = e'" if "decided ?c' (w', a') = Some e'" for w' a' e'
  proof (cases "(w', a') = path_key path a \<and> decided ?c (w', a') = None")
    case True
    then have "e' = e" using that Store_decided(2) [OF ci, of path a e] by (simp add: domIff split: if_splits)
    moreover have "w' = c_str w" "a' = a" using True w by simp_all
    ultimately show ?thesis using e Evaluate_c_str [of os p w a] w by simp
  next
    case False
    have "decided ?c (w', a') = Some e'"
      using that False unfolding Store_decided(2) [OF ci, of path a e] by (simp add: domIff split: if_splits)
    then show ?thesis by (rule ce)
  qed
  then show ?thesis using Store_decided(3) [OF ci] by (simp add: policy_inv_def)
qed

lemma Evaluate_step:
  assumes inv: "policy_inv os p"
  shows "fst (FilesystemPolicy_Evaluate os p path a) = fst (FilesystemPolicy_Evaluate os (fresh p) path a)"
    and "policy_inv os (snd (FilesystemPolicy_Evaluate os p path a))"
    and "fresh (snd (FilesystemPolicy_Evaluate os p path a)) = fresh p"
proof -
  let ?E = "FilesystemPolicy_Evaluate os p path a" and ?F = "FilesystemPolicy_Evaluate os (fresh p) path a"
  let ?c = "fp_decision_cache p"
  have ci: "decision_cache_inv ?c"
    and ce: "\<And>w a e. decided ?c (w, a) = Some e \<Longrightarrow> fst (FilesystemPolicy_Evaluate os (fresh p) (Some w) a) = e"
    using inv by (auto simp: policy_inv_def)
  have "fst ?E = fst ?F \<and> policy_inv os (snd ?E) \<and> fresh (snd ?E) = fresh p"
  proof (cases "early os (fp_rules p) path")
    case True
    then show ?thesis using Evaluate_early [OF True refl, of a] Evaluate_early [OF True fresh_simps(1), of a] inv by simp
  next
    case False
    then obtain w where w: "path = Some w" by (auto simp: early_def)
    note E = Evaluate_late [OF False refl, of a]
    note F = fst_Evaluate_fresh [of os p path a, unfolded if_not_P [OF False]]
    show ?thesis
    proof (cases "PolicyDecisionCache_Lookup ?c path a")
      case (Some e)
      then have "decided ?c (c_str w, a) = Some e" using Lookup_decided [OF ci, of path a] by (simp add: w split: if_splits)
      from ce [OF this] have "fst ?F = e" unfolding Evaluate_c_str w .
      then show ?thesis using E Some inv by simp
    next
      case None
      then show ?thesis
      proof (cases "AssignPolicyPath os path (fp_aliases p)")
        case None
        then show ?thesis using E F \<open>PolicyDecisionCache_Lookup ?c path a = None\<close> inv by simp
      next
        case (Some n)
        show ?thesis
        proof (cases "EvaluateRules (os_upcase os) a (c_str n) (fp_rules p) 0 FsDecision_kDeny")
          case (Inl d)
          then show ?thesis using E F None Some inv by simp
        next
          case (Inr d)
          let ?e = "\<lparr> pe_decision = d, pe_normalized_path = n \<rparr>"
          have r: "?E = (?e, p\<lparr> fp_decision_cache := snd (PolicyDecisionCache_Store ?c path a ?e) \<rparr>)" "fst ?F = ?e"
            using E F None Some Inr by (simp_all add: Let_def)
          have "policy_inv os (p\<lparr> fp_decision_cache := snd (PolicyDecisionCache_Store ?c path a ?e) \<rparr>)"
            by (rule policy_inv_store [OF inv w r(2)])
          then show ?thesis using r by simp
        qed
      qed
    qed
  qed
  then show "fst ?E = fst ?F" "policy_inv os (snd ?E)" "fresh (snd ?E) = fresh p" by blast+
qed

lemma policy_inv_fresh: "policy_inv os (fresh p)"
  by (simp add: policy_inv_def decision_init)

lemma evaluate_all_fresh:
  "policy_inv os p \<Longrightarrow>
   evaluate_all os p calls = map (\<lambda>(path, access). fst (FilesystemPolicy_Evaluate os (fresh p) path access)) calls"
proof (induction calls arbitrary: p)
  case (Cons call calls)
  obtain path a where c: "call = (path, a)" by (cases call)
  show ?case
    using Cons.IH [OF Evaluate_step(2) [OF Cons.prems, of path a]] Evaluate_step(1,3) [OF Cons.prems, of path a]
    by (simp add: c Let_def)
qed simp

section \<open>The most specific rule decides\<close>

lemma Ex_less_Suc: "(\<exists>i < Suc n. P i) \<longleftrightarrow> (\<exists>i < n. P i) \<or> P n"
  by (auto simp: less_Suc_eq)

lemma Max_map_snoc:
  "seen \<noteq> [] \<Longrightarrow> Max (set (map f (seen @ [r]))) = max (Max (set (map f seen))) (f r :: nat)"
  by (simp add: max.commute)

lemma filter_depth_empty:
  "seen \<noteq> [] \<Longrightarrow> Max (set (map rule_depth seen)) < k \<Longrightarrow> filter (\<lambda>r. rule_depth r = k) seen = []"
  by (auto simp: filter_empty_conv Max_less_iff)

lemma deepest_ne: "M \<noteq> [] \<Longrightarrow> deepest M \<noteq> []"
proof -
  assume "M \<noteq> []"
  then have "Max (rule_depth ` set M) \<in> rule_depth ` set M" by (intro Max_in) simp_all
  then show ?thesis by (auto simp: deepest_def filter_empty_conv image_iff)
qed

lemma deepest_single [simp]: "deepest [r] = [r]"
  by (simp add: deepest_def)

lemma deepest_snoc:
  assumes "M \<noteq> []"
  shows "deepest (M @ [r]) = (if Max (set (map rule_depth M)) < rule_depth r then [r]
    else if rule_depth r = Max (set (map rule_depth M)) then deepest M @ [r] else deepest M)"
  using filter_depth_empty [OF assms, of "rule_depth r"]
  unfolding deepest_def Max_map_snoc [OF assms] by (simp add: max_def)

lemma repeated_denial_single [simp]: "\<not> repeated_denial a []" "\<not> repeated_denial a [r]"
  by (simp_all add: repeated_denial_def)

lemma repeated_denial_snoc:
  assumes "M \<noteq> []"
  shows "repeated_denial a (M @ [r]) \<longleftrightarrow> repeated_denial a M \<or>
    rule_depth r = Max (set (map rule_depth M)) \<and> ApplyRule (rule_kind_of r) a = FsDecision_kDeny"
proof -
  let ?P = "\<lambda>M i. 0 < i \<and> rule_depth (M ! i) = Max (set (map rule_depth (take i M))) \<and>
    ApplyRule (rule_kind_of (M ! i)) a = FsDecision_kDeny"
  have "?P (M @ [r]) i \<longleftrightarrow> ?P M i" if "i < length M" for i using that by (simp add: nth_append)
  moreover have "?P (M @ [r]) (length M) \<longleftrightarrow>
    rule_depth r = Max (set (map rule_depth M)) \<and> ApplyRule (rule_kind_of r) a = FsDecision_kDeny"
    using assms by simp
  ultimately show ?thesis
    unfolding repeated_denial_def length_append_singleton Ex_less_Suc by (metis (no_types, lifting))
qed

lemma repeated_denial_append:
  assumes "repeated_denial a M"
  shows "repeated_denial a (M @ N)"
proof -
  obtain i where "i < length M" "0 < i" "rule_depth (M ! i) = Max (set (map rule_depth (take i M)))"
    "ApplyRule (rule_kind_of (M ! i)) a = FsDecision_kDeny"
    using assms unfolding repeated_denial_def by blast
  then show ?thesis unfolding repeated_denial_def by (intro exI [of _ i]) (simp add: nth_append)
qed

lemma loop_state_deeper:
  assumes "loop_state a seen depth d" "depth < rule_depth r" "rule_kind_of r \<noteq> Rule_kDeny"
  shows "loop_state a (seen @ [r]) (rule_depth r) (ApplyRule (rule_kind_of r) a)"
proof (cases "seen = []")
  case True
  then show ?thesis using assms by (simp add: loop_state_def deepest_decision_def)
next
  case False
  note snoc = Max_map_snoc [OF False] deepest_snoc [OF False] repeated_denial_snoc [OF False]
  have "Max (set (map rule_depth seen)) = depth" using assms(1) False by (simp add: loop_state_def)
  then show ?thesis using assms unfolding loop_state_def deepest_decision_def snoc by simp
qed

lemma loop_state_same:
  assumes "loop_state a seen depth d" "rule_depth r = depth" "seen \<noteq> []" "rule_kind_of r \<noteq> Rule_kDeny"
    "ApplyRule (rule_kind_of r) a \<noteq> FsDecision_kDeny"
  shows "loop_state a (seen @ [r]) depth
    (if ApplyRule (rule_kind_of r) a = FsDecision_kInheritUser then FsDecision_kInheritUser else d)"
proof -
  note snoc = Max_map_snoc [OF assms(3)] deepest_snoc [OF assms(3)] repeated_denial_snoc [OF assms(3)]
  have m: "Max (set (map rule_depth seen)) = depth" using assms(1,3) by (simp add: loop_state_def)
  show ?thesis
    using assms deepest_ne [OF assms(3)] unfolding loop_state_def deepest_decision_def snoc m by simp
qed

lemma loop_state_shallower:
  assumes "loop_state a seen depth d" "rule_depth r < depth" "rule_kind_of r \<noteq> Rule_kDeny"
  shows "loop_state a (seen @ [r]) depth d"
proof (cases "seen = []")
  case True
  then show ?thesis using assms by (simp add: loop_state_def)
next
  case False
  note snoc = Max_map_snoc [OF False] deepest_snoc [OF False] repeated_denial_snoc [OF False]
  have m: "Max (set (map rule_depth seen)) = depth" using assms(1) False by (simp add: loop_state_def)
  show ?thesis using assms False unfolding loop_state_def deepest_decision_def snoc m by simp
qed

lemma EvaluateRules_Inl: "EvaluateRules up a n rules depth d = Inl x \<Longrightarrow> x = FsDecision_kDeny"
  by (induction up a n rules depth d rule: EvaluateRules.induct) (auto simp: Let_def split: if_splits)

lemma EvaluateRules_decision:
  assumes "loop_state a seen depth d" "list_all (\<lambda>r. 0 < rule_depth r) rules"
  shows "(case EvaluateRules up a n rules depth d of Inl x \<Rightarrow> x | Inr x \<Rightarrow> x) = rules_decision a (seen @ matching up n rules)"
  using assms
proof (induction rules arbitrary: seen depth d)
  case Nil
  then show ?case by (simp add: matching_def loop_state_def rules_decision_def)
next
  case (Cons r rules)
  have pos: "list_all (\<lambda>r. 0 < rule_depth r) rules" "0 < rule_depth r" using Cons.prems(2) by simp_all
  note IH = Cons.IH [OF _ pos(1)]
  let ?c = "ApplyRule (rule_kind_of r) a"
  show ?case
  proof (cases "RuleMatches up r n")
    case False
    then show ?thesis using IH [OF Cons.prems(1)] by (simp add: matching_def)
  next
    case match: True
    then have m: "seen @ matching up n (r # rules) = (seen @ [r]) @ matching up n rules" by (simp add: matching_def)
    show ?thesis
    proof (cases "rule_kind_of r = Rule_kDeny")
      case True
      then show ?thesis using match unfolding m by (simp add: rules_decision_def)
    next
      case nd: False
      show ?thesis
      proof (cases rule: linorder_cases [of depth "rule_depth r"])
        case less
        show ?thesis using IH [OF loop_state_deeper [OF Cons.prems(1) less nd]] match nd less unfolding m by simp
      next
        case equal
        have ne: "seen \<noteq> []" using Cons.prems(1) pos(2) equal by (auto simp: loop_state_def)
        show ?thesis
        proof (cases "?c = FsDecision_kDeny")
          case True
          have "repeated_denial a (seen @ [r])"
            unfolding repeated_denial_snoc [OF ne] using Cons.prems(1) equal ne True by (simp add: loop_state_def)
          then have "repeated_denial a ((seen @ [r]) @ matching up n rules)" by (rule repeated_denial_append)
          then show ?thesis using match nd equal True unfolding m by (simp add: rules_decision_def)
        next
          case False
          show ?thesis
            using IH [OF loop_state_same [OF Cons.prems(1) equal [symmetric] ne nd False]] match nd equal False
            unfolding m by (auto simp: Let_def split: if_splits)
        qed
      next
        case greater
        show ?thesis using IH [OF loop_state_shallower [OF Cons.prems(1) greater nd]] match nd greater unfolding m by simp
      qed
    qed
  qed
qed

lemma loop_state_start: "loop_state a [] 0 FsDecision_kDeny"
  by (simp add: loop_state_def deepest_decision_def)

lemmas EvaluateRules_spec = EvaluateRules_decision [OF loop_state_start, unfolded append_Nil]

subsection \<open>Rules of distinct depths\<close>

lemma distinct_no_repeated:
  assumes "distinct (map rule_depth M)"
  shows "\<not> repeated_denial a M"
proof
  assume "repeated_denial a M"
  then obtain i where i: "i < length M" "0 < i" "rule_depth (M ! i) = Max (set (map rule_depth (take i M)))"
    unfolding repeated_denial_def by blast
  then have "set (map rule_depth (take i M)) \<noteq> {}" by auto
  then have "rule_depth (M ! i) \<in> set (map rule_depth (take i M))" unfolding i(3) by (intro Max_in finite_set)
  then obtain j where "j < i" "rule_depth (M ! j) = rule_depth (M ! i)" using i by (auto simp: in_set_conv_nth)
  then show False using nth_eq_iff_index_eq [OF assms, of j i] i(1) by simp
qed

lemma distinct_filter_key:
  "distinct (map f xs) \<Longrightarrow> length (filter (\<lambda>x. f x = k) xs) \<le> 1"
  by (induction xs) (auto simp: filter_empty_conv image_iff Suc_le_eq)

lemma distinct_deepest:
  assumes "distinct (map rule_depth M)" "M \<noteq> []"
  shows "\<exists>r. deepest M = [r]"
proof -
  have "length (deepest M) \<le> 1" unfolding deepest_def by (rule distinct_filter_key [OF assms(1)])
  then show ?thesis using deepest_ne [OF assms(2)] by (cases "deepest M") auto
qed

lemma distinct_decision:
  assumes "distinct (map rule_depth M)" "Rule_kDeny \<notin> set (map rule_kind_of M)" "r \<in> set M"
    "\<forall>r' \<in> set M. rule_depth r' \<le> rule_depth r"
  shows "rules_decision a M = ApplyRule (rule_kind_of r) a"
proof -
  have ne: "M \<noteq> []" using assms(3) by auto
  have "Max (set (map rule_depth M)) = rule_depth r" using assms(3,4) by (intro Max_eqI) auto
  then have "r \<in> set (deepest M)" using assms(3) by (simp add: deepest_def)
  then have "deepest M = [r]" using distinct_deepest [OF assms(1) ne] by auto
  then show ?thesis using ne assms(2) distinct_no_repeated [OF assms(1)] by (simp add: rules_decision_def deepest_decision_def)
qed

lemma rules_decision_perm:
  assumes "mset M' = mset M" "distinct (map rule_depth M)"
  shows "rules_decision a M' = rules_decision a M"
proof -
  have "mset (map rule_depth M') = mset (map rule_depth M)" using assms(1) by simp
  then have d': "distinct (map rule_depth M')" using assms(2) mset_eq_imp_distinct_iff by blast
  have s: "set M' = set M" by (rule mset_eq_setD [OF assms(1)])
  have "mset (deepest M') = mset (deepest M)" by (simp add: deepest_def s assms(1))
  then have "deepest M' = deepest M" if "M \<noteq> []"
    using distinct_deepest [OF assms(2) that] distinct_deepest [OF d'] that assms(1) by fastforce
  then show ?thesis
    using distinct_no_repeated [OF d'] distinct_no_repeated [OF assms(2)] s assms(1)
    by (auto simp: rules_decision_def deepest_decision_def)
qed

lemma early_perm: "set rules' = set rules \<Longrightarrow> early os rules' path = early os rules path"
  by (simp add: early_def DeviceRule_def find_None_iff)

section \<open>Fewer rights\<close>

lemma ApplyRule_mono:
  "access_rank a \<le> access_rank b \<Longrightarrow> ApplyRule k b \<noteq> FsDecision_kDeny \<Longrightarrow> ApplyRule k a = ApplyRule k b"
  by (cases k; cases a; cases b) simp_all

lemma EvaluateRules_mono:
  "access_rank a \<le> access_rank b \<Longrightarrow> (db \<noteq> FsDecision_kDeny \<longrightarrow> da = db) \<Longrightarrow>
   EvaluateRules up b n rules depth db = Inr x \<Longrightarrow> x \<noteq> FsDecision_kDeny \<Longrightarrow>
   EvaluateRules up a n rules depth da = Inr x"
proof (induction rules arbitrary: depth da db)
  case Nil
  then show ?case by simp
next
  case (Cons r rules)
  let ?ca = "ApplyRule (rule_kind_of r) a" and ?cb = "ApplyRule (rule_kind_of r) b"
  have c: "?cb \<noteq> FsDecision_kDeny \<longrightarrow> ?ca = ?cb" using ApplyRule_mono [OF Cons.prems(1)] by blast
  note IH = Cons.IH [OF Cons.prems(1) _ _ Cons.prems(4)]
  consider "\<not> RuleMatches up r n" | "RuleMatches up r n" "rule_kind_of r = Rule_kDeny"
    | "RuleMatches up r n" "rule_kind_of r \<noteq> Rule_kDeny" "depth < rule_depth r"
    | "RuleMatches up r n" "rule_kind_of r \<noteq> Rule_kDeny" "rule_depth r = depth"
    | "RuleMatches up r n" "rule_kind_of r \<noteq> Rule_kDeny" "rule_depth r < depth"
    by linarith
  then show ?case
  proof cases
    case 1
    then show ?thesis using IH [OF Cons.prems(2)] Cons.prems(3) by simp
  next
    case 2
    then show ?thesis using Cons.prems(3) by simp
  next
    case 3
    then show ?thesis using IH [OF c] Cons.prems(3) by simp
  next
    case 4
    then have nd: "?cb \<noteq> FsDecision_kDeny" using Cons.prems(3) by (simp add: Let_def split: if_splits)
    let ?d = "\<lambda>c d. if c = FsDecision_kInheritUser then c else d"
    have "?d ?cb db \<noteq> FsDecision_kDeny \<longrightarrow> ?d ?ca da = ?d ?cb db" using c nd Cons.prems(2) by simp
    moreover have "EvaluateRules up b n rules depth (?d ?cb db) = Inr x"
      using 4 nd Cons.prems(3) by (simp add: Let_def)
    ultimately have "EvaluateRules up a n rules depth (?d ?ca da) = Inr x" by (rule IH)
    moreover have "?ca \<noteq> FsDecision_kDeny" using c nd by simp
    ultimately show ?thesis using 4 by (simp add: Let_def)
  next
    case 5
    then show ?thesis using IH [OF Cons.prems(2)] Cons.prems(3) by simp
  qed
qed

lemma early_mono:
  "access_rank a \<le> access_rank b \<Longrightarrow> pe_decision (early_evaluation os rules path b) \<noteq> FsDecision_kDeny \<Longrightarrow>
   pe_decision (early_evaluation os rules path a) = pe_decision (early_evaluation os rules path b)"
  using ApplyRule_mono [of a b] by (auto simp: early_evaluation_def PolicyEvaluation_init_def Let_def)

lemma Evaluate_mono:
  assumes "access_rank a \<le> access_rank b"
    "pe_decision (fst (FilesystemPolicy_Evaluate os (fresh p) path b)) \<noteq> FsDecision_kDeny"
  shows "pe_decision (fst (FilesystemPolicy_Evaluate os (fresh p) path a)) =
    pe_decision (fst (FilesystemPolicy_Evaluate os (fresh p) path b))"
proof (cases "early os (fp_rules p) path")
  case True
  then show ?thesis using early_mono [OF assms(1)] assms(2) by (simp add: fst_Evaluate_fresh)
next
  case late: False
  show ?thesis
  proof (cases "AssignPolicyPath os path (fp_aliases p)")
    case None
    then show ?thesis using late by (simp add: fst_Evaluate_fresh)
  next
    case (Some n)
    let ?R = "\<lambda>a. EvaluateRules (os_upcase os) a (c_str n) (fp_rules p) 0 FsDecision_kDeny"
    have v: "pe_decision (fst (FilesystemPolicy_Evaluate os (fresh p) path a)) = (case ?R a of Inl d \<Rightarrow> d | Inr d \<Rightarrow> d)" for a
      using late Some by (simp add: fst_Evaluate_fresh)
    have "\<exists>x. ?R b = Inr x \<and> x \<noteq> FsDecision_kDeny"
      using assms(2) EvaluateRules_Inl unfolding v by (cases "?R b") auto
    then obtain x where x: "?R b = Inr x" "x \<noteq> FsDecision_kDeny" by blast
    have "?R a = Inr x" by (rule EvaluateRules_mono [OF assms(1) _ x]) simp
    then show ?thesis unfolding v x(1) by simp
  qed
qed

section \<open>Denied descendants\<close>

lemma RootContains_iff:
  "RootContains up root path cs \<longleftrightarrow> int (length root) \<le> INT_MAX \<and> length root \<le> length path \<and>
     CompareOrdinal up (\<not> cs) root (take (length root) path) \<and>
     (length root = length path \<or> IsDirectorySeparator (last root) \<or> IsDirectorySeparator (path ! length root))"
  by (auto simp: RootContains_def Let_def)

lemma CompareOrdinal_nth:
  assumes "CompareOrdinal up i a b"
  shows "length a = length b" "k < length a \<Longrightarrow> up (a ! k) = up (b ! k)"
    "CompareOrdinal up i (take m a) (take m b)" "CompareOrdinal up i b a"
proof -
  have eq: "map up a = map up b"
    using assms by (auto simp: CompareOrdinal_def CompareOrdinalIgnoreCase_def split: if_splits)
  then show len: "length a = length b" by (rule map_eq_imp_length_eq)
  show "up (a ! k) = up (b ! k)" if "k < length a" using eq that len by (metis nth_map)
  show "CompareOrdinal up i (take m a) (take m b)" "CompareOrdinal up i b a"
    using assms by (auto simp: CompareOrdinal_def CompareOrdinalIgnoreCase_def take_map [symmetric] split: if_splits)
qed

lemma deny_below:
  assumes sep: "separators_caseless up" and below: "at_or_below n q"
    and r: "RootContains up root q cs" and n: "int (length n) \<le> INT_MAX" "n \<noteq> []" "root \<noteq> []"
  shows "RootContains up root n cs \<or> (length n < length root \<and> RootContains up n root cs)"
proof -
  obtain s where s: "q = n @ s" "s = [] \<or> IsDirectorySeparator (last n) \<or> IsDirectorySeparator (hd s)"
    using below by (auto simp: at_or_below_def)
  have c: "CompareOrdinal up (\<not> cs) root (take (length root) q)" "length root \<le> length q" "int (length root) \<le> INT_MAX"
    and e: "length root = length q \<or> IsDirectorySeparator (last root) \<or> IsDirectorySeparator (q ! length root)"
    using r unfolding RootContains_iff by auto
  show ?thesis
  proof (cases "length root \<le> length n")
    case True
    have "take (length root) q = take (length root) n" using True s(1) by simp
    moreover have "length root = length n \<or> IsDirectorySeparator (last root) \<or> IsDirectorySeparator (n ! length root)"
      using e True s(1) by (cases "length root = length n") (auto simp: nth_append)
    ultimately have "RootContains up root n cs" unfolding RootContains_iff using c True by simp
    then show ?thesis by blast
  next
    case False
    then have less: "length n < length root" by simp
    have "CompareOrdinal up (\<not> cs) (take (length n) root) n"
      using CompareOrdinal_nth(3) [OF c(1), of "length n"] less s(1) by simp
    then have c': "CompareOrdinal up (\<not> cs) n (take (length n) root)" by (rule CompareOrdinal_nth(4))
    have "s \<noteq> []" using less c(2) s(1) by auto
    then have q: "q ! length n = hd s" using s(1) by (simp add: nth_append hd_conv_nth)
    have "up (root ! length n) = up (hd s)"
      using CompareOrdinal_nth(2) [OF c(1) less] q less by simp
    then have "IsDirectorySeparator (root ! length n) = IsDirectorySeparator (hd s)"
      using sep unfolding separators_caseless_def by blast
    then have "IsDirectorySeparator (last n) \<or> IsDirectorySeparator (root ! length n)"
      using s(2) \<open>s \<noteq> []\<close> by blast
    then have "RootContains up n root cs" unfolding RootContains_iff using c' n(1) less by simp
    then show ?thesis using less by blast
  qed
qed

section \<open>Properties\<close>

lemma push_separator_ne: "root \<noteq> [] \<Longrightarrow> push_separator root \<noteq> []"
  by (simp add: push_separator_def)

lemma foldl_root_ne: "root \<noteq> [] \<Longrightarrow> foldl (\<lambda>root c. push_separator root @ f c) root cs \<noteq> []"
  by (induction cs arbitrary: root) (simp_all add: push_separator_ne)

lemma fs_rule_loaded_nonempty:
  "fs_rule_ok up r \<Longrightarrow> 0 < rule_depth (fs_rule_loaded r) \<and> rule_root (fs_rule_loaded r) \<noteq> []"
proof -
  assume ok: "fs_rule_ok up r"
  obtain k cs where r: "r = (k, cs)" by (cases r)
  show ?thesis
  proof (cases "k = 5")
    case True
    then show ?thesis using ok by (auto simp: r ValidExactDevicePath_def Let_def split: list.splits)
  next
    case False
    then obtain c0 c1 rest where cs: "cs = c0 # c1 # rest" and ne: "fs_units (snd c0) \<noteq> []"
      using ok by (auto simp: r split: list.splits)
    have "foldl (\<lambda>root c. push_separator root @ fs_units (snd c)) (push_separator (fs_units (snd c0))) rest \<noteq> []"
      by (rule foldl_root_ne [OF push_separator_ne [OF ne]])
    then show ?thesis using False by (simp add: r cs)
  qed
qed

lemma classify_mono:
  "d AND d' = d \<Longrightarrow> access_rank (fst (ClassifyCreateFileRequestWithFlags d c f)) \<le>
     access_rank (fst (ClassifyCreateFileRequestWithFlags d' c f))"
  using and_mono_nonzero [of d d'] unfolding classify_access by auto

lemma ascii_upcase_separators: "ascii_upcase c = ascii_upcase d \<Longrightarrow> IsDirectorySeparator c = IsDirectorySeparator d"
proof -
  have sep: "IsDirectorySeparator (ascii_upcase c) = IsDirectorySeparator c" for c
  proof (cases "0x61 \<le> c \<and> c \<le> 0x7a")
    case True
    then have "97 \<le> unat c" "unat c \<le> 122" by (simp_all add: word_le_nat_alt)
    then have "unat (c - 0x20) = unat c - 32" by (simp add: unat_sub word_le_nat_alt)
    then have "65 \<le> unat (c - 0x20)" "unat (c - 0x20) \<le> 90" using \<open>97 \<le> unat c\<close> \<open>unat c \<le> 122\<close> by simp_all
    then show ?thesis
      using True \<open>97 \<le> unat c\<close> by (auto simp: ascii_upcase_def IsDirectorySeparator_def)
  next
    case False
    then have "ascii_upcase c = c" unfolding ascii_upcase_def by (rule if_not_P)
    then show ?thesis by simp
  qed
  show "ascii_upcase c = ascii_upcase d \<Longrightarrow> IsDirectorySeparator c = IsDirectorySeparator d" using sep by metis
qed

lemma Load_fresh:
  assumes "FilesystemPolicy_Load sha u os payload = (FsLoad_kValid, Some p)"
  shows "fresh p = p" and "list_all (\<lambda>r. 0 < rule_depth r \<and> rule_root r \<noteq> []) (fp_rules p)"
proof -
  have v: "ValidatePolicyPayload sha u payload = Policy_kValid"
    using assms by (auto simp: FilesystemPolicy_Load_def split: if_splits)
  then obtain bytes where bytes: "payload = Some bytes" by (cases payload) (simp_all add: ValidatePolicyPayload_def)
  obtain b where b: "wf_body u b" "drop 44 bytes = ser_body b"
    using v unfolding bytes ValidatePolicyPayload_fields ValidateBody_iff by blast
  have ok: "list_all (fs_rule_ok (os_upcase os)) (pb_filesystem b)"
    and p: "p = \<lparr> fp_rules = marked os (map fs_rule_loaded (pb_filesystem b)), fp_aliases = LoadPathAliases os,
      fp_decision_cache = PolicyDecisionCache_init \<rparr>"
    using assms FilesystemPolicy_Load_body [OF b v [unfolded bytes], of os] by (simp_all add: bytes split: if_splits)
  show "fresh p = p" by (simp add: p fresh_def)
  have "0 < rule_depth (fs_rule_loaded r) \<and> rule_root (fs_rule_loaded r) \<noteq> []" if "fs_rule_ok (os_upcase os) r" for r
    using that by (rule fs_rule_loaded_nonempty)
  then show "list_all (\<lambda>r. 0 < rule_depth r \<and> rule_root r \<noteq> []) (fp_rules p)"
    using ok by (auto simp: p marked_def list_all_iff simp del: fs_rule_ok.simps fs_rule_loaded.simps)
qed

lemma sample_fs_loaded:
  "FilesystemPolicy_Load (\<lambda>_. Some (replicate 32 0)) (\<lambda>_. True) sample_os (Some sample_fs_payload) =
     (FsLoad_kValid, Some sample_fs_policy)"
  using FilesystemPolicy_Load_body [OF wf_sample_fs_body sample_fs_valid(2,1), of sample_os] sample_fs_rules_ok
  by (simp add: sample_fs_policy_def sample_os_def sample_fs_body_def LoadPathAliases_def)

lemma sample_fs_evaluation:
  "\<not> early sample_os (fp_rules sample_fs_policy) (Some sample_path)"
  "AssignPolicyPath sample_os (Some sample_path) (fp_aliases sample_fs_policy) = Some sample_path"
  "EvaluateRules (os_upcase sample_os) Access_kWrite (c_str sample_path) (fp_rules sample_fs_policy) 0 FsDecision_kDeny = Inr FsDecision_kAllow"
  "map rule_depth (matching (os_upcase sample_os) (c_str sample_path) (fp_rules sample_fs_policy)) = [3, 4]"
  "map rule_kind_of (matching (os_upcase sample_os) (c_str sample_path) (fp_rules sample_fs_policy)) = [Rule_kReadOnly, Rule_kReadWrite]"
  by code_simp+

lemma sample_fs_decision:
  "FilesystemPolicy_Evaluate sample_os sample_fs_policy (Some sample_path) Access_kWrite =
     (\<lparr> pe_decision = FsDecision_kAllow, pe_normalized_path = sample_path \<rparr>,
      snd (FilesystemPolicy_Evaluate sample_os sample_fs_policy (Some sample_path) Access_kWrite))"
  using fst_Evaluate_fresh [of sample_os sample_fs_policy "Some sample_path" Access_kWrite] sample_fs_evaluation
    Load_fresh(1) [OF sample_fs_loaded]
  by (simp add: prod_eq_iff)

text \<open>
  C29. The decision cache is invisible: whatever sequence of paths and accesses a freshly loaded
  policy is asked about, each evaluation (decision and normalised path) is the one that an empty
  cache gives, no matter which entries earlier calls have stored or whether the cache is full.
\<close>

theorem filesystem_cache_transparent:
  assumes "FilesystemPolicy_Load sha256 is_utf8 os payload = (FsLoad_kValid, Some policy)"
  shows "evaluate_all os policy calls = map (\<lambda>(path, access). fst (FilesystemPolicy_Evaluate os policy path access)) calls"
  using evaluate_all_fresh [OF policy_inv_fresh, of os policy calls] Load_fresh(1) [OF assms] by simp

theorem filesystem_cache_transparent_witness:
  "evaluate_all sample_os sample_fs_policy [(Some sample_path, Access_kWrite), (Some sample_path, Access_kWrite)] =
     replicate 2 \<lparr> pe_decision = FsDecision_kAllow, pe_normalized_path = sample_path \<rparr>"
  unfolding filesystem_cache_transparent [OF sample_fs_loaded]
  using arg_cong [OF sample_fs_decision, of fst] by (simp add: numeral_2_eq_2)

lemma Decide_fresh:
  assumes "fresh p = p" "list_all (\<lambda>r. 0 < rule_depth r) (fp_rules p)"
    "\<not> early os (fp_rules p) path" "AssignPolicyPath os path (fp_aliases p) = Some n"
  shows "PolicyView_Decide os p path access = rules_decision access (matching (os_upcase os) (c_str n) (fp_rules p))"
proof -
  have "PolicyView_Decide os p path access =
    (case EvaluateRules (os_upcase os) access (c_str n) (fp_rules p) 0 FsDecision_kDeny of Inl d \<Rightarrow> d | Inr d \<Rightarrow> d)"
    using fst_Evaluate_fresh [of os p path access] assms(1,3,4) by (simp add: PolicyView_Decide_def)
  then show ?thesis unfolding EvaluateRules_spec [OF assms(2)] .
qed

text \<open>
  C2. What the rules of a filesystem policy decide.  The rule loop gives exactly
  \<open>rules_decision\<close> of the matching rules, for every list of rules of positive depth: deny if one of
  them has kind deny, or if one denies the access at the greatest depth met before it, and else
  what the deepest ones say.  A loaded policy decides by it on every path that is no null device
  and no listed device and that can be normalised.  If the matching rules have distinct depths and
  none has kind deny, the rule deeper than all others alone decides, and in any case the order of
  the rules then plays no part.
\<close>

theorem filesystem_most_specific:
  assumes "FilesystemPolicy_Load sha256 is_utf8 os payload = (FsLoad_kValid, Some policy)"
    and "\<not> early os (fp_rules policy) path" and "AssignPolicyPath os path (fp_aliases policy) = Some n"
  shows "(\<forall>up a w rules. list_all (\<lambda>r. 0 < rule_depth r) rules \<longrightarrow>
      (case EvaluateRules up a w rules 0 FsDecision_kDeny of Inl d \<Rightarrow> d | Inr d \<Rightarrow> d) = rules_decision a (matching up w rules)) \<and>
    PolicyView_Decide os policy path access = rules_decision access (matching (os_upcase os) (c_str n) (fp_rules policy)) \<and>
    (distinct (map rule_depth (matching (os_upcase os) (c_str n) (fp_rules policy))) \<longrightarrow>
      (\<forall>r \<in> set (matching (os_upcase os) (c_str n) (fp_rules policy)).
        (\<forall>r' \<in> set (matching (os_upcase os) (c_str n) (fp_rules policy)). rule_depth r' \<le> rule_depth r \<and> rule_kind_of r' \<noteq> Rule_kDeny) \<longrightarrow>
        PolicyView_Decide os policy path access = ApplyRule (rule_kind_of r) access) \<and>
      (\<forall>rules. mset rules = mset (fp_rules policy) \<longrightarrow>
        PolicyView_Decide os (policy\<lparr> fp_rules := rules \<rparr>) path access = PolicyView_Decide os policy path access))"
proof -
  let ?M = "matching (os_upcase os) (c_str n) (fp_rules policy)"
  have pos: "list_all (\<lambda>r. 0 < rule_depth r) (fp_rules policy)"
    using Load_fresh(2) [OF assms(1)] by (simp add: list_all_iff)
  note fr = Load_fresh(1) [OF assms(1)]
  note dec = Decide_fresh [OF fr pos assms(2,3), of access]
  have one: "PolicyView_Decide os policy path access = ApplyRule (rule_kind_of r) access"
    if "distinct (map rule_depth ?M)" "r \<in> set ?M" "\<forall>r' \<in> set ?M. rule_depth r' \<le> rule_depth r \<and> rule_kind_of r' \<noteq> Rule_kDeny" for r
    unfolding dec by (rule distinct_decision [OF that(1) _ that(2)]) (use that(3) in auto)
  have perm: "PolicyView_Decide os (policy\<lparr> fp_rules := rules \<rparr>) path access = PolicyView_Decide os policy path access"
    if d: "distinct (map rule_depth ?M)" and ms: "mset rules = mset (fp_rules policy)" for rules
  proof -
    have s: "set rules = set (fp_rules policy)" by (rule mset_eq_setD [OF ms])
    have "fresh (policy\<lparr> fp_rules := rules \<rparr>) = policy\<lparr> fp_rules := rules \<rparr>"
      using fr by (cases policy) (simp add: fresh_def)
    then have "PolicyView_Decide os (policy\<lparr> fp_rules := rules \<rparr>) path access =
        rules_decision access (matching (os_upcase os) (c_str n) rules)"
      using Decide_fresh [of "policy\<lparr> fp_rules := rules \<rparr>" os path n access] pos assms(2,3) early_perm [OF s]
      by (simp add: list_all_iff s)
    also have "\<dots> = rules_decision access ?M" by (rule rules_decision_perm [OF _ d]) (simp add: matching_def ms)
    finally show ?thesis by (simp only: dec)
  qed
  show ?thesis
  proof (intro conjI impI)
    show "\<forall>up a w rules. list_all (\<lambda>r. 0 < rule_depth r) rules \<longrightarrow>
      (case EvaluateRules up a w rules 0 FsDecision_kDeny of Inl d \<Rightarrow> d | Inr d \<Rightarrow> d) = rules_decision a (matching up w rules)"
      by (intro allI impI EvaluateRules_spec)
    show "PolicyView_Decide os policy path access = rules_decision access ?M" by (rule dec)
    assume d: "distinct (map rule_depth ?M)"
    show "\<forall>r \<in> set ?M. (\<forall>r' \<in> set ?M. rule_depth r' \<le> rule_depth r \<and> rule_kind_of r' \<noteq> Rule_kDeny) \<longrightarrow>
        PolicyView_Decide os policy path access = ApplyRule (rule_kind_of r) access"
      by (blast intro: one [OF d])
    show "\<forall>rules. mset rules = mset (fp_rules policy) \<longrightarrow>
        PolicyView_Decide os (policy\<lparr> fp_rules := rules \<rparr>) path access = PolicyView_Decide os policy path access"
      by (intro allI impI perm [OF d])
  qed
qed

text \<open>
  The sample policy allows the write by its deeper rule.  Where depths repeat the order does play a part: a
  read-only rule given twice before a deeper read-write rule denies a write, and the same three
  rules with the read-write rule between the two allow it.
\<close>

theorem filesystem_most_specific_witness:
  "PolicyView_Decide sample_os sample_fs_policy (Some sample_path) Access_kWrite = FsDecision_kAllow \<and>
   rules_decision Access_kWrite (matching ascii_upcase (c_str sample_path) (fp_rules sample_fs_policy)) = FsDecision_kAllow \<and>
   rules_decision Access_kWrite (matching ascii_upcase (c_str sample_path)
     [same_depth_rule Rule_kReadOnly 2, same_depth_rule Rule_kReadOnly 2, same_depth_rule Rule_kReadWrite 3]) = FsDecision_kDeny \<and>
   rules_decision Access_kWrite (matching ascii_upcase (c_str sample_path)
     [same_depth_rule Rule_kReadOnly 2, same_depth_rule Rule_kReadWrite 3, same_depth_rule Rule_kReadOnly 2]) = FsDecision_kAllow"
proof -
  let ?denied = "[same_depth_rule Rule_kReadOnly 2, same_depth_rule Rule_kReadOnly 2, same_depth_rule Rule_kReadWrite 3]"
  let ?allowed = "[same_depth_rule Rule_kReadOnly 2, same_depth_rule Rule_kReadWrite 3, same_depth_rule Rule_kReadOnly 2]"
  note main = filesystem_most_specific [OF sample_fs_loaded sample_fs_evaluation(1,2), of Access_kWrite]
  have pos: "list_all (\<lambda>r. 0 < rule_depth r) ?denied" "list_all (\<lambda>r. 0 < rule_depth r) ?allowed"
    by (simp_all add: same_depth_rule_def)
  note spec = main [THEN conjunct1, THEN spec, THEN spec, THEN spec, THEN spec, THEN mp]
  have "EvaluateRules ascii_upcase Access_kWrite (c_str sample_path) ?denied 0 FsDecision_kDeny = Inl FsDecision_kDeny"
    "EvaluateRules ascii_upcase Access_kWrite (c_str sample_path) ?allowed 0 FsDecision_kDeny = Inr FsDecision_kAllow"
    by code_simp+
  note order = spec [OF pos(1), of ascii_upcase Access_kWrite "c_str sample_path", unfolded this sum.case]
    spec [OF pos(2), of ascii_upcase Access_kWrite "c_str sample_path", unfolded this sum.case]
  have d: "PolicyView_Decide sample_os sample_fs_policy (Some sample_path) Access_kWrite = FsDecision_kAllow"
    unfolding PolicyView_Decide_def by (subst sample_fs_decision) simp
  have "os_upcase sample_os = ascii_upcase" by (simp add: sample_os_def)
  then show ?thesis using main [THEN conjunct2, THEN conjunct1, symmetric] d order by (intro conjI) simp_all
qed

text \<open>
  C30. Asking for less is never worse: if a request to open a path is allowed or handed to the
  user's rights, then so is every request that differs only in asking for a subset of the access
  rights, with the same decision.
\<close>

theorem filesystem_rights_monotone:
  assumes "FilesystemPolicy_Load sha256 is_utf8 os payload = (FsLoad_kValid, Some policy)"
    and "d AND d' = d"
    and "PolicyView_Decide os policy path (fst (ClassifyCreateFileRequestWithFlags d' c f)) \<noteq> FsDecision_kDeny"
  shows "PolicyView_Decide os policy path (fst (ClassifyCreateFileRequestWithFlags d c f)) =
    PolicyView_Decide os policy path (fst (ClassifyCreateFileRequestWithFlags d' c f))"
  using Evaluate_mono [OF classify_mono [OF assms(2)], of os policy path] assms(3) Load_fresh(1) [OF assms(1)]
  by (simp add: PolicyView_Decide_def)

theorem filesystem_rights_monotone_witness:
  "PolicyView_Decide sample_os sample_fs_policy (Some sample_path)
     (fst (ClassifyCreateFileRequestWithFlags GENERIC_READ OPEN_EXISTING 0)) = FsDecision_kAllow"
proof -
  have w: "fst (ClassifyCreateFileRequestWithFlags (GENERIC_READ OR GENERIC_WRITE) OPEN_EXISTING 0) = Access_kWrite"
    by code_simp
  have "PolicyView_Decide sample_os sample_fs_policy (Some sample_path) Access_kWrite = FsDecision_kAllow"
    unfolding PolicyView_Decide_def by (subst sample_fs_decision) simp
  then show ?thesis
    using filesystem_rights_monotone [OF sample_fs_loaded, of GENERIC_READ "GENERIC_READ OR GENERIC_WRITE" "Some sample_path" OPEN_EXISTING 0] w
    by simp
qed

text \<open>
  C31. \<open>HasDeniedDescendant\<close> is complete: if it answers false for a directory, then a deny rule
  that covers a path at or below the directory already covers the directory itself.  The
  upper-case table is assumed to keep separators apart from other characters.
\<close>

theorem denied_descendant_complete:
  assumes "FilesystemPolicy_Load sha256 is_utf8 os payload = (FsLoad_kValid, Some policy)"
    and "separators_caseless (os_upcase os)"
    and "AssignPolicyPath os path (fp_aliases policy) = Some n" and "n \<noteq> []" and "int (length n) \<le> INT_MAX"
    and "\<not> HasDeniedDescendant os policy path"
    and "rule \<in> set (fp_rules policy)" and "rule_kind_of rule = Rule_kDeny"
    and "at_or_below n q" and "RuleMatches (os_upcase os) rule q"
  shows "RuleMatches (os_upcase os) rule n"
proof -
  have some: "path \<noteq> None"
  proof
    assume "path = None"
    then show False using assms(3) by (simp add: AssignPolicyPath_def)
  qed
  have n: "\<not> (rule_kind_of rule = Rule_kDeny \<and> length n < length (rule_root rule) \<and>
       RootContains (os_upcase os) n (rule_root rule) (rule_case_sensitive rule))"
    using assms(6,7) unfolding HasDeniedDescendant_def if_not_P [OF some] assms(3) option.case list_ex_iff by blast
  have root: "rule_root rule \<noteq> []" using Load_fresh(2) [OF assms(1)] assms(7) by (simp add: list_all_iff)
  have "RootContains (os_upcase os) (rule_root rule) q (rule_case_sensitive rule)"
    using assms(8,10) by (simp add: RuleMatches_def)
  from deny_below [OF assms(2,9) this assms(5,4) root] show ?thesis
    using n assms(8) by (auto simp: RuleMatches_def)
qed

theorem denied_descendant_complete_witness:
  "\<not> HasDeniedDescendant sample_os sample_fs_policy (Some sample_denied) \<and>
   RuleMatches (os_upcase sample_os) (last (fp_rules sample_fs_policy)) sample_denied"
proof
  show h: "\<not> HasDeniedDescendant sample_os sample_fs_policy (Some sample_denied)" by code_simp
  show "RuleMatches (os_upcase sample_os) (last (fp_rules sample_fs_policy)) sample_denied"
  proof (rule denied_descendant_complete [OF sample_fs_loaded _ _ _ _ h])
    show "separators_caseless (os_upcase sample_os)"
      unfolding separators_caseless_def sample_os_def path_os.simps by (intro allI impI ascii_upcase_separators)
    show "AssignPolicyPath sample_os (Some sample_denied) (fp_aliases sample_fs_policy) = Some sample_denied" by code_simp
    show "sample_denied \<noteq> []" "int (length sample_denied) \<le> INT_MAX" by (simp_all add: sample_denied_def INT_MAX_def)
    show "last (fp_rules sample_fs_policy) \<in> set (fp_rules sample_fs_policy)" by (rule last_in_set) code_simp
    show "rule_kind_of (last (fp_rules sample_fs_policy)) = Rule_kDeny" by code_simp
    show "at_or_below sample_denied (sample_denied @ [0x5c, 0x78])" by (simp add: at_or_below_def IsDirectorySeparator_def)
    show "RuleMatches (os_upcase sample_os) (last (fp_rules sample_fs_policy)) (sample_denied @ [0x5c, 0x78])" by code_simp
  qed
qed

end
