(* ===== verification/RegistryPolicy.thy ===== *)
theory RegistryPolicy
  imports AccessRules NetworkPolicy
begin

text \<open>
  \<open>src/native/hook/registry/registry_policy.cpp\<close>: loading the registry rules of a policy payload
  and deciding accesses to registry keys with them.  \<open>MultiByteToWideChar\<close> and the upper-case
  table of \<open>CompareStringOrdinal\<close> are parameters; allocations succeed.  The bound on the length
  of a key keeps the 64-bit arithmetic of the source, because its subtraction wraps.
\<close>

section \<open>Definitions\<close>

abbreviation (input) kMaximumRegistryRules :: nat where "kMaximumRegistryRules \<equiv> 2160"

definition kMaximumRegistryKeyCodeUnits :: nat where
  "kMaximumRegistryKeyCodeUnits = 255"

type_synonym RegistryHive = u8

abbreviation (input) Hive_kClassesRoot :: RegistryHive where "Hive_kClassesRoot \<equiv> 0"
abbreviation (input) Hive_kCurrentUser :: RegistryHive where "Hive_kCurrentUser \<equiv> 1"
abbreviation (input) Hive_kLocalMachine :: RegistryHive where "Hive_kLocalMachine \<equiv> 2"
abbreviation (input) Hive_kCurrentConfig :: RegistryHive where "Hive_kCurrentConfig \<equiv> 4"

type_synonym RegistryAccess = u8

abbreviation (input) RegAccess_kRead :: RegistryAccess where "RegAccess_kRead \<equiv> 0"
abbreviation (input) RegAccess_kWrite :: RegistryAccess where "RegAccess_kWrite \<equiv> 1"
abbreviation (input) RegAccess_kEnumerate :: RegistryAccess where "RegAccess_kEnumerate \<equiv> 2"

datatype RegistryDecision =
    RegDecision_kAllow
  | RegDecision_kDeny
  | RegDecision_kNotFound
  | RegDecision_kInheritUser
  | RegDecision_kAllowExactReadOnly

datatype RegistryPolicyLoadStatus =
    RegLoad_kValid
  | RegLoad_kInvalidPayload
  | RegLoad_kInvalidRegistryPolicy
  | RegLoad_kOutOfMemory

datatype RegRuleKind =
    Reg_kNoAccess
  | Reg_kReadOnly
  | Reg_kInheritUser
  | Reg_kReadWrite
  | Reg_kReadOnlyKey
  | Reg_kHideKey

definition reg_rule_kind :: "u8 \<Rightarrow> RegRuleKind" where
  "reg_rule_kind k =
     (if k = 0 then Reg_kNoAccess else if k = 1 then Reg_kReadOnly else if k = 2 then Reg_kInheritUser
      else if k = 3 then Reg_kReadWrite else if k = 4 then Reg_kReadOnlyKey else Reg_kHideKey)"

record RegRule =
  reg_hive :: RegistryHive
  reg_components :: "wstr list"
  reg_kind :: RegRuleKind

subsection \<open>Skipping the other sections\<close>

definition RegSkipFilesystem :: "Reader \<Rightarrow> Reader option" where
  "RegSkipFilesystem reader = do {
     (child_policy, reader) \<leftarrow> ReaderU8 reader;
     (count, reader) \<leftarrow> ReadCount reader;
     repeat_read count SkipRecord reader }"

definition SkipDomain :: "Reader \<Rightarrow> Reader option" where
  "SkipDomain reader = do { (wildcard, reader) \<leftarrow> ReaderU8 reader; SkipRecord reader }"

definition SkipAddress :: "Reader \<Rightarrow> Reader option" where
  "SkipAddress reader = do {
     (family, reader) \<leftarrow> ReaderU8 reader;
     (prefix, reader) \<leftarrow> ReaderU8 reader;
     map_option snd (ReadBytes (if family = 4 then 4 else if family = 6 then 16 else 0) reader) }"

definition SkipNetwork :: "Reader \<Rightarrow> Reader option" where
  "SkipNetwork reader = do {
     (mode, reader) \<leftarrow> ReaderU8 reader;
     if 2 < mode then None
     else if mode \<noteq> 2 then Some reader
     else do {
       (count, reader) \<leftarrow> ReadCount reader;
       reader \<leftarrow> repeat_read count SkipDomain reader;
       (count, reader) \<leftarrow> ReadCount reader;
       reader \<leftarrow> repeat_read count SkipAddress reader;
       (count, reader) \<leftarrow> ReadCount reader;
       if 0x3FFFFFFFFFFFFFFF < (of_nat count :: u64) then None
       else map_option snd (ReadBytes (count * 4) reader) } }"

subsection \<open>Names\<close>

type_synonym utf8_decoder = "bytes \<Rightarrow> wstr option"

definition Utf8ToWide :: "utf8_decoder \<Rightarrow> bytes \<Rightarrow> wstr option" where
  "Utf8ToWide utf8 bytes =
     (if length bytes = 0 \<or> 2147483647 < int (length bytes) then None
      else case utf8 bytes of None \<Rightarrow> None | Some value \<Rightarrow> if value = [] then None else Some value)"

definition ValidComponent :: "wstr \<Rightarrow> bool" where
  "ValidComponent component =
     (component \<noteq> [] \<and> component \<noteq> wide ''.'' \<and> component \<noteq> wide ''..'' \<and>
      \<not> list_ex (\<lambda>c. c = wchr_backslash \<or> c = wchr_slash \<or> c = wchr_colon) component \<and>
      \<not> list_ex (\<lambda>value. value = 0 \<or> value < 0x20 \<or> value = 0x7f) component)"

definition RegEqualIgnoreCase :: "upcase_table \<Rightarrow> wstr \<Rightarrow> wstr \<Rightarrow> bool" where
  "RegEqualIgnoreCase upcase left right =
     (length left = length right \<and> int (length left) \<le> 2147483647 \<and> CompareOrdinalIgnoreCase upcase left right)"

text \<open>\<open>std::equal\<close> of a range with the beginning of another one.\<close>

definition equal_range :: "upcase_table \<Rightarrow> wstr list \<Rightarrow> wstr list \<Rightarrow> bool" where
  "equal_range upcase xs ys = list_all2 (RegEqualIgnoreCase upcase) xs (take (length xs) ys)"

definition SameRoot :: "upcase_table \<Rightarrow> RegRule \<Rightarrow> RegRule \<Rightarrow> bool" where
  "SameRoot upcase left right =
     (reg_hive left = reg_hive right \<and> length (reg_components left) = length (reg_components right) \<and>
      equal_range upcase (reg_components left) (reg_components right))"

definition RegContains :: "upcase_table \<Rightarrow> RegRule \<Rightarrow> RegistryHive \<Rightarrow> wstr list \<Rightarrow> bool" where
  "RegContains upcase rule hive components =
     (reg_hive rule = hive \<and>
      (if reg_kind rule \<noteq> Reg_kReadOnlyKey \<and> reg_kind rule \<noteq> Reg_kHideKey
       then length (reg_components rule) \<le> length components
       else length (reg_components rule) = length components) \<and>
      equal_range upcase (reg_components rule) components)"

definition NormalizeWow64View :: "upcase_table \<Rightarrow> RegistryHive \<Rightarrow> wstr list \<Rightarrow> wstr list" where
  "NormalizeWow64View upcase hive components =
     (let is = RegEqualIgnoreCase upcase;
          redirected_index =
            (if hive = Hive_kClassesRoot \<and> components \<noteq> [] \<and> is (components ! 0) (wide ''Wow6432Node'') then 0
             else if hive = Hive_kLocalMachine \<and> 2 \<le> length components \<and>
                     is (components ! 0) (wide ''Software'') \<and> is (components ! 1) (wide ''Wow6432Node'') then 1
             else if (hive = Hive_kLocalMachine \<or> hive = Hive_kCurrentUser) \<and> 3 \<le> length components \<and>
                     is (components ! 0) (wide ''Software'') \<and> is (components ! 1) (wide ''Classes'') \<and>
                     is (components ! 2) (wide ''Wow6432Node'') then 2
             else length components)
      in if redirected_index < length components
         then take redirected_index components @ drop (Suc redirected_index) components
         else components)"

text \<open>The loop of \<open>ParseRelativeKey\<close>; the argument is the rest of the key from \<open>offset\<close> on.\<close>

function SplitKey :: "wstr \<Rightarrow> wstr list option" where
  "SplitKey rest =
     (let rest = dropWhile (\<lambda>c. c = wchr_backslash) rest
      in if rest = [] then Some []
         else let component = takeWhile (\<lambda>c. c \<noteq> wchr_backslash) rest
              in if \<not> ValidComponent component then None
                 else (case SplitKey (drop (length component + 1) rest) of
                         None \<Rightarrow> None | Some components \<Rightarrow> Some (component # components)))"
  by pat_completeness auto
termination
proof (relation "measure length")
  fix rest x :: wstr and xa
  assume x: "x = dropWhile (\<lambda>c. c = wchr_backslash) rest" "x \<noteq> []"
  have "length x \<le> length rest" unfolding x(1) by (rule length_dropWhile_le)
  then show "(drop (length xa + 1) x, rest) \<in> measure length"
    using x(2) by (cases x) (auto simp: less_Suc_eq_le)
qed simp

declare SplitKey.simps [simp del]

definition ParseRelativeKey :: "upcase_table \<Rightarrow> RegistryHive \<Rightarrow> wchar_ptr \<Rightarrow> wstr list option" where
  "ParseRelativeKey upcase hive relative_key = (case relative_key of None \<Rightarrow> None | Some relative_key \<Rightarrow>
     let value = c_str relative_key
     in if kMaximumRegistryKeyCodeUnits < length value \<or>
           list_ex (\<lambda>c. c = wchr_slash \<or> c = wchr_colon) value
        then None
        else map_option (NormalizeWow64View upcase hive) (SplitKey value))"

fun DecisionFor :: "RegRuleKind \<Rightarrow> RegistryAccess \<Rightarrow> RegistryDecision" where
  "DecisionFor Reg_kNoAccess access = RegDecision_kDeny"
| "DecisionFor Reg_kReadOnly access = (if access = RegAccess_kWrite then RegDecision_kDeny else RegDecision_kAllow)"
| "DecisionFor Reg_kInheritUser access = RegDecision_kInheritUser"
| "DecisionFor Reg_kReadWrite access = RegDecision_kAllow"
| "DecisionFor Reg_kReadOnlyKey access =
     (if access = RegAccess_kWrite then RegDecision_kDeny else RegDecision_kAllowExactReadOnly)"
| "DecisionFor Reg_kHideKey access = (if access = RegAccess_kWrite then RegDecision_kDeny else RegDecision_kNotFound)"

subsection \<open>Loading\<close>

fun LoadRegistryComponents ::
  "utf8_decoder \<Rightarrow> nat \<Rightarrow> u64 \<Rightarrow> Reader \<Rightarrow> (wstr list \<times> Reader) option"
where
  "LoadRegistryComponents utf8 0 encoded_length reader = Some ([], reader)"
| "LoadRegistryComponents utf8 (Suc n) encoded_length reader = do {
     (bytes, reader) \<leftarrow> ReadSizedBytes reader;
     value \<leftarrow> Utf8ToWide utf8 bytes;
     if \<not> ValidComponent value \<or>
        of_nat kMaximumRegistryKeyCodeUnits - encoded_length < (of_nat (length value) :: u64)
     then None
     else do {
       (components, reader) \<leftarrow> LoadRegistryComponents utf8 n (encoded_length + (of_nat (length value) + 1)) reader;
       Some (value # components, reader) } }"

definition LoadRegistryRule :: "utf8_decoder \<Rightarrow> upcase_table \<Rightarrow> Reader \<Rightarrow> (RegRule \<times> Reader) option" where
  "LoadRegistryRule utf8 upcase reader = do {
     (kind, reader) \<leftarrow> ReaderU8 reader;
     if 5 < kind then None
     else do {
       (hive, reader) \<leftarrow> ReaderU8 reader;
       if 4 < hive then None
       else do {
         (component_count, reader) \<leftarrow> ReadCount reader;
         if kMaximumRegistryKeyCodeUnits < component_count then None
         else do {
           (components, reader) \<leftarrow> LoadRegistryComponents utf8 component_count 0 reader;
           Some (\<lparr> reg_hive = hive, reg_components = NormalizeWow64View upcase hive components,
                    reg_kind = reg_rule_kind kind \<rparr>, reader) } } } }"

definition RegRuleConflicts :: "upcase_table \<Rightarrow> RegRule \<Rightarrow> RegRule \<Rightarrow> bool" where
  "RegRuleConflicts upcase existing rule =
     (SameRoot upcase existing rule \<and>
      (reg_kind existing = reg_kind rule \<or> (reg_kind existing \<noteq> Reg_kNoAccess \<and> reg_kind rule \<noteq> Reg_kNoAccess)))"

fun LoadRegistryRules ::
  "utf8_decoder \<Rightarrow> upcase_table \<Rightarrow> nat \<Rightarrow> RegRule list \<Rightarrow> Reader \<Rightarrow> (RegRule list \<times> Reader) option"
where
  "LoadRegistryRules utf8 upcase 0 rules reader = Some (rules, reader)"
| "LoadRegistryRules utf8 upcase (Suc n) rules reader = do {
     (rule, reader) \<leftarrow> LoadRegistryRule utf8 upcase reader;
     if list_ex (\<lambda>existing. RegRuleConflicts upcase existing rule) rules then None
     else LoadRegistryRules utf8 upcase n (rules @ [rule]) reader }"

definition RegistryPolicy_Load ::
  "(bytes \<Rightarrow> bytes option) \<Rightarrow> (bytes \<Rightarrow> bool) \<Rightarrow> utf8_decoder \<Rightarrow> upcase_table \<Rightarrow> byte_ptr \<Rightarrow>
   RegistryPolicyLoadStatus \<times> RegRule list option"
where
  "RegistryPolicy_Load sha256 is_utf8 utf8 upcase payload =
     (if ValidatePolicyPayload sha256 is_utf8 payload \<noteq> Policy_kValid then (RegLoad_kInvalidPayload, None)
      else case do {
          reader \<leftarrow> RegSkipFilesystem (drop kPolicyEnvelopeLength (the payload));
          reader \<leftarrow> SkipNetwork reader;
          (rule_count, reader) \<leftarrow> ReadCount reader;
          if kMaximumRegistryRules < rule_count then None
          else do {
            (rules, reader) \<leftarrow> LoadRegistryRules utf8 upcase rule_count [] reader;
            if \<not> Finished reader then None else Some rules } } of
        None \<Rightarrow> (RegLoad_kInvalidRegistryPolicy, None)
      | Some rules \<Rightarrow> (RegLoad_kValid, Some rules))"

subsection \<open>Deciding\<close>

text \<open>The loop over the rules: \<open>Inl\<close> is the return for a rule without access, \<open>Inr\<close> the pointer \<open>deepest\<close>.\<close>

fun DeepestRule ::
  "upcase_table \<Rightarrow> RegistryHive \<Rightarrow> wstr list \<Rightarrow> RegRule list \<Rightarrow> RegRule option \<Rightarrow> RegistryDecision + RegRule option"
where
  "DeepestRule upcase hive components [] deepest = Inr deepest"
| "DeepestRule upcase hive components (rule # rules) deepest =
     (if \<not> RegContains upcase rule hive components then DeepestRule upcase hive components rules deepest
      else if reg_kind rule = Reg_kNoAccess then Inl RegDecision_kDeny
      else DeepestRule upcase hive components rules
             (case deepest of None \<Rightarrow> Some rule
              | Some d \<Rightarrow> if length (reg_components d) < length (reg_components rule) then Some rule else Some d))"

definition RegistryPolicy_Decide ::
  "upcase_table \<Rightarrow> RegRule list \<Rightarrow> RegistryHive \<Rightarrow> wchar_ptr \<Rightarrow> RegistryAccess \<Rightarrow> RegistryDecision"
where
  "RegistryPolicy_Decide upcase rules hive relative_key access =
     (if Hive_kCurrentConfig < hive \<or> RegAccess_kEnumerate < access then RegDecision_kDeny
      else case ParseRelativeKey upcase hive relative_key of
          None \<Rightarrow> RegDecision_kDeny
        | Some components \<Rightarrow>
            (case DeepestRule upcase hive components rules None of
               Inl decision \<Rightarrow> decision
             | Inr None \<Rightarrow> RegDecision_kDeny
             | Inr (Some deepest) \<Rightarrow> DecisionFor (reg_kind deepest) access))"

definition RegistryPolicy_MayTraverse ::
  "upcase_table \<Rightarrow> RegRule list \<Rightarrow> RegistryHive \<Rightarrow> wchar_ptr \<Rightarrow> bool"
where
  "RegistryPolicy_MayTraverse upcase rules hive relative_key =
     (if Hive_kCurrentConfig < hive then False
      else case ParseRelativeKey upcase hive relative_key of
          None \<Rightarrow> False
        | Some components \<Rightarrow>
            list_ex (\<lambda>rule. reg_hive rule = hive \<and> length components < length (reg_components rule) \<and>
                       equal_range upcase components (reg_components rule)) rules)"

subsection \<open>What a policy says\<close>

fun lengths_ok :: "u64 \<Rightarrow> nat list \<Rightarrow> bool" where
  "lengths_ok e [] \<longleftrightarrow> True"
| "lengths_ok e (l # ls) \<longleftrightarrow> \<not> of_nat kMaximumRegistryKeyCodeUnits - e < of_nat l \<and> lengths_ok (e + (of_nat l + 1)) ls"

definition decoded_components :: "utf8_decoder \<Rightarrow> bytes list \<Rightarrow> wstr list" where
  "decoded_components utf8 bs = map (\<lambda>b. the (Utf8ToWide utf8 b)) bs"

definition components_ok :: "utf8_decoder \<Rightarrow> u64 \<Rightarrow> bytes list \<Rightarrow> bool" where
  "components_ok utf8 e bs \<longleftrightarrow>
     list_all (\<lambda>b. Utf8ToWide utf8 b \<noteq> None) bs \<and> list_all ValidComponent (decoded_components utf8 bs) \<and>
     lengths_ok e (map length (decoded_components utf8 bs))"

fun reg_entry_ok :: "utf8_decoder \<Rightarrow> registry_entry \<Rightarrow> bool" where
  "reg_entry_ok utf8 (kind, hive, bs) \<longleftrightarrow> length bs \<le> kMaximumRegistryKeyCodeUnits \<and> components_ok utf8 0 bs"

fun reg_entry_loaded :: "utf8_decoder \<Rightarrow> upcase_table \<Rightarrow> registry_entry \<Rightarrow> RegRule" where
  "reg_entry_loaded utf8 up (kind, hive, bs) =
     \<lparr> reg_hive = hive, reg_components = NormalizeWow64View up hive (decoded_components utf8 bs),
       reg_kind = reg_rule_kind kind \<rparr>"

text \<open>The length of a key whose components have the given lengths, with the backslashes between them.\<close>

definition key_length :: "nat list \<Rightarrow> nat" where
  "key_length ls = sum_list ls + (length ls - 1)"

definition reg_matching :: "upcase_table \<Rightarrow> RegistryHive \<Rightarrow> wstr list \<Rightarrow> RegRule list \<Rightarrow> RegRule set" where
  "reg_matching up hive components rules = {r \<in> set rules. RegContains up r hive components}"

definition at_least :: "RegRule option \<Rightarrow> RegRule \<Rightarrow> bool" where
  "at_least d r \<longleftrightarrow> (\<exists>d'. d = Some d' \<and> length (reg_components r) \<le> length (reg_components d'))"

definition conflict_free :: "upcase_table \<Rightarrow> RegRule list \<Rightarrow> bool" where
  "conflict_free up rules \<longleftrightarrow> sorted_wrt (\<lambda>a b. \<not> RegRuleConflicts up a b) rules"

text \<open>Rules with access have distinct keys: what the loader's conflict check gives, whatever the order of the rules.\<close>

definition distinct_roots :: "upcase_table \<Rightarrow> RegRule set \<Rightarrow> bool" where
  "distinct_roots up R \<longleftrightarrow> (\<forall>a \<in> R. \<forall>b \<in> R. SameRoot up a b \<longrightarrow> reg_kind a \<noteq> Reg_kNoAccess \<longrightarrow>
     reg_kind b \<noteq> Reg_kNoAccess \<longrightarrow> a = b)"

definition sample_utf8 :: utf8_decoder where
  "sample_utf8 b = (if list_all (\<lambda>x. x \<le> 0x7f) b then Some (map ucast b) else None)"

definition sample_reg_entries :: "registry_entry list" where
  "sample_reg_entries =
     [(1, 2, [ascii ''Software'', ascii ''WOW6432Node'', ascii ''A'']), (3, 2, [ascii ''software'', ascii ''A'', ascii ''B'']),
      (5, 2, [ascii ''Software'', ascii ''A'', ascii ''C''])]"

definition sample_reg_body :: policy_body where
  "sample_reg_body = \<lparr> pb_child = 0, pb_filesystem = [], pb_network = Network_mode 0, pb_registry = sample_reg_entries \<rparr>"

definition sample_upcase :: upcase_table where
  "sample_upcase c = (if 0x61 \<le> c \<and> c \<le> 0x7a then c - 0x20 else c)"

definition sample_reg_rules :: "RegRule list" where
  "sample_reg_rules = map (reg_entry_loaded sample_utf8 sample_upcase) sample_reg_entries"

definition sample_reg_key :: wstr where
  "sample_reg_key = wide ''SOFTWARE'' @ wchr_backslash # wide ''a'' @ wchr_backslash # wide ''b'' @ wchr_backslash # wide ''d''"

section \<open>Loading\<close>

lemma LoadRegistryComponents_ser:
  assumes "list_all (\<lambda>b. count_ok (length b)) bs"
  shows "LoadRegistryComponents utf8 (length bs) e (concat (map ser_sized bs) @ t) =
    (if components_ok utf8 e bs then Some (decoded_components utf8 bs, t) else None)"
  using assms
proof (induction bs arbitrary: e)
  case Nil
  then show ?case by (simp add: components_ok_def decoded_components_def)
next
  case (Cons b bs)
  have read: "ReadSizedBytes (ser_sized b @ concat (map ser_sized bs) @ t) = Some (b, concat (map ser_sized bs) @ t)"
    using Cons.prems by (simp del: ReadSizedBytes_Some)
  show ?case
    using Cons.IH Cons.prems
    by (cases "Utf8ToWide utf8 b") (auto simp: read components_ok_def decoded_components_def simp del: ReadSizedBytes_Some)
qed

lemma IsUtf8_count: "IsUtf8 u b \<Longrightarrow> count_ok (length b)"
  by (simp add: IsUtf8_def split: if_splits)

lemma LoadRegistryRule_ser:
  assumes "wf_registry_entry u x"
  shows "LoadRegistryRule utf8 up (ser_registry_entry x @ t) =
    (if reg_entry_ok utf8 x then Some (reg_entry_loaded utf8 up x, t) else None)"
proof -
  obtain kind hive bs where x: "x = (kind, hive, bs)" by (cases x)
  have wf: "\<not> 5 < kind" "\<not> 4 < hive" "count_ok (length bs)" "list_all (IsUtf8 u) bs"
    using assms by (simp_all add: x wf_registry_entry_def not_less)
  have "list_all (\<lambda>b. count_ok (length b)) bs" using wf(4) IsUtf8_count by (auto simp: list_all_iff)
  from LoadRegistryComponents_ser [OF this, of utf8 0 t] wf show ?thesis
    by (auto simp: x LoadRegistryRule_def ser_registry_entry_def ser_list_def simp del: ReadCount_Some)
qed

lemma LoadRegistryRules_ser:
  "list_all (wf_registry_entry u) xs \<Longrightarrow> sorted_wrt (\<lambda>a b. \<not> RegRuleConflicts up a b) acc \<Longrightarrow>
   LoadRegistryRules utf8 up (length xs) acc (concat (map ser_registry_entry xs) @ t) =
     (if list_all (reg_entry_ok utf8) xs \<and>
         sorted_wrt (\<lambda>a b. \<not> RegRuleConflicts up a b) (acc @ map (reg_entry_loaded utf8 up) xs)
      then Some (acc @ map (reg_entry_loaded utf8 up) xs, t) else None)"
proof (induction xs arbitrary: acc)
  case Nil
  then show ?case by simp
next
  case (Cons x xs)
  let ?r = "reg_entry_loaded utf8 up x"
  have read: "LoadRegistryRule utf8 up (ser_registry_entry x @ concat (map ser_registry_entry xs) @ t) =
      (if reg_entry_ok utf8 x then Some (?r, concat (map ser_registry_entry xs) @ t) else None)"
    using LoadRegistryRule_ser Cons.prems(1) by fastforce
  show ?case
  proof (cases "reg_entry_ok utf8 x \<and> \<not> list_ex (\<lambda>e. RegRuleConflicts up e ?r) acc")
    case True
    then have "sorted_wrt (\<lambda>a b. \<not> RegRuleConflicts up a b) (acc @ [?r])"
      using Cons.prems(2) by (simp add: sorted_wrt_append list_ex_iff)
    then show ?thesis
      using Cons.IH [of "acc @ [?r]"] Cons.prems(1) True
      by (simp add: read del: reg_entry_ok.simps reg_entry_loaded.simps)
  next
    case False
    then have "\<not> (list_all (reg_entry_ok utf8) (x # xs) \<and>
        sorted_wrt (\<lambda>a b. \<not> RegRuleConflicts up a b) (acc @ map (reg_entry_loaded utf8 up) (x # xs)))"
      by (auto simp: sorted_wrt_append list_ex_iff simp del: reg_entry_ok.simps reg_entry_loaded.simps)
    moreover have "LoadRegistryRules utf8 up (length (x # xs)) acc (concat (map ser_registry_entry (x # xs)) @ t) = None"
      using False by (auto simp: read simp del: reg_entry_ok.simps reg_entry_loaded.simps)
    ultimately show ?thesis by (simp del: reg_entry_ok.simps reg_entry_loaded.simps LoadRegistryRules.simps)
  qed
qed

lemma SkipDomain_ser: "wf_domain d \<Longrightarrow> SkipDomain (ser_domain d @ t) = Some t"
  using skip_record.val_complete [of "snd d" t]
  by (cases d) (simp add: SkipDomain_def ser_domain_def wf_domain_def)

lemma SkipAddress_ser: "wf_address a \<Longrightarrow> SkipAddress (ser_address a @ t) = Some t"
  by (cases a) (auto simp: SkipAddress_def ser_address_def wf_address_def)

lemma repeat_skip:
  assumes "\<And>x t. ok x \<Longrightarrow> skip (ser x @ t) = Some t" "list_all ok xs"
  shows "repeat_read (length xs) skip (concat (map ser xs) @ t) = Some t"
  using assms(2) by (induction xs) (simp_all add: assms(1))

lemma length_ports: "list_all wf_port ps \<Longrightarrow> length (concat (map ser_port ps)) = length ps * 4"
  by (induction ps) (auto simp: ser_port_def split: prod.splits)

lemma SkipNetwork_ser:
  assumes "wf_network n"
  shows "SkipNetwork (ser_network n @ t) = Some t"
proof (cases n)
  case (Network_mode m)
  then have "m \<le> 1" using assms by simp
  then have "\<not> 2 < m" "m \<noteq> 2" by (auto simp: word_le_nat_alt word_less_nat_alt)
  then show ?thesis using Network_mode by (simp add: SkipNetwork_def)
next
  case (Network_allow ds as ps)
  have wf: "length ds \<le> 1024" "length as \<le> 1024" "length ps \<le> 1024"
    "list_all wf_domain ds" "list_all wf_address as" "list_all wf_port ps"
    using assms Network_allow by auto
  have d: "repeat_read (length ds) SkipDomain (concat (map ser_domain ds) @ t) = Some t" for t
    by (rule repeat_skip [where ok = wf_domain, OF SkipDomain_ser wf(4)])
  have a: "repeat_read (length as) SkipAddress (concat (map ser_address as) @ t) = Some t" for t
    by (rule repeat_skip [where ok = wf_address, OF SkipAddress_ser wf(5)])
  have p: "ReadBytes (length ps * 4) (concat (map ser_port ps) @ t) = Some (concat (map ser_port ps), t)"
    using length_ports [OF wf(6)] by simp
  have small: "\<not> 0x3FFFFFFFFFFFFFFF < (of_nat (length ps) :: u64)"
    using wf(3) by (simp add: word_less_nat_alt unat_of_nat_less)
  show ?thesis
    using wf(1-3) small
    by (simp add: Network_allow SkipNetwork_def ser_list_def d a p del: ReadCount_Some ReadBytes_Some)
qed

lemma RegistryPolicy_Load_body:
  assumes "wf_body u b" "drop 44 p = ser_body b" "ValidatePolicyPayload sha u (Some p) = Policy_kValid"
  shows "RegistryPolicy_Load sha u utf8 up (Some p) =
    (if list_all (reg_entry_ok utf8) (pb_registry b) \<and>
        sorted_wrt (\<lambda>a b. \<not> RegRuleConflicts up a b) (map (reg_entry_loaded utf8 up) (pb_registry b))
     then (RegLoad_kValid, Some (map (reg_entry_loaded utf8 up) (pb_registry b)))
     else (RegLoad_kInvalidRegistryPolicy, None))"
proof -
  let ?xs = "pb_registry b"
  have wf: "count_ok (length (pb_filesystem b))" "list_all wf_fs_rule (pb_filesystem b)" "wf_network (pb_network b)"
    "length ?xs \<le> 2124" "list_all (wf_registry_entry u) ?xs"
    using assms(1) by (simp_all add: wf_body_def)
  have fs: "RegSkipFilesystem (ser_body b) = Some (ser_network (pb_network b) @ ser_list ser_registry_entry ?xs)"
    using skip_filesystem [OF wf(1,2)] by (simp add: RegSkipFilesystem_def ser_body_def del: ReadCount_Some)
  have rules: "LoadRegistryRules utf8 up (length ?xs) [] (concat (map ser_registry_entry ?xs)) =
     (if list_all (reg_entry_ok utf8) ?xs \<and> sorted_wrt (\<lambda>a b. \<not> RegRuleConflicts up a b) (map (reg_entry_loaded utf8 up) ?xs)
      then Some (map (reg_entry_loaded utf8 up) ?xs, []) else None)"
    using LoadRegistryRules_ser [OF wf(5), of up "[]" utf8 "[]"] by simp
  have net: "SkipNetwork (ser_network (pb_network b) @ ser_list ser_registry_entry ?xs) = Some (ser_list ser_registry_entry ?xs)"
    by (rule SkipNetwork_ser [OF wf(3)])
  have count: "ReadCount (ser_list ser_registry_entry ?xs) = Some (length ?xs, concat (map ser_registry_entry ?xs))"
    using wf(4) by (simp add: ser_list_def del: ReadCount_Some)
  have "RegistryPolicy_Load sha u utf8 up (Some p) =
    (case do {
          (rules, reader) \<leftarrow> LoadRegistryRules utf8 up (length ?xs) [] (concat (map ser_registry_entry ?xs));
          if \<not> Finished reader then None else Some rules } of
        None \<Rightarrow> (RegLoad_kInvalidRegistryPolicy, None)
      | Some rules \<Rightarrow> (RegLoad_kValid, Some rules))"
    using assms(3) wf(4) by (simp add: RegistryPolicy_Load_def assms(2) fs net count del: ReadCount_Some)
  then show ?thesis unfolding rules by (simp add: Finished_def)
qed

section \<open>The bound on the length of a key\<close>

lemma lengths_ok_wrapped:
  "256 \<le> e \<Longrightarrow> e + sum_list ls + length ls < 2 ^ 63 \<Longrightarrow> lengths_ok (of_nat e) ls"
proof (induction ls arbitrary: e)
  case Nil
  then show ?case by simp
next
  case (Cons l ls)
  have e: "unat (of_nat e :: u64) = e" "unat (of_nat l :: u64) = l" using Cons.prems by (simp_all add: unat_of_nat_less)
  have "(of_nat (2 ^ 64 + 255 - e) :: u64) = of_nat (2 ^ 64 + 255) - of_nat e"
    using Cons.prems by (intro of_nat_diff) simp
  also have "(of_nat (2 ^ 64 + 255) :: u64) = of_nat kMaximumRegistryKeyCodeUnits"
    by (simp add: kMaximumRegistryKeyCodeUnits_def)
  finally have "unat (of_nat kMaximumRegistryKeyCodeUnits - of_nat e :: u64) = 2 ^ 64 + 255 - e"
    using Cons.prems unat_of_nat_less [where 'a = 64, of "2 ^ 64 + 255 - e"] by simp
  then have "l \<le> unat (of_nat kMaximumRegistryKeyCodeUnits - of_nat e :: u64)" using Cons.prems by simp
  then have "\<not> of_nat kMaximumRegistryKeyCodeUnits - of_nat e < (of_nat l :: u64)"
    using e(2) by (simp add: word_less_nat_alt)
  moreover have "lengths_ok (of_nat (e + (l + 1))) ls" using Cons.prems by (intro Cons.IH) simp_all
  ultimately show ?case by (simp add: ac_simps)
qed

lemma lengths_ok_iff:
  "e \<le> 255 \<Longrightarrow> e + sum_list ls + length ls < 2 ^ 63 \<Longrightarrow>
   lengths_ok (of_nat e) ls \<longleftrightarrow>
     (ls = [] \<or> e + key_length ls \<le> 255) \<or> (\<exists>k. 0 < k \<and> k < length ls \<and> e + key_length (take k ls) = 255)"
proof (induction ls arbitrary: e)
  case Nil
  then show ?case by simp
next
  case (Cons l ls)
  have u: "unat (of_nat l :: u64) = l" using Cons.prems by (simp add: unat_of_nat_less)
  have "(of_nat kMaximumRegistryKeyCodeUnits - of_nat e :: u64) = of_nat (255 - e)"
    using Cons.prems(1) by (simp add: kMaximumRegistryKeyCodeUnits_def of_nat_diff)
  moreover have "unat (of_nat (255 - e) :: u64) = 255 - e" by (simp add: unat_of_nat_less)
  ultimately have guard: "\<not> of_nat kMaximumRegistryKeyCodeUnits - of_nat e < (of_nat l :: u64) \<longleftrightarrow> e + l \<le> 255"
    using u Cons.prems(1) by (auto simp: word_less_nat_alt)
  have rec: "lengths_ok (of_nat e) (l # ls) \<longleftrightarrow> e + l \<le> 255 \<and> lengths_ok (of_nat (e + l + 1)) ls"
    using guard by (simp add: ac_simps)
  have kl: "key_length (l # ls') = (if ls' = [] then l else l + 1 + key_length ls')" for ls'
    by (cases ls') (simp_all add: key_length_def)
  have ex: "(\<exists>k. 0 < k \<and> k < length (l # ls) \<and> e + key_length (take k (l # ls)) = 255) \<longleftrightarrow>
      ls \<noteq> [] \<and> (e + l = 255 \<or> (\<exists>k. 0 < k \<and> k < length ls \<and> e + l + 1 + key_length (take k ls) = 255))"
  proof -
    have "(\<exists>k. 0 < k \<and> k < length (l # ls) \<and> e + key_length (take k (l # ls)) = 255) \<longleftrightarrow>
        (\<exists>k<length ls. e + key_length (l # take k ls) = 255)"
      by (metis Suc_less_eq gr0_conv_Suc length_Cons take_Suc_Cons zero_less_Suc)
    also have "\<dots> \<longleftrightarrow> ls \<noteq> [] \<and> (e + l = 255 \<or> (\<exists>k. 0 < k \<and> k < length ls \<and> e + l + 1 + key_length (take k ls) = 255))"
    proof
      assume "\<exists>k<length ls. e + key_length (l # take k ls) = 255"
      then obtain k where k: "k < length ls" "e + key_length (l # take k ls) = 255" by blast
      then show "ls \<noteq> [] \<and> (e + l = 255 \<or> (\<exists>k. 0 < k \<and> k < length ls \<and> e + l + 1 + key_length (take k ls) = 255))"
        by (cases "k = 0") (auto simp: kl split: if_splits)
    next
      assume "ls \<noteq> [] \<and> (e + l = 255 \<or> (\<exists>k. 0 < k \<and> k < length ls \<and> e + l + 1 + key_length (take k ls) = 255))"
      then consider "0 < length ls" "e + l = 255" | k where "0 < k" "k < length ls" "e + l + 1 + key_length (take k ls) = 255"
        by blast
      then show "\<exists>k<length ls. e + key_length (l # take k ls) = 255"
      proof cases
        case 1
        then show ?thesis by (intro exI [of _ 0]) (simp add: kl)
      next
        case (2 k)
        then have "take k ls \<noteq> []" by auto
        then show ?thesis using 2 by (intro exI [of _ k]) (simp add: kl)
      qed
    qed
    finally show ?thesis .
  qed
  show ?case
  proof (cases "e + l < 255")
    case True
    then have "lengths_ok (of_nat (e + l + 1)) ls \<longleftrightarrow> (ls = [] \<or> e + l + 1 + key_length ls \<le> 255) \<or>
        (\<exists>k. 0 < k \<and> k < length ls \<and> e + l + 1 + key_length (take k ls) = 255)"
      using Cons.prems by (intro Cons.IH) simp_all
    then show ?thesis unfolding rec ex kl [of ls] using True by auto
  next
    case False
    have "lengths_ok (of_nat (e + l + 1)) ls" if "e + l = 255"
      using that Cons.prems lengths_ok_wrapped [of "e + l + 1" ls] by simp
    then show ?thesis unfolding rec ex kl [of ls] using False by (cases "e + l = 255") auto
  qed
qed

section \<open>Decisions\<close>

lemma RegEqualIgnoreCase_trans:
  "RegEqualIgnoreCase up a c \<Longrightarrow> RegEqualIgnoreCase up b c \<Longrightarrow> RegEqualIgnoreCase up a b"
  "RegEqualIgnoreCase up a b \<Longrightarrow> RegEqualIgnoreCase up b a"
  by (auto simp: RegEqualIgnoreCase_def CompareOrdinalIgnoreCase_def)

lemma list_all2_through:
  assumes "list_all2 P xs zs" "list_all2 Q ys zs" "\<And>x y z. P x z \<Longrightarrow> Q y z \<Longrightarrow> R x y"
  shows "list_all2 R xs ys"
proof (rule list_all2_all_nthI)
  show "length xs = length ys" using assms(1,2) by (simp add: list_all2_lengthD)
  fix i assume "i < length xs"
  then show "R (xs ! i) (ys ! i)"
    using list_all2_nthD [OF assms(1)] list_all2_nthD [OF assms(2)] assms(3) list_all2_lengthD [OF assms(1)]
      list_all2_lengthD [OF assms(2)] by metis
qed

lemma equal_range_trans:
  assumes "equal_range up xs zs" "equal_range up ys zs" "length xs = length ys"
  shows "equal_range up xs ys"
proof -
  have "list_all2 (RegEqualIgnoreCase up) xs ys"
    by (rule list_all2_through [OF assms(1,2) [unfolded equal_range_def, folded assms(3)] RegEqualIgnoreCase_trans(1)])
  then show ?thesis using assms(3) by (simp add: equal_range_def)
qed

lemma SameRoot_sym: "SameRoot up a b \<Longrightarrow> SameRoot up b a"
proof -
  assume s: "SameRoot up a b"
  then have "list_all2 (RegEqualIgnoreCase up) (reg_components a) (reg_components b)"
    unfolding SameRoot_def equal_range_def by auto
  then have "list_all2 (RegEqualIgnoreCase up) (reg_components b) (reg_components a)"
    unfolding list_all2_conv_all_nth using RegEqualIgnoreCase_trans(2) by simp
  then show ?thesis using s unfolding SameRoot_def equal_range_def by auto
qed

lemma same_depth_same_root:
  assumes "RegContains up a hive cs" "RegContains up b hive cs" "length (reg_components a) = length (reg_components b)"
  shows "SameRoot up a b"
  using assms equal_range_trans [of up "reg_components a" cs "reg_components b"]
  by (simp add: RegContains_def SameRoot_def)

lemma DeepestRule_no_access:
  "r \<in> set rules \<Longrightarrow> RegContains up r hive cs \<Longrightarrow> reg_kind r = Reg_kNoAccess \<Longrightarrow>
   DeepestRule up hive cs rules d = Inl RegDecision_kDeny"
  by (induction rules arbitrary: d) auto

lemma DeepestRule_deepest:
  assumes "\<forall>r \<in> reg_matching up hive cs rules. reg_kind r \<noteq> Reg_kNoAccess"
  shows "\<exists>d'. DeepestRule up hive cs rules d = Inr d' \<and>
    (d' = d \<or> (\<exists>r \<in> reg_matching up hive cs rules. d' = Some r)) \<and>
    (\<forall>r \<in> reg_matching up hive cs rules. at_least d' r) \<and> (\<forall>x. at_least d x \<longrightarrow> at_least d' x)"
  using assms
proof (induction rules arbitrary: d)
  case Nil
  then show ?case by (simp add: reg_matching_def)
next
  case (Cons r rules)
  have sub: "reg_matching up hive cs (r # rules) =
      (if RegContains up r hive cs then insert r (reg_matching up hive cs rules) else reg_matching up hive cs rules)"
    by (auto simp: reg_matching_def)
  have prem: "\<forall>r \<in> reg_matching up hive cs rules. reg_kind r \<noteq> Reg_kNoAccess"
    using Cons.prems unfolding sub by (simp split: if_splits)
  show ?case
  proof (cases "RegContains up r hive cs")
    case False
    then show ?thesis using Cons.IH [OF prem, of d] sub by simp
  next
    case True
    let ?d = "case d of None \<Rightarrow> Some r
      | Some d' \<Rightarrow> if length (reg_components d') < length (reg_components r) then Some r else Some d'"
    have nk: "reg_kind r \<noteq> Reg_kNoAccess" using Cons.prems True unfolding sub by simp
    have step: "DeepestRule up hive cs (r # rules) d = DeepestRule up hive cs rules ?d" using True nk by simp
    have d: "?d = d \<or> ?d = Some r" "at_least ?d r" "\<And>x. at_least d x \<Longrightarrow> at_least ?d x"
      by (auto simp: at_least_def split: option.splits)
    obtain d' where d': "DeepestRule up hive cs rules ?d = Inr d'"
      "d' = ?d \<or> (\<exists>r \<in> reg_matching up hive cs rules. d' = Some r)"
      "\<forall>r \<in> reg_matching up hive cs rules. at_least d' r" "\<forall>x. at_least ?d x \<longrightarrow> at_least d' x"
      using Cons.IH [OF prem, of ?d] by blast
    have "d' = d \<or> (\<exists>r' \<in> insert r (reg_matching up hive cs rules). d' = Some r')" using d'(2) d(1) by auto
    moreover have "\<forall>r' \<in> insert r (reg_matching up hive cs rules). at_least d' r'" using d'(3,4) d(2) by blast
    moreover have "\<forall>x. at_least d x \<longrightarrow> at_least d' x" using d(3) d'(4) by blast
    ultimately show ?thesis unfolding step sub using True d'(1) by simp
  qed
qed

lemma conflict_free_distinct_roots:
  assumes "conflict_free up rules"
  shows "distinct_roots up (set rules)"
  unfolding distinct_roots_def
proof (intro ballI impI, rule ccontr)
  fix a b
  assume ab: "a \<in> set rules" "b \<in> set rules" "SameRoot up a b"
    "reg_kind a \<noteq> Reg_kNoAccess" "reg_kind b \<noteq> Reg_kNoAccess"
  assume "a \<noteq> b"
  obtain i where i: "i < length rules" "a = rules ! i" using ab(1) by (auto simp: in_set_conv_nth)
  obtain j where j: "j < length rules" "b = rules ! j" using ab(2) by (auto simp: in_set_conv_nth)
  have "i < j \<or> j < i" using \<open>a \<noteq> b\<close> i j by (cases "i = j") auto
  then have "\<not> RegRuleConflicts up a b \<or> \<not> RegRuleConflicts up b a"
    using assms i j unfolding conflict_free_def sorted_wrt_iff_nth_less by blast
  then show False using ab(3-5) SameRoot_sym by (auto simp: RegRuleConflicts_def)
qed

lemma Decide_exact:
  assumes dr: "distinct_roots up (set rules)" and valid: "hive \<le> 4" "access \<le> 2"
    and key: "ParseRelativeKey up hive k = Some cs"
  shows "(\<exists>r \<in> reg_matching up hive cs rules. reg_kind r = Reg_kNoAccess) \<Longrightarrow>
      RegistryPolicy_Decide up rules hive k access = RegDecision_kDeny"
    and "reg_matching up hive cs rules = {} \<Longrightarrow> RegistryPolicy_Decide up rules hive k access = RegDecision_kDeny"
    and "\<forall>r \<in> reg_matching up hive cs rules. reg_kind r \<noteq> Reg_kNoAccess \<Longrightarrow> r \<in> reg_matching up hive cs rules \<Longrightarrow>
      \<forall>r' \<in> reg_matching up hive cs rules. length (reg_components r') \<le> length (reg_components r) \<Longrightarrow>
      RegistryPolicy_Decide up rules hive k access = DecisionFor (reg_kind r) access"
proof -
  have decide: "RegistryPolicy_Decide up rules hive k access =
      (case DeepestRule up hive cs rules None of
         Inl decision \<Rightarrow> decision
       | Inr None \<Rightarrow> RegDecision_kDeny
       | Inr (Some deepest) \<Rightarrow> DecisionFor (reg_kind deepest) access)"
  proof -
    have "\<not> 4 < hive" "\<not> 2 < access" using valid by (simp_all add: not_less)
    then show ?thesis using key by (simp add: RegistryPolicy_Decide_def)
  qed
  show "RegistryPolicy_Decide up rules hive k access = RegDecision_kDeny"
    if "\<exists>r \<in> reg_matching up hive cs rules. reg_kind r = Reg_kNoAccess"
    using that DeepestRule_no_access [of _ rules up hive cs None] unfolding decide by (auto simp: reg_matching_def)
  show "RegistryPolicy_Decide up rules hive k access = RegDecision_kDeny" if "reg_matching up hive cs rules = {}"
    using DeepestRule_deepest [of up hive cs rules None] that unfolding decide by auto
  show "RegistryPolicy_Decide up rules hive k access = DecisionFor (reg_kind r) access"
    if na: "\<forall>r \<in> reg_matching up hive cs rules. reg_kind r \<noteq> Reg_kNoAccess" and r: "r \<in> reg_matching up hive cs rules"
      and max: "\<forall>r' \<in> reg_matching up hive cs rules. length (reg_components r') \<le> length (reg_components r)"
  proof -
    obtain d' where d': "DeepestRule up hive cs rules None = Inr d'"
      "d' = None \<or> (\<exists>r \<in> reg_matching up hive cs rules. d' = Some r)"
      "\<forall>r \<in> reg_matching up hive cs rules. at_least d' r"
      using DeepestRule_deepest [OF na, of None] by blast
    obtain d where d: "d' = Some d" "length (reg_components r) \<le> length (reg_components d)"
      using d'(3) r unfolding at_least_def by blast
    have dm: "d \<in> reg_matching up hive cs rules" using d'(2) d(1) by auto
    have len: "length (reg_components d) = length (reg_components r)" using d(2) max dm by (simp add: le_antisym)
    have "RegContains up d hive cs" "RegContains up r hive cs" "d \<in> set rules" "r \<in> set rules"
      using dm r by (simp_all add: reg_matching_def)
    then have "d = r" using same_depth_same_root [OF _ _ len] dr na dm r unfolding distinct_roots_def by blast
    then show ?thesis unfolding decide d'(1) d(1) by simp
  qed
qed

section \<open>Properties\<close>

lemma wf_sample_reg_body: "wf_body (\<lambda>_. True) sample_reg_body"
  by (simp add: wf_body_def sample_reg_body_def sample_reg_entries_def wf_registry_entry_def IsUtf8_def ascii_def)

lemma length_sample_reg_body: "length (ser_body sample_reg_body) \<le> kPolicyMaximumBodyLength"
  by (simp add: ser_body_def sample_reg_body_def sample_reg_entries_def ser_registry_entry_def ser_sized_def
      ser_list_def ascii_def)

lemma sample_reg_ok:
  "list_all (reg_entry_ok sample_utf8) sample_reg_entries" "conflict_free sample_upcase sample_reg_rules"
  by code_simp+

lemma sample_reg_load:
  "RegistryPolicy_Load (\<lambda>_. Some (replicate 32 0)) (\<lambda>_. True) sample_utf8 sample_upcase
     (Some (policy_envelope (replicate 32 0) (ser_body sample_reg_body))) = (RegLoad_kValid, Some sample_reg_rules)"
proof -
  note v = ValidatePolicyPayload_envelope [where sha = "\<lambda>_. Some (replicate 32 0)" and digest = "replicate 32 0",
      OF wf_sample_reg_body length_sample_reg_body refl]
  show ?thesis
    using RegistryPolicy_Load_body [OF wf_sample_reg_body v(2,1), of sample_utf8 sample_upcase] sample_reg_ok
    by (simp add: sample_reg_rules_def conflict_free_def sample_reg_body_def)
qed

text \<open>
  C32. Loading the registry policy from the envelope of any well-formed policy succeeds exactly if
  every rule has at most 255 components, all valid names that pass the length check, and no two
  rules for one key (compared without case, in the 64-bit view) contradict or repeat each other;
  it yields the rules of the policy in their order.
\<close>

theorem registry_load_exact:
  assumes "wf_body is_utf8 b" and "length (ser_body b) \<le> kPolicyMaximumBodyLength"
    and "sha256 (policy_head (length (ser_body b)) @ ser_body b) = Some digest" and "length digest = 32"
  shows "RegistryPolicy_Load sha256 is_utf8 utf8 up (Some (policy_envelope digest (ser_body b))) =
    (if list_all (reg_entry_ok utf8) (pb_registry b) \<and>
        conflict_free up (map (reg_entry_loaded utf8 up) (pb_registry b))
     then (RegLoad_kValid, Some (map (reg_entry_loaded utf8 up) (pb_registry b)))
     else (RegLoad_kInvalidRegistryPolicy, None))"
  using RegistryPolicy_Load_body [OF assms(1)] ValidatePolicyPayload_envelope [where sha = sha256, OF assms]
  unfolding conflict_free_def by blast

theorem registry_load_exact_witness:
  "RegistryPolicy_Load (\<lambda>_. Some (replicate 32 0)) (\<lambda>_. True) sample_utf8 sample_upcase
     (Some (policy_envelope (replicate 32 0) (ser_body sample_reg_body))) = (RegLoad_kValid, Some sample_reg_rules)"
  using registry_load_exact [OF wf_sample_reg_body length_sample_reg_body, of "\<lambda>_. Some (replicate 32 0)" "replicate 32 0"
      sample_utf8 sample_upcase] sample_reg_ok
  by (simp add: sample_reg_body_def sample_reg_rules_def)

lemma Load_conflict_free:
  assumes "RegistryPolicy_Load sha u utf8 up payload = (RegLoad_kValid, Some rules)"
  shows "conflict_free up rules"
proof -
  have v: "ValidatePolicyPayload sha u payload = Policy_kValid"
    using assms by (auto simp: RegistryPolicy_Load_def split: if_splits)
  then obtain bytes where bytes: "payload = Some bytes" by (cases payload) (simp_all add: ValidatePolicyPayload_def)
  obtain b where b: "wf_body u b" "drop 44 bytes = ser_body b"
    using v unfolding bytes ValidatePolicyPayload_fields ValidateBody_iff by blast
  show ?thesis
    using assms RegistryPolicy_Load_body [OF b v [unfolded bytes], of utf8 up]
    by (simp add: bytes conflict_free_def split: if_splits)
qed

text \<open>
  C6. Registry decisions are those of the most specific rule.  For every loaded policy and every
  valid key: a matching rule without access denies; no matching rule denies; otherwise the
  matching rule with the most components decides, and it is the only one of its depth.  Hence
  the decision does not depend on the order of the rules.
\<close>

theorem registry_decision_exact:
  assumes "RegistryPolicy_Load sha256 is_utf8 utf8 up payload = (RegLoad_kValid, Some rules)"
    and "hive \<le> Hive_kCurrentConfig" and "access \<le> RegAccess_kEnumerate"
    and "ParseRelativeKey up hive key = Some components"
  shows "((\<exists>r \<in> reg_matching up hive components rules. reg_kind r = Reg_kNoAccess) \<or> reg_matching up hive components rules = {} \<longrightarrow>
      RegistryPolicy_Decide up rules hive key access = RegDecision_kDeny) \<and>
    (\<forall>r \<in> reg_matching up hive components rules. (\<forall>r \<in> reg_matching up hive components rules. reg_kind r \<noteq> Reg_kNoAccess) \<longrightarrow>
      (\<forall>r' \<in> reg_matching up hive components rules. length (reg_components r') \<le> length (reg_components r)) \<longrightarrow>
      RegistryPolicy_Decide up rules hive key access = DecisionFor (reg_kind r) access) \<and>
    (\<forall>rules'. set rules' = set rules \<longrightarrow>
      RegistryPolicy_Decide up rules' hive key access = RegistryPolicy_Decide up rules hive key access)"
proof -
  note dr = conflict_free_distinct_roots [OF Load_conflict_free [OF assms(1)]]
  note ex = Decide_exact [OF dr assms(2-4)]
  have perm: "RegistryPolicy_Decide up rules' hive key access = RegistryPolicy_Decide up rules hive key access"
    if m: "set rules' = set rules" for rules'
  proof -
    note ex' = Decide_exact [of up rules', unfolded m, OF dr assms(2-4)]
    have M: "reg_matching up hive components rules' = reg_matching up hive components rules"
      using m by (simp add: reg_matching_def)
    let ?M = "reg_matching up hive components rules"
    consider "\<exists>r \<in> ?M. reg_kind r = Reg_kNoAccess" | "?M = {}" | "?M \<noteq> {}" "\<forall>r \<in> ?M. reg_kind r \<noteq> Reg_kNoAccess" by blast
    then show ?thesis
    proof cases
      case 1
      then show ?thesis using ex(1) ex'(1) [unfolded M] by simp
    next
      case 2
      then show ?thesis using ex(2) ex'(2) [unfolded M] by simp
    next
      case 3
      have fin: "finite ((\<lambda>r. length (reg_components r)) ` ?M)" by (simp add: reg_matching_def)
      obtain r where r: "r \<in> ?M" "length (reg_components r) = Max ((\<lambda>r. length (reg_components r)) ` ?M)"
        using Max_in [OF fin] 3(1) by (metis (no_types, lifting) image_iff image_is_empty)
      have "\<forall>r' \<in> ?M. length (reg_components r') \<le> length (reg_components r)"
        unfolding r(2) using Max_ge [OF fin] by blast
      then show ?thesis using ex(3) [OF 3(2) r(1)] ex'(3) [unfolded M, OF 3(2) r(1)] by simp
    qed
  qed
  show ?thesis using ex perm by blast
qed

theorem registry_decision_exact_witness:
  "RegistryPolicy_Decide sample_upcase sample_reg_rules 2 (Some sample_reg_key) RegAccess_kWrite =
     RegDecision_kAllow \<and>
   RegistryPolicy_Decide sample_upcase (rev sample_reg_rules) 2 (Some sample_reg_key) RegAccess_kWrite =
     RegDecision_kAllow"
proof -
  let ?parts = "[wide ''SOFTWARE'', wide ''a'', wide ''b'', wide ''d'']"
  have parse: "ParseRelativeKey sample_upcase 2 (Some sample_reg_key) = Some ?parts" by code_simp
  have "RegistryPolicy_Decide sample_upcase sample_reg_rules 2 (Some sample_reg_key) RegAccess_kWrite = RegDecision_kAllow" by code_simp
  moreover have "RegistryPolicy_Decide sample_upcase (rev sample_reg_rules) 2 (Some sample_reg_key) RegAccess_kWrite =
      RegistryPolicy_Decide sample_upcase sample_reg_rules 2 (Some sample_reg_key) RegAccess_kWrite"
    using registry_decision_exact [THEN conjunct2, THEN conjunct2, rule_format, OF sample_reg_load _ _ parse, of RegAccess_kWrite
        "rev sample_reg_rules"] unfolding set_rev by simp
  ultimately show ?thesis unfolding sample_reg_key_def by simp
qed

text \<open>
  C33. The bound of 255 code units on a rule's key is not the bound the loader enforces.  The
  check subtracts the used length from 255 in 64-bit unsigned arithmetic; it accepts exactly
  the keys that fit, and those of any length one of whose proper prefixes has exactly 255
  code units, because there the subtraction wraps.
\<close>

theorem registry_length_wraps:
  assumes "list_all (\<lambda>b. count_ok (length b)) names" and "map (Utf8ToWide utf8) names = map Some components"
    and "list_all ValidComponent components" and "sum_list (map length components) + length components < 2 ^ 63"
  shows "LoadRegistryComponents utf8 (length names) 0 (concat (map ser_sized names) @ rest) \<noteq> None \<longleftrightarrow>
    key_length (map length components) \<le> kMaximumRegistryKeyCodeUnits \<or>
    (\<exists>k. 0 < k \<and> k < length components \<and>
      key_length (map length (take k components)) = kMaximumRegistryKeyCodeUnits)"
proof -
  have d: "decoded_components utf8 names = components"
    using arg_cong [OF assms(2), of "map the"] by (simp add: decoded_components_def comp_def)
  have "Utf8ToWide utf8 b \<noteq> None" if "b \<in> set names" for b
    using arg_cong [OF assms(2), of set] that by force
  then have "components_ok utf8 0 names \<longleftrightarrow> lengths_ok 0 (map length components)"
    using assms(3) by (simp add: components_ok_def d list_all_iff)
  then show ?thesis
    using lengths_ok_iff [of 0 "map length components"] assms(4)
    by (auto simp: LoadRegistryComponents_ser [OF assms(1)] kMaximumRegistryKeyCodeUnits_def key_length_def take_map)
qed

theorem registry_length_wraps_witness:
  "LoadRegistryComponents sample_utf8 2 0 (ser_sized (replicate 255 0x61) @ ser_sized (replicate 1000 0x61)) \<noteq> None"
proof -
  have u: "Utf8ToWide sample_utf8 (replicate n 0x61) = Some (replicate n 0x61)" if "0 < n" "n < 2 ^ 31" for n
    using that by (simp add: Utf8ToWide_def sample_utf8_def list_all_iff map_replicate)
  have v: "ValidComponent (replicate n 0x61)" if "0 < n" for n
    using that by (cases n) (simp_all add: ValidComponent_def list_ex_iff wide_def)
  let ?names = "[replicate 255 0x61, replicate 1000 0x61] :: bytes list"
  let ?components = "[replicate 255 0x61, replicate 1000 0x61] :: wstr list"
  have "LoadRegistryComponents sample_utf8 (length ?names) 0 (concat (map ser_sized ?names) @ []) \<noteq> None"
  proof (rule registry_length_wraps [where components = ?components, THEN iffD2])
    show "list_all (\<lambda>b. count_ok (length b)) ?names" by simp
    show "map (Utf8ToWide sample_utf8) ?names = map Some ?components" using u [of 255] u [of 1000] by simp
    show "list_all ValidComponent ?components" using v [of 255] v [of 1000] by simp
    show "sum_list (map length ?components) + length ?components < 2 ^ 63" by simp
    show "key_length (map length ?components) \<le> kMaximumRegistryKeyCodeUnits \<or>
        (\<exists>k. 0 < k \<and> k < length ?components \<and> key_length (map length (take k ?components)) = kMaximumRegistryKeyCodeUnits)"
      by (intro disjI2 exI [of _ 1]) (simp add: key_length_def kMaximumRegistryKeyCodeUnits_def)
  qed
  then show ?thesis by (simp add: numeral_2_eq_2 del: LoadRegistryComponents.simps)
qed

end
