(* ===== verification/FixedCodecs.thy ===== *)
theory FixedCodecs
  imports ProxyProtocol
begin

text \<open>
  The fixed-size messages between the launcher, the hooked processes and their helpers:
  \<open>launcher_control.cpp\<close>, \<open>launcher_transport.cpp\<close>, \<open>recovery_protocol.cpp\<close>,
  \<open>dns_proxy_startup.cpp\<close> and the two response and control messages of
  \<open>projected_workspace_protocol.cpp\<close> and \<open>workspace_security_protocol.cpp\<close>.

  An output parameter that a failing decoder leaves alone is \<open>None\<close> in the result.
  The locale \<open>fixed_codec\<close> is the contract of such a message: valid values come back,
  only valid values come out, and a message without stray bytes is the encoding of its
  value.  It is interpreted on every encoder and decoder; \<open>stray\<close> names the bytes a decoder
  does not look at.
\<close>

section \<open>Definitions\<close>

subsection \<open>Launcher control\<close>

abbreviation (input) kLauncherControlLength :: nat where "kLauncherControlLength \<equiv> 8"

definition kControlMagic :: bytes where
  "kControlMagic = ascii ''BLC1''"

type_synonym LauncherControlKind = u16

abbreviation (input) Control_kCancel :: LauncherControlKind where "Control_kCancel \<equiv> 1"
abbreviation (input) Control_kTimeout :: LauncherControlKind where "Control_kTimeout \<equiv> 2"
abbreviation (input) Control_kProtocolIntegrity :: LauncherControlKind where "Control_kProtocolIntegrity \<equiv> 3"

datatype LauncherControlStatus =
    Control_kSuccess
  | Control_kInvalidArgument
  | Control_kInvalidLength
  | Control_kInvalidMagic
  | Control_kUnsupportedVersion
  | Control_kUnknownKind

definition IsKnownControl :: "LauncherControlKind \<Rightarrow> bool" where
  "IsKnownControl kind = (kind = Control_kCancel \<or> kind = Control_kTimeout \<or> kind = Control_kProtocolIntegrity)"

definition EncodeLauncherControl :: "LauncherControlKind \<Rightarrow> bytes" where
  "EncodeLauncherControl kind =
     (let encoded = zeros kLauncherControlLength
      in if \<not> IsKnownControl kind then encoded
         else let encoded = put_bytes encoded 0 kControlMagic;
                  encoded = WriteU16 encoded 4 kProtocolVersion
              in WriteU16 encoded 6 kind)"

definition DecodeLauncherControl :: "byte_ptr \<Rightarrow> LauncherControlStatus \<times> LauncherControlKind option" where
  "DecodeLauncherControl encoded = (case encoded of None \<Rightarrow> (Control_kInvalidArgument, None) | Some encoded \<Rightarrow>
     if length encoded \<noteq> kLauncherControlLength then (Control_kInvalidLength, None)
     else if \<not> HasMagic kControlMagic encoded then (Control_kInvalidMagic, None)
     else if ReadU16 encoded 4 \<noteq> kProtocolVersion then (Control_kUnsupportedVersion, None)
     else let decoded = ReadU16 encoded 6
       in if \<not> IsKnownControl decoded then (Control_kUnknownKind, None)
          else (Control_kSuccess, Some decoded))"

subsection \<open>Launcher transport\<close>

abbreviation (input) kLauncherTransportHeaderLength :: nat where "kLauncherTransportHeaderLength \<equiv> 12"
abbreviation (input) kLauncherTransportMaximumPayload :: u32 where "kLauncherTransportMaximumPayload \<equiv> 1048576"

definition kTransportMagic :: bytes where
  "kTransportMagic = ascii ''BLX1''"

type_synonym LauncherTransportKind = u16

abbreviation (input) Transport_kStdout :: LauncherTransportKind where "Transport_kStdout \<equiv> 1"
abbreviation (input) Transport_kRecoveryRequest :: LauncherTransportKind where "Transport_kRecoveryRequest \<equiv> 9"

datatype LauncherTransportStatus =
    Transport_kSuccess
  | Transport_kInvalidArgument
  | Transport_kInvalidLength
  | Transport_kInvalidMagic
  | Transport_kUnsupportedVersion
  | Transport_kUnknownKind

definition IsKnownTransportKind :: "LauncherTransportKind \<Rightarrow> bool" where
  "IsKnownTransportKind kind = (Transport_kStdout \<le> kind \<and> kind \<le> Transport_kRecoveryRequest)"

definition EncodeLauncherTransportHeader :: "LauncherTransportKind \<Rightarrow> u32 \<Rightarrow> LauncherTransportStatus \<times> bytes" where
  "EncodeLauncherTransportHeader kind payload_length =
     (let output = zeros kLauncherTransportHeaderLength
      in if \<not> IsKnownTransportKind kind then (Transport_kUnknownKind, output)
         else if kLauncherTransportMaximumPayload < payload_length then (Transport_kInvalidLength, output)
         else let output = put_bytes output 0 kTransportMagic;
                  output = WriteU16 output 4 kProtocolVersion;
                  output = WriteU16 output 6 kind
              in (Transport_kSuccess, WriteU32 output 8 payload_length))"

definition DecodeLauncherTransportHeader ::
  "byte_ptr \<Rightarrow> LauncherTransportStatus \<times> (LauncherTransportKind \<times> u32) option"
where
  "DecodeLauncherTransportHeader encoded = (case encoded of None \<Rightarrow> (Transport_kInvalidArgument, None) | Some encoded \<Rightarrow>
     if length encoded \<noteq> kLauncherTransportHeaderLength then (Transport_kInvalidLength, None)
     else if \<not> HasMagic kTransportMagic encoded then (Transport_kInvalidMagic, None)
     else if ReadU16 encoded 4 \<noteq> kProtocolVersion then (Transport_kUnsupportedVersion, None)
     else let decoded_kind = ReadU16 encoded 6
       in if \<not> IsKnownTransportKind decoded_kind then (Transport_kUnknownKind, None)
       else let decoded_length = ReadU32 encoded 8
       in if kLauncherTransportMaximumPayload < decoded_length then (Transport_kInvalidLength, None)
          else (Transport_kSuccess, Some (decoded_kind, decoded_length)))"

subsection \<open>Recovery requests and responses\<close>

abbreviation (input) kRecoveryRequestHeaderLength :: nat where "kRecoveryRequestHeaderLength \<equiv> 32"
abbreviation (input) kRecoveryResponseLength :: nat where "kRecoveryResponseLength \<equiv> 40"

definition kRecoveryRequestMagic :: bytes where
  "kRecoveryRequestMagic = ascii ''BRQ1''"

definition kRecoveryResponseMagic :: bytes where
  "kRecoveryResponseMagic = ascii ''BRP1''"

type_synonym RecoveryOperation = u8

abbreviation (input) Recovery_kDelete :: RecoveryOperation where "Recovery_kDelete \<equiv> 1"
abbreviation (input) Recovery_kTruncate :: RecoveryOperation where "Recovery_kTruncate \<equiv> 2"
abbreviation (input) Recovery_kReplace :: RecoveryOperation where "Recovery_kReplace \<equiv> 3"
abbreviation (input) Recovery_kRename :: RecoveryOperation where "Recovery_kRename \<equiv> 4"

datatype RecoveryProtocolStatus =
    Recovery_kSuccess
  | Recovery_kInvalidArgument
  | Recovery_kInvalidLength
  | Recovery_kInvalidMagic
  | Recovery_kUnsupportedVersion
  | Recovery_kInvalidHeader
  | Recovery_kInvalidField
  | Recovery_kAllocationFailed

record RecoveryResponse =
  rr_request_id :: u64
  rr_succeeded :: bool
  rr_artifact_id :: u64
  rr_byte_count :: u64

definition ValidOperation :: "RecoveryOperation \<Rightarrow> bool" where
  "ValidOperation operation = (Recovery_kDelete \<le> operation \<and> operation \<le> Recovery_kRename)"

text \<open>The \<open>memcpy\<close> of the path stores its code units in little-endian order.\<close>

definition EncodeRecoveryRequest ::
  "u64 \<Rightarrow> u32 \<Rightarrow> RecoveryOperation \<Rightarrow> wchar_ptr \<Rightarrow> RecoveryProtocolStatus \<times> bytes"
where
  "EncodeRecoveryRequest request_id process_id operation path =
     (if request_id = 0 \<or> process_id = 0 \<or> \<not> ValidOperation operation \<or> path = None
      then (Recovery_kInvalidArgument, [])
      else let path_length = bounded_scan 32767 0 (the path)
        in if path_length = 0 \<or> 32767 < path_length then (Recovery_kInvalidField, [])
        else let total = kRecoveryRequestHeaderLength + path_length * 2;
                 encoded = zeros total;
                 encoded = put_bytes encoded 0 kRecoveryRequestMagic;
                 encoded = WriteU16 encoded 4 kProtocolVersion;
                 encoded = WriteU16 encoded 6 (of_nat kRecoveryRequestHeaderLength);
                 encoded = WriteU32 encoded 8 (of_nat total);
                 encoded = WriteU32 encoded 12 (of_nat path_length);
                 encoded = WriteU64 encoded 16 request_id;
                 encoded = WriteU32 encoded 24 process_id;
                 encoded = encoded[28 := operation];
                 encoded = put_bytes encoded kRecoveryRequestHeaderLength (utf16_bytes (take path_length (the path)))
             in (Recovery_kSuccess, encoded))"

definition DecodeRecoveryResponse :: "byte_ptr \<Rightarrow> RecoveryProtocolStatus \<times> RecoveryResponse option" where
  "DecodeRecoveryResponse encoded = (case encoded of None \<Rightarrow> (Recovery_kInvalidArgument, None) | Some encoded \<Rightarrow>
     if length encoded \<noteq> kRecoveryResponseLength \<or> ReadU32 encoded 8 \<noteq> of_nat kRecoveryResponseLength
     then (Recovery_kInvalidLength, None)
     else if \<not> HasMagic kRecoveryResponseMagic encoded then (Recovery_kInvalidMagic, None)
     else if ReadU16 encoded 4 \<noteq> kProtocolVersion then (Recovery_kUnsupportedVersion, None)
     else if ReadU16 encoded 6 \<noteq> of_nat kRecoveryResponseLength then (Recovery_kInvalidHeader, None)
     else let status = encoded ! 20
       in if 1 < status \<or> encoded ! 21 \<noteq> 0 \<or> encoded ! 22 \<noteq> 0 \<or> encoded ! 23 \<noteq> 0
       then (Recovery_kInvalidField, None)
       else let decoded = \<lparr> rr_request_id = ReadU64 encoded 12, rr_succeeded = (status = 0),
                            rr_artifact_id = ReadU64 encoded 24, rr_byte_count = ReadU64 encoded 32 \<rparr>
       in if rr_request_id decoded = 0 \<or>
             (rr_succeeded decoded \<and> rr_artifact_id decoded = 0) \<or>
             (\<not> rr_succeeded decoded \<and> (rr_artifact_id decoded \<noteq> 0 \<or> rr_byte_count decoded \<noteq> 0))
          then (Recovery_kInvalidField, None)
          else (Recovery_kSuccess, Some decoded))"

subsection \<open>Workspace responses and controls\<close>

abbreviation (input) kWorkspaceSecurityResponseLength :: nat where "kWorkspaceSecurityResponseLength \<equiv> 12"
abbreviation (input) kProjectedWorkspaceResponseLength :: nat where "kProjectedWorkspaceResponseLength \<equiv> 12"
abbreviation (input) kProjectedWorkspaceControlLength :: nat where "kProjectedWorkspaceControlLength \<equiv> 8"

definition kSecurityResponseMagic :: bytes where
  "kSecurityResponseMagic = ascii ''BWR1''"

definition kReadyMagic :: bytes where
  "kReadyMagic = ascii ''BPY1''"

definition kFinishedMagic :: bytes where
  "kFinishedMagic = ascii ''BPF1''"

definition kProjectedControlMagic :: bytes where
  "kProjectedControlMagic = ascii ''BPC1''"

type_synonym WorkspaceSecurityResult = u32
type_synonym ProjectedWorkspaceResult = u32
type_synonym ProjectedWorkspaceControl = u16

abbreviation (input) Security_kProtocolError :: WorkspaceSecurityResult where "Security_kProtocolError \<equiv> 7"
abbreviation (input) Projected_kProtocolError :: ProjectedWorkspaceResult where "Projected_kProtocolError \<equiv> 8"
abbreviation (input) Projected_kMaterialize :: ProjectedWorkspaceControl where "Projected_kMaterialize \<equiv> 1"
abbreviation (input) Projected_kDiscard :: ProjectedWorkspaceControl where "Projected_kDiscard \<equiv> 2"

datatype ProjectedWorkspaceResponseKind = Response_kReady | Response_kFinished

text \<open>\<open>WorkspaceSecurityProtocolStatus\<close> and \<open>ProjectedWorkspaceProtocolStatus\<close> have the same enumerators.\<close>

datatype WorkspaceProtocolStatus =
    Workspace_kSuccess
  | Workspace_kInvalidArgument
  | Workspace_kInvalidLength
  | Workspace_kInvalidMagic
  | Workspace_kUnsupportedVersion
  | Workspace_kInvalidHeader
  | Workspace_kInvalidField
  | Workspace_kDigestMismatch
  | Workspace_kAllocationFailed

definition IsKnownSecurityResult :: "WorkspaceSecurityResult \<Rightarrow> bool" where
  "IsKnownSecurityResult result = (0 \<le> result \<and> result \<le> Security_kProtocolError)"

definition EncodeWorkspaceSecurityResponse :: "WorkspaceSecurityResult \<Rightarrow> bytes" where
  "EncodeWorkspaceSecurityResponse result =
     (let encoded = zeros kWorkspaceSecurityResponseLength
      in if \<not> IsKnownSecurityResult result then encoded
         else let encoded = put_bytes encoded 0 kSecurityResponseMagic;
                  encoded = WriteU16 encoded 4 kProtocolVersion;
                  encoded = WriteU16 encoded 6 (of_nat kWorkspaceSecurityResponseLength)
              in WriteU32 encoded 8 result)"

definition DecodeWorkspaceSecurityResponse ::
  "byte_ptr \<Rightarrow> WorkspaceProtocolStatus \<times> WorkspaceSecurityResult option"
where
  "DecodeWorkspaceSecurityResponse encoded = (case encoded of None \<Rightarrow> (Workspace_kInvalidArgument, None) | Some encoded \<Rightarrow>
     if length encoded \<noteq> kWorkspaceSecurityResponseLength then (Workspace_kInvalidLength, None)
     else if \<not> HasMagic kSecurityResponseMagic encoded then (Workspace_kInvalidMagic, None)
     else if ReadU16 encoded 4 \<noteq> kProtocolVersion then (Workspace_kUnsupportedVersion, None)
     else if ReadU16 encoded 6 \<noteq> of_nat kWorkspaceSecurityResponseLength then (Workspace_kInvalidHeader, None)
     else let decoded = ReadU32 encoded 8
       in if \<not> IsKnownSecurityResult decoded then (Workspace_kInvalidField, None)
          else (Workspace_kSuccess, Some decoded))"

definition KnownResult :: "ProjectedWorkspaceResult \<Rightarrow> bool" where
  "KnownResult result = (0 \<le> result \<and> result \<le> Projected_kProtocolError)"

definition KnownControl :: "ProjectedWorkspaceControl \<Rightarrow> bool" where
  "KnownControl control = (control = Projected_kMaterialize \<or> control = Projected_kDiscard)"

definition ResponseMagic :: "ProjectedWorkspaceResponseKind \<Rightarrow> bytes" where
  "ResponseMagic kind = (if kind = Response_kReady then kReadyMagic else kFinishedMagic)"

definition EncodeProjectedWorkspaceResponse ::
  "ProjectedWorkspaceResponseKind \<Rightarrow> ProjectedWorkspaceResult \<Rightarrow> bytes"
where
  "EncodeProjectedWorkspaceResponse kind result =
     (let encoded = zeros kProjectedWorkspaceResponseLength
      in if \<not> KnownResult result then encoded
         else let encoded = put_bytes encoded 0 (ResponseMagic kind);
                  encoded = WriteU16 encoded 4 kProtocolVersion;
                  encoded = WriteU16 encoded 6 (of_nat (length encoded))
              in WriteU32 encoded 8 result)"

definition DecodeProjectedWorkspaceResponse ::
  "ProjectedWorkspaceResponseKind \<Rightarrow> byte_ptr \<Rightarrow> WorkspaceProtocolStatus \<times> ProjectedWorkspaceResult option"
where
  "DecodeProjectedWorkspaceResponse expected_kind encoded =
     (case encoded of None \<Rightarrow> (Workspace_kInvalidArgument, None) | Some encoded \<Rightarrow>
     if length encoded \<noteq> kProjectedWorkspaceResponseLength then (Workspace_kInvalidLength, None)
     else if \<not> HasMagic (ResponseMagic expected_kind) encoded then (Workspace_kInvalidMagic, None)
     else if ReadU16 encoded 4 \<noteq> kProtocolVersion then (Workspace_kUnsupportedVersion, None)
     else if unat (ReadU16 encoded 6) \<noteq> length encoded then (Workspace_kInvalidHeader, None)
     else let decoded = ReadU32 encoded 8
       in if \<not> KnownResult decoded then (Workspace_kInvalidField, None)
          else (Workspace_kSuccess, Some decoded))"

definition EncodeProjectedWorkspaceControl :: "ProjectedWorkspaceControl \<Rightarrow> bytes" where
  "EncodeProjectedWorkspaceControl control =
     (let encoded = zeros kProjectedWorkspaceControlLength
      in if \<not> KnownControl control then encoded
         else let encoded = put_bytes encoded 0 kProjectedControlMagic;
                  encoded = WriteU16 encoded 4 kProtocolVersion
              in WriteU16 encoded 6 control)"

definition DecodeProjectedWorkspaceControl ::
  "byte_ptr \<Rightarrow> WorkspaceProtocolStatus \<times> ProjectedWorkspaceControl option"
where
  "DecodeProjectedWorkspaceControl encoded = (case encoded of None \<Rightarrow> (Workspace_kInvalidArgument, None) | Some encoded \<Rightarrow>
     if length encoded \<noteq> kProjectedWorkspaceControlLength then (Workspace_kInvalidLength, None)
     else if \<not> HasMagic kProjectedControlMagic encoded then (Workspace_kInvalidMagic, None)
     else if ReadU16 encoded 4 \<noteq> kProtocolVersion then (Workspace_kUnsupportedVersion, None)
     else let decoded = ReadU16 encoded 6
       in if \<not> KnownControl decoded then (Workspace_kInvalidField, None)
          else (Workspace_kSuccess, Some decoded))"

subsection \<open>Start of the DNS proxy\<close>

abbreviation (input) kDnsProxyStartupLength :: nat where "kDnsProxyStartupLength \<equiv> 128"

definition kStartupMagic :: bytes where
  "kStartupMagic = ascii ''BLS1''"

record DnsProxyStartup =
  ds_policy_length :: u32
  ds_policy_handle :: u64
  ds_read_handle :: u64
  ds_write_handle :: u64
  ds_maximum_frame_length :: u32
  ds_maximum_requests :: u32
  ds_tcp_listener_handle :: u64
  ds_tcp_listener_port :: u16
  ds_maximum_tcp_connections :: u32
  ds_tcp_ipv6_listener_handle :: u64
  ds_tcp_ipv6_listener_port :: u16
  ds_session :: DnsProxySession

definition DnsProxyStartup_init :: DnsProxyStartup where
  "DnsProxyStartup_init = \<lparr> ds_policy_length = 0, ds_policy_handle = 0, ds_read_handle = 0, ds_write_handle = 0,
     ds_maximum_frame_length = 0, ds_maximum_requests = 0, ds_tcp_listener_handle = 0, ds_tcp_listener_port = 0,
     ds_maximum_tcp_connections = 0, ds_tcp_ipv6_listener_handle = 0, ds_tcp_ipv6_listener_port = 0,
     ds_session = \<lparr> ps_nonce = zeros 16, ps_key = zeros 32 \<rparr> \<rparr>"

datatype DnsProxyStartupStatus =
    Startup_kSuccess
  | Startup_kInvalidArgument
  | Startup_kInvalidLength
  | Startup_kInvalidMagic
  | Startup_kUnsupportedVersion
  | Startup_kInvalidHeaderLength
  | Startup_kInvalidPolicy
  | Startup_kInvalidHandle
  | Startup_kInvalidLimits
  | Startup_kInvalidSession

definition ValidateStartup :: "DnsProxyStartup \<Rightarrow> DnsProxyStartupStatus" where
  "ValidateStartup startup =
     (if ds_policy_length startup = 0 \<or> 1048576 < ds_policy_length startup then Startup_kInvalidPolicy
      else if ds_policy_handle startup = 0 \<or> ds_read_handle startup = 0 \<or> ds_write_handle startup = 0
      then Startup_kInvalidHandle
      else if ds_tcp_listener_handle startup = 0 \<or> ds_tcp_listener_port startup = 0 \<or>
              ds_tcp_ipv6_listener_handle startup = 0 \<or> ds_tcp_ipv6_listener_port startup = 0
      then Startup_kInvalidHandle
      else if ds_maximum_frame_length startup < of_nat kDnsProxyHeaderLength \<or>
              1048576 < ds_maximum_frame_length startup \<or> ds_maximum_requests startup = 0 \<or>
              4096 < ds_maximum_requests startup \<or>
              ds_maximum_tcp_connections startup = 0 \<or> 4096 < ds_maximum_tcp_connections startup
      then Startup_kInvalidLimits
      else let nonce_zero = all_zero (ps_nonce (ds_session startup));
               key_zero = all_zero (ps_key (ds_session startup))
           in if nonce_zero \<or> key_zero then Startup_kInvalidSession else Startup_kSuccess)"

definition EncodeDnsProxyStartup :: "DnsProxyStartup \<Rightarrow> bytes" where
  "EncodeDnsProxyStartup startup =
     (let encoded = zeros kDnsProxyStartupLength
      in if ValidateStartup startup \<noteq> Startup_kSuccess then encoded
         else let encoded = put_bytes encoded 0 kStartupMagic;
                  encoded = WriteU16 encoded 4 kProtocolVersion;
                  encoded = WriteU16 encoded 6 (of_nat (length encoded));
                  encoded = WriteU32 encoded 8 (ds_policy_length startup);
                  encoded = WriteU32 encoded 12 (ds_maximum_frame_length startup);
                  encoded = WriteU32 encoded 16 (ds_maximum_requests startup);
                  encoded = WriteU64 encoded 24 (ds_policy_handle startup);
                  encoded = WriteU64 encoded 32 (ds_read_handle startup);
                  encoded = WriteU64 encoded 40 (ds_write_handle startup);
                  encoded = put_bytes encoded 48 (ps_nonce (ds_session startup));
                  encoded = put_bytes encoded 64 (ps_key (ds_session startup));
                  encoded = WriteU64 encoded 96 (ds_tcp_listener_handle startup);
                  encoded = WriteU16 encoded 104 (ds_tcp_listener_port startup);
                  encoded = WriteU32 encoded 108 (ds_maximum_tcp_connections startup);
                  encoded = WriteU64 encoded 112 (ds_tcp_ipv6_listener_handle startup)
              in WriteU16 encoded 120 (ds_tcp_ipv6_listener_port startup))"

definition DecodeDnsProxyStartup :: "byte_ptr \<Rightarrow> DnsProxyStartupStatus \<times> DnsProxyStartup" where
  "DecodeDnsProxyStartup encoded =
     (case encoded of None \<Rightarrow> (Startup_kInvalidArgument, DnsProxyStartup_init) | Some encoded \<Rightarrow>
     if length encoded \<noteq> kDnsProxyStartupLength then (Startup_kInvalidLength, DnsProxyStartup_init)
     else if \<not> HasMagic kStartupMagic encoded then (Startup_kInvalidMagic, DnsProxyStartup_init)
     else if ReadU16 encoded 4 \<noteq> kProtocolVersion then (Startup_kUnsupportedVersion, DnsProxyStartup_init)
     else if ReadU16 encoded 6 \<noteq> of_nat kDnsProxyStartupLength then (Startup_kInvalidHeaderLength, DnsProxyStartup_init)
     else let startup = \<lparr>
            ds_policy_length = ReadU32 encoded 8, ds_policy_handle = ReadU64 encoded 24,
            ds_read_handle = ReadU64 encoded 32, ds_write_handle = ReadU64 encoded 40,
            ds_maximum_frame_length = ReadU32 encoded 12, ds_maximum_requests = ReadU32 encoded 16,
            ds_tcp_listener_handle = ReadU64 encoded 96, ds_tcp_listener_port = ReadU16 encoded 104,
            ds_maximum_tcp_connections = ReadU32 encoded 108, ds_tcp_ipv6_listener_handle = ReadU64 encoded 112,
            ds_tcp_ipv6_listener_port = ReadU16 encoded 120,
            ds_session = \<lparr> ps_nonce = sub_bytes 48 16 encoded, ps_key = sub_bytes 64 32 encoded \<rparr> \<rparr>
       in (ValidateStartup startup, startup))"

text \<open>A buffer cut into consecutive pieces of the given lengths.\<close>

fun pieces :: "nat \<Rightarrow> nat list \<Rightarrow> bytes \<Rightarrow> bytes list" where
  "pieces off [] p = []"
| "pieces off (n # ns) p = sub_bytes off n p # pieces (off + n) ns p"

definition control_message :: "bytes \<Rightarrow> u16 \<Rightarrow> bytes" where
  "control_message magic v = concat [magic, le_bytes 2 kProtocolVersion, le_bytes 2 v]"

definition header_message :: "bytes \<Rightarrow> u16 \<Rightarrow> u32 \<Rightarrow> bytes" where
  "header_message magic v w = concat [magic, le_bytes 2 kProtocolVersion, le_bytes 2 v, le_bytes 4 w]"

definition recovery_request :: "u64 \<Rightarrow> u32 \<Rightarrow> RecoveryOperation \<Rightarrow> wstr \<Rightarrow> bytes" where
  "recovery_request request_id process_id operation path =
     concat [kRecoveryRequestMagic, le_bytes 2 kProtocolVersion, le_bytes 2 (32 :: u16),
       le_bytes 4 (of_nat (32 + length path * 2) :: u32), le_bytes 4 (of_nat (length path) :: u32),
       le_bytes 8 request_id, le_bytes 4 process_id, [operation, 0, 0, 0], utf16_bytes path]"

definition recovery_response :: "RecoveryResponse \<Rightarrow> bytes" where
  "recovery_response r =
     concat [kRecoveryResponseMagic, le_bytes 2 kProtocolVersion, le_bytes 2 (40 :: u16), le_bytes 4 (40 :: u32),
       le_bytes 8 (rr_request_id r), [if rr_succeeded r then 0 else 1], [0], [0], [0],
       le_bytes 8 (rr_artifact_id r), le_bytes 8 (rr_byte_count r)]"

definition recovery_response_ok :: "RecoveryResponse \<Rightarrow> bool" where
  "recovery_response_ok r \<longleftrightarrow> rr_request_id r \<noteq> 0 \<and>
     (if rr_succeeded r then rr_artifact_id r \<noteq> 0 else rr_artifact_id r = 0 \<and> rr_byte_count r = 0)"

text \<open>The message with given contents of the three gaps between its fields.\<close>

definition startup_message :: "DnsProxyStartup \<Rightarrow> bytes \<Rightarrow> bytes \<Rightarrow> bytes \<Rightarrow> bytes" where
  "startup_message s g1 g2 g3 =
     concat [kStartupMagic, le_bytes 2 kProtocolVersion, le_bytes 2 (128 :: u16), le_bytes 4 (ds_policy_length s),
       le_bytes 4 (ds_maximum_frame_length s), le_bytes 4 (ds_maximum_requests s), g1,
       le_bytes 8 (ds_policy_handle s), le_bytes 8 (ds_read_handle s), le_bytes 8 (ds_write_handle s),
       ps_nonce (ds_session s), ps_key (ds_session s), le_bytes 8 (ds_tcp_listener_handle s),
       le_bytes 2 (ds_tcp_listener_port s), g2, le_bytes 4 (ds_maximum_tcp_connections s),
       le_bytes 8 (ds_tcp_ipv6_listener_handle s), le_bytes 2 (ds_tcp_ipv6_listener_port s), g3]"

definition startup_ok :: "DnsProxyStartup \<Rightarrow> bool" where
  "startup_ok s \<longleftrightarrow> ValidateStartup s = Startup_kSuccess \<and> wf_session (ds_session s)"

definition startup_stray :: "bytes \<Rightarrow> bytes" where
  "startup_stray p = sub_bytes 20 4 p @ sub_bytes 106 2 p @ sub_bytes 122 6 p"

definition startup_decoded :: "bytes \<Rightarrow> DnsProxyStartup option" where
  "startup_decoded p = (case DecodeDnsProxyStartup (Some p) of (status, s) \<Rightarrow>
     if status = Startup_kSuccess then Some s else None)"

definition sample_startup :: DnsProxyStartup where
  "sample_startup = \<lparr> ds_policy_length = 44, ds_policy_handle = 8, ds_read_handle = 12, ds_write_handle = 16,
     ds_maximum_frame_length = 512, ds_maximum_requests = 16, ds_tcp_listener_handle = 20, ds_tcp_listener_port = 1080,
     ds_maximum_tcp_connections = 4, ds_tcp_ipv6_listener_handle = 24, ds_tcp_ipv6_listener_port = 1081,
     ds_session = sample_session \<rparr>"

section \<open>The layout of a message\<close>

lemma concat_pieces: "concat (pieces off ns p) = sub_bytes off (sum_list ns) p"
  by (induction ns arbitrary: off) (simp_all add: sub_bytes_append, simp add: sub_bytes_def)

lemma length_pieces: "off + sum_list ns \<le> length p \<Longrightarrow> map length (pieces off ns p) = ns"
  by (induction ns arbitrary: off) (auto simp: length_sub_bytes)

lemma concat_eq_pieces:
  "map length xs = map length ys \<Longrightarrow> concat xs = concat ys \<longleftrightarrow> xs = ys"
  by (induction xs ys rule: list_induct2') auto

text \<open>A message is the concatenation of fields exactly if each piece of it is its field.\<close>

lemma layout_iff:
  assumes "map length fs = ns" "length p = sum_list ns"
  shows "p = concat fs \<longleftrightarrow> pieces 0 ns p = fs"
proof -
  have "p = concat (pieces 0 ns p)" using assms(2) by (simp add: concat_pieces sub_bytes_0)
  then have "p = concat fs \<longleftrightarrow> concat (pieces 0 ns p) = concat fs" by simp
  also have "\<dots> \<longleftrightarrow> pieces 0 ns p = fs"
    by (rule concat_eq_pieces) (use assms length_pieces [of 0 ns p] in simp)
  finally show ?thesis .
qed

section \<open>Arrays of fields\<close>

context wire_field
begin

lemma concat_reads:
  "off + n * width \<le> length p \<Longrightarrow> concat (map (\<lambda>j. enc (rd p (off + j * width))) [0..<n]) = sub_bytes off (n * width) p"
proof (induction n)
  case 0
  then show ?case by (simp add: sub_bytes_def)
next
  case (Suc n)
  then have "concat (map (\<lambda>j. enc (rd p (off + j * width))) [0..<Suc n]) =
      sub_bytes off (n * width) p @ sub_bytes (off + n * width) width p"
    by (simp add: enc_read add.assoc add.commute)
  then show ?case by (simp add: sub_bytes_append add.commute)
qed

lemma array_read:
  assumes "off + n * width \<le> length p"
  shows "map (\<lambda>j. rd p (off + j * width)) [0..<n] = vs \<longleftrightarrow>
    length vs = n \<and> sub_bytes off (n * width) p = concat (map enc vs)"
proof
  assume vs: "map (\<lambda>j. rd p (off + j * width)) [0..<n] = vs"
  have "concat (map enc vs) = concat (map (\<lambda>j. enc (rd p (off + j * width))) [0..<n])"
    by (simp add: vs [symmetric] comp_def)
  then show "length vs = n \<and> sub_bytes off (n * width) p = concat (map enc vs)"
    using concat_reads [OF assms] vs by auto
next
  assume r: "length vs = n \<and> sub_bytes off (n * width) p = concat (map enc vs)"
  let ?us = "map (\<lambda>j. rd p (off + j * width)) [0..<n]"
  have "map enc ?us = map enc vs"
    by (rule concat_eq_pieces [THEN iffD1])
      (use r concat_reads [OF assms] in \<open>simp_all add: comp_def enc_width map_replicate_const\<close>)
  then show "?us = vs" by (rule map_injective) (simp add: inj_def enc_inject)
qed

end

section \<open>The contract of a fixed-size codec\<close>

locale fixed_codec =
  fixes enc :: "'a \<Rightarrow> bytes"
    and dec :: "bytes \<Rightarrow> 'a option"
    and ok :: "'a \<Rightarrow> bool"
    and stray :: "bytes \<Rightarrow> bytes"
  assumes dec_enc: "ok x \<Longrightarrow> dec (enc x) = Some x"
    and dec_ok: "dec p = Some x \<Longrightarrow> ok x"
    and enc_dec: "dec p = Some x \<Longrightarrow> all_zero (stray p) \<Longrightarrow> enc x = p"
    and enc_stray: "ok x \<Longrightarrow> all_zero (stray (enc x))"
begin

lemma enc_inj: "ok x \<Longrightarrow> ok y \<Longrightarrow> enc x = enc y \<longleftrightarrow> x = y"
  using dec_enc by (metis option.inject)

lemma accepted_iff: "all_zero (stray p) \<Longrightarrow> dec p = Some x \<longleftrightarrow> ok x \<and> p = enc x"
  using dec_enc dec_ok enc_dec by blast

lemma codec:
  "(ok x \<longrightarrow> dec (enc x) = Some x) \<and> (dec p = Some x \<longrightarrow> ok x) \<and>
   (all_zero (stray p) \<longrightarrow> (dec p = Some x \<longleftrightarrow> ok x \<and> p = enc x))"
  using dec_enc dec_ok accepted_iff by blast

end

section \<open>The messages satisfy the contract\<close>

lemma fill_first: "length src \<le> m \<Longrightarrow> put_bytes (zeros m) 0 src = src @ zeros (m - length src)"
  using fill_next [of "[]" 0 src m] by simp

lemma length_codec_magics [simp]:
  "length kControlMagic = 4" "length kTransportMagic = 4" "length kSecurityResponseMagic = 4"
  "length kProjectedControlMagic = 4" "length (ResponseMagic kind) = 4" "length kStartupMagic = 4"
  "length kRecoveryRequestMagic = 4" "length kRecoveryResponseMagic = 4"
  by (simp_all add: kControlMagic_def kTransportMagic_def kSecurityResponseMagic_def kProjectedControlMagic_def
      ResponseMagic_def kReadyMagic_def kFinishedMagic_def kStartupMagic_def kRecoveryRequestMagic_def
      kRecoveryResponseMagic_def)

lemmas fills = field_writes fill_first fill_next fill_byte
lemmas piece_reads = HasMagic_sub_bytes f16.read_eq_iff f32.read_eq_iff f64.read_eq_iff

subsection \<open>Eight-byte controls\<close>

lemma control_message_iff:
  "length p = 8 \<Longrightarrow> length magic = 4 \<Longrightarrow>
   p = control_message magic v \<longleftrightarrow> HasMagic magic p \<and> ReadU16 p 4 = kProtocolVersion \<and> ReadU16 p 6 = v"
  unfolding control_message_def by (subst layout_iff [where ns = "[4, 2, 2]"]) (auto simp: piece_reads)

lemma control_message_write:
  "length magic = 4 \<Longrightarrow> WriteU16 (WriteU16 (put_bytes (zeros 8) 0 magic) 4 1) 6 v = control_message magic v"
  by (simp add: control_message_def fills del: append_assoc)

lemma length_control_message: "length magic = 4 \<Longrightarrow> length (control_message magic v) = 8"
  by (simp add: control_message_def)

lemma DecodeLauncherControl_Some:
  "snd (DecodeLauncherControl (Some p)) = Some k \<longleftrightarrow> IsKnownControl k \<and> p = control_message kControlMagic k"
proof (cases "length p = 8")
  case True
  then show ?thesis by (auto simp: DecodeLauncherControl_def Let_def control_message_iff)
next
  case False
  then show ?thesis by (auto simp: DecodeLauncherControl_def length_control_message)
qed

lemma DecodeProjectedWorkspaceControl_Some:
  "snd (DecodeProjectedWorkspaceControl (Some p)) = Some k \<longleftrightarrow>
   KnownControl k \<and> p = control_message kProjectedControlMagic k"
proof (cases "length p = 8")
  case True
  then show ?thesis by (auto simp: DecodeProjectedWorkspaceControl_def Let_def control_message_iff)
next
  case False
  then show ?thesis by (auto simp: DecodeProjectedWorkspaceControl_def length_control_message)
qed

text \<open>A codec that reads every byte of its messages.\<close>

lemma full_codec:
  assumes "\<And>x. ok x \<Longrightarrow> enc x = ser x" "\<And>p x. dec p = Some x \<longleftrightarrow> ok x \<and> p = ser x"
  shows "fixed_codec enc dec ok (\<lambda>p. [])"
  by unfold_locales (use assms in \<open>auto simp: all_zero_def\<close>)

interpretation launcher_control: fixed_codec EncodeLauncherControl "\<lambda>p. snd (DecodeLauncherControl (Some p))"
    IsKnownControl "\<lambda>p. []"
  by (rule full_codec [OF _ DecodeLauncherControl_Some])
    (simp add: EncodeLauncherControl_def Let_def control_message_write)

interpretation projected_control: fixed_codec EncodeProjectedWorkspaceControl
    "\<lambda>p. snd (DecodeProjectedWorkspaceControl (Some p))" KnownControl "\<lambda>p. []"
  by (rule full_codec [OF _ DecodeProjectedWorkspaceControl_Some])
    (simp add: EncodeProjectedWorkspaceControl_def Let_def control_message_write)

subsection \<open>Twelve-byte headers and responses\<close>

lemma header_message_iff:
  "length p = 12 \<Longrightarrow> length magic = 4 \<Longrightarrow>
   p = header_message magic v w \<longleftrightarrow>
     HasMagic magic p \<and> ReadU16 p 4 = kProtocolVersion \<and> ReadU16 p 6 = v \<and> ReadU32 p 8 = w"
  unfolding header_message_def by (subst layout_iff [where ns = "[4, 2, 2, 4]"]) (auto simp: piece_reads)

lemma header_message_write:
  "length magic = 4 \<Longrightarrow>
   WriteU32 (WriteU16 (WriteU16 (put_bytes (zeros 12) 0 magic) 4 1) 6 v) 8 w = header_message magic v w"
  by (simp add: header_message_def fills del: append_assoc)

lemma length_header_message: "length magic = 4 \<Longrightarrow> length (header_message magic v w) = 12"
  by (simp add: header_message_def)

lemma DecodeLauncherTransportHeader_Some:
  "snd (DecodeLauncherTransportHeader (Some p)) = Some x \<longleftrightarrow>
   (IsKnownTransportKind (fst x) \<and> snd x \<le> 1048576) \<and> p = header_message kTransportMagic (fst x) (snd x)"
proof (cases "length p = 12")
  case True
  then show ?thesis
    by (cases x) (auto simp: DecodeLauncherTransportHeader_def Let_def header_message_iff not_less)
next
  case False
  then show ?thesis by (auto simp: DecodeLauncherTransportHeader_def length_header_message)
qed

lemma DecodeWorkspaceSecurityResponse_Some:
  "snd (DecodeWorkspaceSecurityResponse (Some p)) = Some r \<longleftrightarrow>
   IsKnownSecurityResult r \<and> p = header_message kSecurityResponseMagic 12 r"
proof (cases "length p = 12")
  case True
  then show ?thesis by (auto simp: DecodeWorkspaceSecurityResponse_def Let_def header_message_iff)
next
  case False
  then show ?thesis by (auto simp: DecodeWorkspaceSecurityResponse_def length_header_message)
qed

lemma DecodeProjectedWorkspaceResponse_Some:
  "snd (DecodeProjectedWorkspaceResponse kind (Some p)) = Some r \<longleftrightarrow>
   KnownResult r \<and> p = header_message (ResponseMagic kind) 12 r"
proof (cases "length p = 12")
  case True
  have "unat (ReadU16 p 6) = 12 \<longleftrightarrow> ReadU16 p 6 = 12" by (simp add: unat_eq_of_nat_iff)
  then show ?thesis
    using True by (auto simp: DecodeProjectedWorkspaceResponse_def Let_def header_message_iff)
next
  case False
  then show ?thesis by (auto simp: DecodeProjectedWorkspaceResponse_def length_header_message)
qed

interpretation launcher_transport: fixed_codec
    "\<lambda>x. snd (EncodeLauncherTransportHeader (fst x) (snd x))" "\<lambda>p. snd (DecodeLauncherTransportHeader (Some p))"
    "\<lambda>x. IsKnownTransportKind (fst x) \<and> snd x \<le> 1048576" "\<lambda>p. []"
  by (rule full_codec [OF _ DecodeLauncherTransportHeader_Some])
    (simp add: EncodeLauncherTransportHeader_def Let_def header_message_write not_less [symmetric])

interpretation security_response: fixed_codec EncodeWorkspaceSecurityResponse
    "\<lambda>p. snd (DecodeWorkspaceSecurityResponse (Some p))" IsKnownSecurityResult "\<lambda>p. []"
  by (rule full_codec [OF _ DecodeWorkspaceSecurityResponse_Some])
    (simp add: EncodeWorkspaceSecurityResponse_def Let_def header_message_write)

interpretation projected_response: fixed_codec "EncodeProjectedWorkspaceResponse kind"
    "\<lambda>p. snd (DecodeProjectedWorkspaceResponse kind (Some p))" KnownResult "\<lambda>p. []"
  for kind
  by (rule full_codec [OF _ DecodeProjectedWorkspaceResponse_Some])
    (simp add: EncodeProjectedWorkspaceResponse_def Let_def header_message_write f16.length_write)

subsection \<open>Recovery messages\<close>

lemma EncodeRecoveryRequest_eq:
  "EncodeRecoveryRequest request_id process_id operation path =
    (if request_id = 0 \<or> process_id = 0 \<or> \<not> ValidOperation operation \<or> path = None then (Recovery_kInvalidArgument, [])
     else let name = c_str (the path)
       in if name = [] \<or> 32767 < length name then (Recovery_kInvalidField, [])
          else (Recovery_kSuccess, recovery_request request_id process_id operation name))"
proof -
  have fill: "put_bytes ((WriteU32 (WriteU64 (WriteU32 (WriteU32 (WriteU16 (WriteU16 (put_bytes (zeros (32 + length name * 2)) 0
      kRecoveryRequestMagic) 4 1) 6 32) 8 t) 12 l) 16 i) 24 q)[28 := operation]) 32 (utf16_bytes name) =
      concat [kRecoveryRequestMagic, le_bytes 2 kProtocolVersion, le_bytes 2 (32 :: u16), le_bytes 4 t, le_bytes 4 l,
       le_bytes 8 i, le_bytes 4 q, [operation, 0, 0, 0], utf16_bytes name]" for name :: wstr and t l i q
    by (simp add: fills fill_gap [of 3] del: append_assoc) (simp add: zeros_numeral)
  have "bounded_scan 32767 0 p = length (c_str p)" if "length (c_str p) \<le> 32767" for p :: wstr
    using that by (simp add: bounded_scan_0)
  moreover have "32767 < bounded_scan 32767 0 p" if "32767 < length (c_str p)" for p :: wstr
    using that by (simp add: bounded_scan_0)
  ultimately show ?thesis
    by (cases "32767 < length (c_str (the path))")
      (auto simp: EncodeRecoveryRequest_def Let_def recovery_request_def fill take_c_str not_less simp del: concat.simps)
qed

lemma recovery_response_iff:
  assumes "length p = 40"
  shows "p = recovery_response r \<longleftrightarrow> HasMagic kRecoveryResponseMagic p \<and> ReadU16 p 4 = kProtocolVersion \<and> ReadU16 p 6 = 40 \<and>
    ReadU32 p 8 = 40 \<and> ReadU64 p 12 = rr_request_id r \<and> p ! 20 = (if rr_succeeded r then 0 else 1) \<and>
    p ! 21 = 0 \<and> p ! 22 = 0 \<and> p ! 23 = 0 \<and> ReadU64 p 24 = rr_artifact_id r \<and> ReadU64 p 32 = rr_byte_count r"
  unfolding recovery_response_def using assms
  by (subst layout_iff [where ns = "[4, 2, 2, 4, 8, 1, 1, 1, 1, 8, 8]"])
    (auto simp: piece_reads sub_bytes_1 [simplified])

lemma DecodeRecoveryResponse_Some:
  "snd (DecodeRecoveryResponse (Some p)) = Some r \<longleftrightarrow> recovery_response_ok r \<and> p = recovery_response r"
proof (cases "length p = 40")
  case True
  have st: "\<not> 1 < p ! 20 \<longleftrightarrow> p ! 20 = 0 \<or> p ! 20 = 1"
    by (auto simp: word_less_nat_alt unat_eq_of_nat_iff word_1_le not_less word_le_nat_alt le_Suc_eq)
  show ?thesis
    unfolding recovery_response_iff [OF True]
    using True st
    by (cases r) (auto simp: DecodeRecoveryResponse_def Let_def recovery_response_ok_def split: if_splits)
next
  case False
  then show ?thesis
    by (auto simp: DecodeRecoveryResponse_def recovery_response_def)
qed

subsection \<open>The start message of the DNS proxy\<close>

lemma EncodeDnsProxyStartup_eq:
  assumes "startup_ok s"
  shows "EncodeDnsProxyStartup s = startup_message s (zeros 4) (zeros 2) (zeros 6)"
proof -
  have len: "length (ps_nonce (ds_session s)) = 16" "length (ps_key (ds_session s)) = 32"
    using assms by (simp_all add: startup_ok_def wf_session_def)
  show ?thesis
    using assms len unfolding EncodeDnsProxyStartup_def Let_def startup_ok_def startup_message_def
    by (simp add: fills fill_gap [of 4] fill_gap [of 2] f16.length_write del: append_assoc)
qed

lemma startup_message_iff:
  assumes "length p = 128" "wf_session (ds_session s)" "length g1 = 4" "length g2 = 2" "length g3 = 6"
  shows "p = startup_message s g1 g2 g3 \<longleftrightarrow> HasMagic kStartupMagic p \<and> ReadU16 p 4 = kProtocolVersion \<and> ReadU16 p 6 = 128 \<and>
    ReadU32 p 8 = ds_policy_length s \<and> ReadU32 p 12 = ds_maximum_frame_length s \<and> ReadU32 p 16 = ds_maximum_requests s \<and>
    sub_bytes 20 4 p = g1 \<and> ReadU64 p 24 = ds_policy_handle s \<and> ReadU64 p 32 = ds_read_handle s \<and>
    ReadU64 p 40 = ds_write_handle s \<and> sub_bytes 48 16 p = ps_nonce (ds_session s) \<and>
    sub_bytes 64 32 p = ps_key (ds_session s) \<and> ReadU64 p 96 = ds_tcp_listener_handle s \<and>
    ReadU16 p 104 = ds_tcp_listener_port s \<and> sub_bytes 106 2 p = g2 \<and> ReadU32 p 108 = ds_maximum_tcp_connections s \<and>
    ReadU64 p 112 = ds_tcp_ipv6_listener_handle s \<and> ReadU16 p 120 = ds_tcp_ipv6_listener_port s \<and> sub_bytes 122 6 p = g3"
  unfolding startup_message_def using assms
  by (subst layout_iff [where ns = "[4, 2, 2, 4, 4, 4, 4, 8, 8, 8, 16, 32, 8, 2, 2, 4, 8, 2, 6]"])
    (simp_all add: piece_reads wf_session_def)

lemma startup_decoded_iff:
  "startup_decoded p = Some s \<longleftrightarrow> startup_ok s \<and>
     (length p = 128 \<and> p = startup_message s (sub_bytes 20 4 p) (sub_bytes 106 2 p) (sub_bytes 122 6 p))"
proof (cases "length p = 128")
  case True
  have wf: "wf_session \<lparr> ps_nonce = sub_bytes 48 16 p, ps_key = sub_bytes 64 32 p \<rparr>"
    using True by (simp add: wf_session_def length_sub_bytes)
  have gaps: "length (sub_bytes 20 4 p) = 4" "length (sub_bytes 106 2 p) = 2" "length (sub_bytes 122 6 p) = 6"
    using True by (simp_all add: length_sub_bytes)
  show ?thesis
  proof (cases "wf_session (ds_session s)")
    case ws: True
    have ses: "ps_nonce (ds_session s) = a \<and> ps_key (ds_session s) = b \<longleftrightarrow> ds_session s = \<lparr> ps_nonce = a, ps_key = b \<rparr>" for a b
      by (cases "ds_session s") auto
    show ?thesis
      unfolding startup_message_iff [OF True ws gaps] startup_ok_def
      using True ws by (cases s, cases "ds_session s")
        (auto simp: startup_decoded_def DecodeDnsProxyStartup_def Let_def split: if_splits)
  next
    case False
    then have "startup_decoded p \<noteq> Some s"
      using True wf by (auto simp: startup_decoded_def DecodeDnsProxyStartup_def Let_def split: if_splits)
    then show ?thesis using False by (simp add: startup_ok_def)
  qed
next
  case False
  then show ?thesis by (simp add: startup_decoded_def DecodeDnsProxyStartup_def)
qed

lemma startup_stray_zero:
  "length p = 128 \<Longrightarrow> all_zero (startup_stray p) \<longleftrightarrow>
   sub_bytes 20 4 p = zeros 4 \<and> sub_bytes 106 2 p = zeros 2 \<and> sub_bytes 122 6 p = zeros 6"
  by (simp add: startup_stray_def all_zero_def zeros_def)
    (simp add: all_zero_def [symmetric] all_zero_replicate length_sub_bytes)

lemma startup_message_zeros:
  assumes "startup_ok s"
  shows "length (startup_message s (zeros 4) (zeros 2) (zeros 6)) = 128"
    "sub_bytes 20 4 (startup_message s (zeros 4) (zeros 2) (zeros 6)) = zeros 4"
    "sub_bytes 106 2 (startup_message s (zeros 4) (zeros 2) (zeros 6)) = zeros 2"
    "sub_bytes 122 6 (startup_message s (zeros 4) (zeros 2) (zeros 6)) = zeros 6"
proof -
  have ws: "wf_session (ds_session s)" using assms by (simp add: startup_ok_def)
  show len: "length (startup_message s (zeros 4) (zeros 2) (zeros 6)) = 128"
    using ws by (simp add: startup_message_def wf_session_def)
  show "sub_bytes 20 4 (startup_message s (zeros 4) (zeros 2) (zeros 6)) = zeros 4"
    "sub_bytes 106 2 (startup_message s (zeros 4) (zeros 2) (zeros 6)) = zeros 2"
    "sub_bytes 122 6 (startup_message s (zeros 4) (zeros 2) (zeros 6)) = zeros 6"
    using startup_message_iff [OF len ws, of "zeros 4" "zeros 2" "zeros 6"] by simp_all
qed

interpretation dns_startup: fixed_codec EncodeDnsProxyStartup startup_decoded startup_ok startup_stray
proof
  fix s p
  show "startup_decoded (EncodeDnsProxyStartup s) = Some s" if "startup_ok s"
    using that by (simp add: startup_decoded_iff EncodeDnsProxyStartup_eq startup_message_zeros)
  show "startup_ok s" if "startup_decoded p = Some s" using that by (simp add: startup_decoded_iff)
  show "EncodeDnsProxyStartup s = p" if "startup_decoded p = Some s" "all_zero (startup_stray p)"
  proof -
    have ok: "startup_ok s" and len: "length p = 128"
      and p: "p = startup_message s (sub_bytes 20 4 p) (sub_bytes 106 2 p) (sub_bytes 122 6 p)"
      using that(1) unfolding startup_decoded_iff by blast+
    show ?thesis
      using p that(2) unfolding EncodeDnsProxyStartup_eq [OF ok] startup_stray_zero [OF len] by metis
  qed
  show "all_zero (startup_stray (EncodeDnsProxyStartup s))" if "startup_ok s"
    using that by (simp add: EncodeDnsProxyStartup_eq startup_stray_zero startup_message_zeros)
qed

section \<open>Properties\<close>

lemma control_message_encoded:
  "IsKnownControl k \<Longrightarrow> EncodeLauncherControl k = control_message kControlMagic k"
  by (simp add: EncodeLauncherControl_def Let_def control_message_write)

lemma EncodeLauncherTransportHeader_success:
  "EncodeLauncherTransportHeader kind n = (Transport_kSuccess, p) \<longleftrightarrow>
   (IsKnownTransportKind kind \<and> n \<le> 1048576) \<and> p = header_message kTransportMagic kind n"
  by (auto simp: EncodeLauncherTransportHeader_def Let_def header_message_write not_less)

text \<open>
  C34. The small messages of the sandbox have exactly one form.  A launcher control message, a
  transport header, a response or control of a projected workspace and a response of the
  security helper are accepted, with a value, exactly if the value is one the protocol knows
  and the bytes are its encoding; a recovery response is accepted exactly if it is the
  40-byte layout of a consistent response, and a recovery request is produced exactly for
  valid arguments and a path of at most 32767 code units, in its documented layout.
\<close>

theorem fixed_messages_exact:
  "(snd (DecodeLauncherControl (Some p)) = Some control \<longleftrightarrow> IsKnownControl control \<and> p = EncodeLauncherControl control) \<and>
   (snd (DecodeLauncherTransportHeader (Some p)) = Some (kind, payload_length) \<longleftrightarrow>
      EncodeLauncherTransportHeader kind payload_length = (Transport_kSuccess, p)) \<and>
   (snd (DecodeProjectedWorkspaceControl (Some p)) = Some pcontrol \<longleftrightarrow>
      KnownControl pcontrol \<and> p = EncodeProjectedWorkspaceControl pcontrol) \<and>
   (snd (DecodeProjectedWorkspaceResponse rkind (Some p)) = Some presult \<longleftrightarrow>
      KnownResult presult \<and> p = EncodeProjectedWorkspaceResponse rkind presult) \<and>
   (snd (DecodeWorkspaceSecurityResponse (Some p)) = Some sresult \<longleftrightarrow>
      IsKnownSecurityResult sresult \<and> p = EncodeWorkspaceSecurityResponse sresult) \<and>
   (snd (DecodeRecoveryResponse (Some p)) = Some response \<longleftrightarrow>
      recovery_response_ok response \<and> p = recovery_response response) \<and>
   (EncodeRecoveryRequest request_id process_id operation (Some path) = (Recovery_kSuccess, p) \<longleftrightarrow>
      request_id \<noteq> 0 \<and> process_id \<noteq> 0 \<and> ValidOperation operation \<and> c_str path \<noteq> [] \<and> length (c_str path) \<le> 32767 \<and>
      p = recovery_request request_id process_id operation (c_str path))"
proof (intro conjI)
  show "snd (DecodeLauncherControl (Some p)) = Some control \<longleftrightarrow> IsKnownControl control \<and> p = EncodeLauncherControl control"
    by (rule launcher_control.accepted_iff) (simp add: all_zero_def)
  show "snd (DecodeLauncherTransportHeader (Some p)) = Some (kind, payload_length) \<longleftrightarrow>
      EncodeLauncherTransportHeader kind payload_length = (Transport_kSuccess, p)"
    by (simp add: DecodeLauncherTransportHeader_Some EncodeLauncherTransportHeader_success)
  show "snd (DecodeProjectedWorkspaceControl (Some p)) = Some pcontrol \<longleftrightarrow>
      KnownControl pcontrol \<and> p = EncodeProjectedWorkspaceControl pcontrol"
    by (rule projected_control.accepted_iff) (simp add: all_zero_def)
  show "snd (DecodeProjectedWorkspaceResponse rkind (Some p)) = Some presult \<longleftrightarrow>
      KnownResult presult \<and> p = EncodeProjectedWorkspaceResponse rkind presult"
    by (rule projected_response.accepted_iff) (simp add: all_zero_def)
  show "snd (DecodeWorkspaceSecurityResponse (Some p)) = Some sresult \<longleftrightarrow>
      IsKnownSecurityResult sresult \<and> p = EncodeWorkspaceSecurityResponse sresult"
    by (rule security_response.accepted_iff) (simp add: all_zero_def)
qed (rule DecodeRecoveryResponse_Some, auto simp: EncodeRecoveryRequest_eq Let_def not_less)

text \<open>
  C35. The start message of the DNS proxy comes back as it was sent, no message with invalid
  contents is accepted, and twelve bytes of the message are not looked at: two messages that
  differ only there decode to the same value.
\<close>

theorem dns_startup_codec:
  "(startup_ok s \<longrightarrow> DecodeDnsProxyStartup (Some (EncodeDnsProxyStartup s)) = (Startup_kSuccess, s)) \<and>
   (DecodeDnsProxyStartup (Some p) = (Startup_kSuccess, s) \<longleftrightarrow>
      startup_ok s \<and> (\<exists>g1 g2 g3. length g1 = 4 \<and> length g2 = 2 \<and> length g3 = 6 \<and> p = startup_message s g1 g2 g3))"
proof -
  have dec: "DecodeDnsProxyStartup (Some q) = (Startup_kSuccess, s) \<longleftrightarrow> startup_decoded q = Some s" for q
    by (cases "DecodeDnsProxyStartup (Some q)") (auto simp: startup_decoded_def)
  have gaps: "startup_decoded p = Some s"
    if ok: "startup_ok s" and g: "length g1 = 4" "length g2 = 2" "length g3 = 6" "p = startup_message s g1 g2 g3" for g1 g2 g3
  proof -
    have ws: "wf_session (ds_session s)" using ok by (simp add: startup_ok_def)
    then have len: "length p = 128" using g by (simp add: startup_message_def wf_session_def)
    show ?thesis
      using startup_message_iff [OF len ws g(1-3)] g(4) ok len unfolding startup_decoded_iff by simp
  qed
  have split: "\<exists>g1 g2 g3. length g1 = 4 \<and> length g2 = 2 \<and> length g3 = 6 \<and> p = startup_message s g1 g2 g3"
    if "startup_decoded p = Some s"
    using that unfolding startup_decoded_iff
    by (intro exI [of _ "sub_bytes 20 4 p"] exI [of _ "sub_bytes 106 2 p"] exI [of _ "sub_bytes 122 6 p"])
      (simp add: length_sub_bytes)
  show ?thesis unfolding dec using dns_startup.dec_enc dns_startup.dec_ok gaps split by blast
qed

lemma startup_ok_sample: "startup_ok sample_startup"
  by (simp add: startup_ok_def sample_startup_def sample_session_def ValidateStartup_def wf_session_def all_zero_iff)

theorem dns_startup_codec_witness:
  "DecodeDnsProxyStartup (Some (EncodeDnsProxyStartup sample_startup)) = (Startup_kSuccess, sample_startup) \<and>
   DecodeDnsProxyStartup (Some (startup_message sample_startup [1, 2, 3, 4] [5, 6] (replicate 6 7))) =
     (Startup_kSuccess, sample_startup)"
proof -
  let ?p = "startup_message sample_startup [1, 2, 3, 4] [5, 6] (replicate 6 7)"
  have "\<exists>g1 g2 g3. length g1 = 4 \<and> length g2 = 2 \<and> length g3 = 6 \<and> ?p = startup_message sample_startup g1 g2 g3"
    by (intro exI [of _ "[1, 2, 3, 4]"] exI [of _ "[5, 6]"] exI [of _ "replicate 6 7"]) simp
  then show ?thesis using dns_startup_codec [of sample_startup ?p] startup_ok_sample by blast
qed

end
