(* ===== verification/RuntimePayload.thy ===== *)
theory RuntimePayload
  imports FixedCodecs PolicyPayload
begin

text \<open>
  The payloads copied into a target process before it runs: \<open>runtime_payload.cpp\<close> (handles,
  policy length, nonces and proxy parameters in 184 bytes) and \<open>inherited_handle_payload.cpp\<close>
  (up to 128 handle values).  The 64-bit build is modelled, where the check that handle values
  fit 32 bits is compiled out.
\<close>

section \<open>Definitions\<close>

abbreviation (input) kRuntimePayloadLength :: nat where "kRuntimePayloadLength \<equiv> 184"

definition kRuntimeMagic :: bytes where
  "kRuntimeMagic = ascii ''BLR1''"

definition kMinimumPolicyLength :: nat where
  "kMinimumPolicyLength = kPolicyEnvelopeLength"

definition kMaximumPolicyLength :: nat where
  "kMaximumPolicyLength = kPolicyEnvelopeLength + kPolicyMaximumBodyLength"

type_synonym RuntimeStartupFault = u8

abbreviation (input) Fault_kMitigationFailure :: RuntimeStartupFault where "Fault_kMitigationFailure \<equiv> 1"

record RuntimePayload =
  rp_target_process_id :: u32
  rp_policy_length :: u32
  rp_policy_handle :: u64
  rp_event_handle :: u64
  rp_release_handle :: u64
  rp_descendant_ready_handle :: u64
  rp_handshake_nonce :: bytes
  rp_dns_request_handle :: u64
  rp_dns_response_handle :: u64
  rp_dns_maximum_frame_length :: u32
  rp_dns_authentication_key :: bytes
  rp_tcp_proxy_port :: u16
  rp_tcp_proxy_ipv6_port :: u16
  rp_startup_fault :: RuntimeStartupFault
  rp_descendant_startup_fault :: RuntimeStartupFault
  rp_isolated_console :: bool
  rp_standard_output_handle :: u64
  rp_standard_error_handle :: u64
  rp_event_write_mutex_handle :: u64
  rp_recovery_request_handle :: u64
  rp_recovery_response_handle :: u64
  rp_recovery_mutex_handle :: u64
  rp_recovery_counter_handle :: u64

datatype RuntimePayloadStatus =
    Runtime_kSuccess
  | Runtime_kInvalidArgument
  | Runtime_kInvalidLength
  | Runtime_kInvalidMagic
  | Runtime_kUnsupportedVersion
  | Runtime_kInvalidHeaderLength
  | Runtime_kInvalidProcessId
  | Runtime_kInvalidPolicyLength
  | Runtime_kInvalidHandle
  | Runtime_kInvalidDnsProxy
  | Runtime_kInvalidStartupFault
  | Runtime_kInvalidCapability
  | Runtime_kNonCanonicalReservedBytes

definition IsValidHandleValue :: "u64 \<Rightarrow> bool" where
  "IsValidHandleValue v = (\<not> (v = 0 \<or> v = - 1))"

definition EncodeRuntimePayload :: "RuntimePayload \<Rightarrow> bytes" where
  "EncodeRuntimePayload payload =
     (let encoded = zeros kRuntimePayloadLength;
          encoded = put_bytes encoded 0 kRuntimeMagic;
          encoded = WriteU16 encoded 4 kProtocolVersion;
          encoded = WriteU16 encoded 6 (of_nat (length encoded));
          encoded = WriteU32 encoded 8 (rp_target_process_id payload);
          encoded = WriteU32 encoded 12 (rp_policy_length payload);
          encoded = WriteU64 encoded 16 (rp_policy_handle payload);
          encoded = WriteU64 encoded 24 (rp_event_handle payload);
          encoded = WriteU64 encoded 32 (rp_release_handle payload);
          encoded = WriteU64 encoded 40 (rp_descendant_ready_handle payload);
          encoded = put_bytes encoded 48 (rp_handshake_nonce payload);
          encoded = WriteU64 encoded 64 (rp_dns_request_handle payload);
          encoded = WriteU64 encoded 72 (rp_dns_response_handle payload);
          encoded = WriteU32 encoded 80 (rp_dns_maximum_frame_length payload);
          encoded = put_bytes encoded 88 (rp_dns_authentication_key payload);
          encoded = WriteU16 encoded 120 (rp_tcp_proxy_port payload);
          encoded = WriteU16 encoded 122 (rp_tcp_proxy_ipv6_port payload);
          encoded = encoded[124 := rp_startup_fault payload];
          encoded = encoded[125 := rp_descendant_startup_fault payload];
          encoded = encoded[126 := if rp_isolated_console payload then 1 else 0];
          encoded = WriteU64 encoded 128 (rp_standard_output_handle payload);
          encoded = WriteU64 encoded 136 (rp_standard_error_handle payload);
          encoded = WriteU64 encoded 144 (rp_event_write_mutex_handle payload);
          encoded = WriteU64 encoded 152 (rp_recovery_request_handle payload);
          encoded = WriteU64 encoded 160 (rp_recovery_response_handle payload);
          encoded = WriteU64 encoded 168 (rp_recovery_mutex_handle payload)
      in WriteU64 encoded 176 (rp_recovery_counter_handle payload))"

text \<open>The fields as the decoder reads them, and its checks on them in the order of the source.\<close>

definition ReadRuntimePayload :: "bytes \<Rightarrow> RuntimePayload" where
  "ReadRuntimePayload encoded =
     \<lparr> rp_target_process_id = ReadU32 encoded 8, rp_policy_length = ReadU32 encoded 12,
       rp_policy_handle = ReadU64 encoded 16, rp_event_handle = ReadU64 encoded 24,
       rp_release_handle = ReadU64 encoded 32, rp_descendant_ready_handle = ReadU64 encoded 40,
       rp_handshake_nonce = sub_bytes 48 16 encoded,
       rp_dns_request_handle = ReadU64 encoded 64, rp_dns_response_handle = ReadU64 encoded 72,
       rp_dns_maximum_frame_length = ReadU32 encoded 80,
       rp_dns_authentication_key = sub_bytes 88 32 encoded,
       rp_tcp_proxy_port = ReadU16 encoded 120, rp_tcp_proxy_ipv6_port = ReadU16 encoded 122,
       rp_startup_fault = encoded ! 124, rp_descendant_startup_fault = encoded ! 125,
       rp_isolated_console = (encoded ! 126 \<noteq> 0),
       rp_standard_output_handle = ReadU64 encoded 128, rp_standard_error_handle = ReadU64 encoded 136,
       rp_event_write_mutex_handle = ReadU64 encoded 144,
       rp_recovery_request_handle = ReadU64 encoded 152, rp_recovery_response_handle = ReadU64 encoded 160,
       rp_recovery_mutex_handle = ReadU64 encoded 168, rp_recovery_counter_handle = ReadU64 encoded 176 \<rparr>"

definition recovery_handles :: "RuntimePayload \<Rightarrow> u64 list" where
  "recovery_handles decoded = [rp_recovery_request_handle decoded, rp_recovery_response_handle decoded,
     rp_recovery_mutex_handle decoded, rp_recovery_counter_handle decoded]"

definition CheckRuntimePayload :: "RuntimePayload \<Rightarrow> RuntimePayloadStatus" where
  "CheckRuntimePayload decoded =
     (if rp_target_process_id decoded = 0 then Runtime_kInvalidProcessId
      else if unat (rp_policy_length decoded) < kMinimumPolicyLength \<or>
              kMaximumPolicyLength < unat (rp_policy_length decoded)
      then Runtime_kInvalidPolicyLength
      else if \<not> IsValidHandleValue (rp_policy_handle decoded) \<or> \<not> IsValidHandleValue (rp_event_handle decoded) \<or>
              \<not> IsValidHandleValue (rp_release_handle decoded) \<or>
              (rp_descendant_ready_handle decoded \<noteq> 0 \<and> \<not> IsValidHandleValue (rp_descendant_ready_handle decoded))
      then Runtime_kInvalidHandle
      else let standard_streams_absent = (rp_standard_output_handle decoded = 0 \<and> rp_standard_error_handle decoded = 0);
               standard_streams_valid = (IsValidHandleValue (rp_standard_output_handle decoded) \<and>
                                         IsValidHandleValue (rp_standard_error_handle decoded))
      in if \<not> standard_streams_absent \<and> \<not> standard_streams_valid then Runtime_kInvalidHandle
      else if \<not> IsValidHandleValue (rp_event_write_mutex_handle decoded) then Runtime_kInvalidHandle
      else let recovery_absent = list_all (\<lambda>handle. handle = 0) (recovery_handles decoded);
               recovery_valid = list_all IsValidHandleValue (recovery_handles decoded)
      in if \<not> recovery_absent \<and> \<not> recovery_valid then Runtime_kInvalidHandle
      else let dns_key_zero = all_zero (rp_dns_authentication_key decoded);
               dns_absent = (rp_dns_request_handle decoded = 0 \<and> rp_dns_response_handle decoded = 0 \<and>
                             rp_dns_maximum_frame_length decoded = 0 \<and> rp_tcp_proxy_port decoded = 0 \<and>
                             rp_tcp_proxy_ipv6_port decoded = 0 \<and> dns_key_zero);
               dns_valid = (IsValidHandleValue (rp_dns_request_handle decoded) \<and>
                            IsValidHandleValue (rp_dns_response_handle decoded) \<and>
                            68 \<le> rp_dns_maximum_frame_length decoded \<and>
                            rp_dns_maximum_frame_length decoded \<le> 1048576 \<and>
                            rp_tcp_proxy_port decoded \<noteq> 0 \<and> rp_tcp_proxy_ipv6_port decoded \<noteq> 0 \<and> \<not> dns_key_zero)
      in if \<not> dns_absent \<and> \<not> dns_valid then Runtime_kInvalidDnsProxy
      else if Fault_kMitigationFailure < rp_startup_fault decoded \<or>
              Fault_kMitigationFailure < rp_descendant_startup_fault decoded
      then Runtime_kInvalidStartupFault
      else Runtime_kSuccess)"

definition DecodeRuntimePayload :: "byte_ptr \<Rightarrow> RuntimePayloadStatus \<times> RuntimePayload option" where
  "DecodeRuntimePayload encoded = (case encoded of None \<Rightarrow> (Runtime_kInvalidArgument, None) | Some encoded \<Rightarrow>
     if length encoded \<noteq> kRuntimePayloadLength then (Runtime_kInvalidLength, None)
     else if \<not> HasMagic kRuntimeMagic encoded then (Runtime_kInvalidMagic, None)
     else if ReadU16 encoded 4 \<noteq> kProtocolVersion then (Runtime_kUnsupportedVersion, None)
     else if ReadU16 encoded 6 \<noteq> of_nat kRuntimePayloadLength then (Runtime_kInvalidHeaderLength, None)
     else if 1 < encoded ! 126 then (Runtime_kInvalidCapability, None)
     else let decoded = ReadRuntimePayload encoded;
              status = CheckRuntimePayload decoded
       in if status \<noteq> Runtime_kSuccess then (status, None)
          else if encoded ! 127 \<noteq> 0 then (Runtime_kNonCanonicalReservedBytes, None)
          else (Runtime_kSuccess, Some decoded))"

subsection \<open>Inherited handles\<close>

abbreviation (input) kInheritedHandlePayloadHeaderLength :: nat where "kInheritedHandlePayloadHeaderLength \<equiv> 16"

definition kMaximumInheritedHandleCount :: nat where
  "kMaximumInheritedHandleCount = 128"

definition kInheritedMagic :: bytes where
  "kInheritedMagic = ascii ''BLH1''"

datatype InheritedHandlePayloadStatus =
    Inherited_kSuccess
  | Inherited_kInvalidArgument
  | Inherited_kInvalidLength
  | Inherited_kInvalidMagic
  | Inherited_kUnsupportedVersion
  | Inherited_kInvalidHeaderLength
  | Inherited_kInvalidCount
  | Inherited_kInvalidHandle
  | Inherited_kNonCanonicalReservedBytes

definition IsValidHandle :: "u64 \<Rightarrow> bool" where
  "IsValidHandle handle = (\<not> (handle = 0 \<or> handle = - 1))"

definition EncodeInheritedHandlePayload :: "u64 list \<Rightarrow> bytes" where
  "EncodeInheritedHandlePayload handles =
     (if kMaximumInheritedHandleCount < length handles \<or> list_ex (\<lambda>handle. \<not> IsValidHandle handle) handles then []
      else let encoded = zeros (kInheritedHandlePayloadHeaderLength + length handles * 8);
               encoded = put_bytes encoded 0 kInheritedMagic;
               encoded = WriteU16 encoded 4 kProtocolVersion;
               encoded = WriteU16 encoded 6 (of_nat kInheritedHandlePayloadHeaderLength);
               encoded = WriteU32 encoded 8 (of_nat (length handles))
           in fold (\<lambda>index encoded. WriteU64 encoded (kInheritedHandlePayloadHeaderLength + index * 8) (handles ! index))
                [0..<length handles] encoded)"

text \<open>The handle loop from \<open>index\<close> on, with the handles read so far; \<open>None\<close> is the early \<open>kInvalidHandle\<close>.\<close>

fun ReadInheritedHandles :: "bytes \<Rightarrow> nat \<Rightarrow> nat \<Rightarrow> u64 list \<Rightarrow> u64 list option" where
  "ReadInheritedHandles encoded index 0 handles = Some handles"
| "ReadInheritedHandles encoded index (Suc remaining) handles =
     (let handle = ReadU64 encoded (kInheritedHandlePayloadHeaderLength + index * 8)
      in if \<not> IsValidHandle handle then None
         else if handle \<in> set handles then None
         else ReadInheritedHandles encoded (Suc index) remaining (handles @ [handle]))"

definition DecodeInheritedHandlePayload :: "byte_ptr \<Rightarrow> InheritedHandlePayloadStatus \<times> u64 list" where
  "DecodeInheritedHandlePayload encoded = (case encoded of None \<Rightarrow> (Inherited_kInvalidArgument, []) | Some encoded \<Rightarrow>
     if length encoded < kInheritedHandlePayloadHeaderLength then (Inherited_kInvalidLength, [])
     else if \<not> HasMagic kInheritedMagic encoded then (Inherited_kInvalidMagic, [])
     else if ReadU16 encoded 4 \<noteq> kProtocolVersion then (Inherited_kUnsupportedVersion, [])
     else if ReadU16 encoded 6 \<noteq> of_nat kInheritedHandlePayloadHeaderLength then (Inherited_kInvalidHeaderLength, [])
     else let count = unat (ReadU32 encoded 8)
       in if kMaximumInheritedHandleCount < count then (Inherited_kInvalidCount, [])
       else if length encoded \<noteq> kInheritedHandlePayloadHeaderLength + count * 8 then (Inherited_kInvalidLength, [])
       else if encoded ! 12 \<noteq> 0 \<or> encoded ! 13 \<noteq> 0 \<or> encoded ! 14 \<noteq> 0 \<or> encoded ! 15 \<noteq> 0
       then (Inherited_kNonCanonicalReservedBytes, [])
       else case ReadInheritedHandles encoded 0 count [] of
           None \<Rightarrow> (Inherited_kInvalidHandle, [])
         | Some handles \<Rightarrow> (Inherited_kSuccess, handles))"

definition runtime_message :: "RuntimePayload \<Rightarrow> bytes \<Rightarrow> bytes" where
  "runtime_message r gap =
     concat [kRuntimeMagic, le_bytes 2 kProtocolVersion, le_bytes 2 (184 :: u16), le_bytes 4 (rp_target_process_id r),
       le_bytes 4 (rp_policy_length r), le_bytes 8 (rp_policy_handle r), le_bytes 8 (rp_event_handle r),
       le_bytes 8 (rp_release_handle r), le_bytes 8 (rp_descendant_ready_handle r), rp_handshake_nonce r,
       le_bytes 8 (rp_dns_request_handle r), le_bytes 8 (rp_dns_response_handle r),
       le_bytes 4 (rp_dns_maximum_frame_length r), gap, rp_dns_authentication_key r, le_bytes 2 (rp_tcp_proxy_port r),
       le_bytes 2 (rp_tcp_proxy_ipv6_port r), [rp_startup_fault r], [rp_descendant_startup_fault r],
       [if rp_isolated_console r then 1 else 0], [0], le_bytes 8 (rp_standard_output_handle r),
       le_bytes 8 (rp_standard_error_handle r), le_bytes 8 (rp_event_write_mutex_handle r),
       le_bytes 8 (rp_recovery_request_handle r), le_bytes 8 (rp_recovery_response_handle r),
       le_bytes 8 (rp_recovery_mutex_handle r), le_bytes 8 (rp_recovery_counter_handle r)]"

definition runtime_arrays :: "RuntimePayload \<Rightarrow> bool" where
  "runtime_arrays r \<longleftrightarrow> length (rp_handshake_nonce r) = 16 \<and> length (rp_dns_authentication_key r) = 32"

definition runtime_ok :: "RuntimePayload \<Rightarrow> bool" where
  "runtime_ok r \<longleftrightarrow> runtime_arrays r \<and> CheckRuntimePayload r = Runtime_kSuccess"

definition inherited_head :: "nat \<Rightarrow> bytes" where
  "inherited_head n = concat [kInheritedMagic, le_bytes 2 kProtocolVersion, le_bytes 2 (16 :: u16),
     le_bytes 4 (of_nat n :: u32), [0], [0], [0], [0]]"

definition inherited_message :: "u64 list \<Rightarrow> bytes" where
  "inherited_message handles = inherited_head (length handles) @ concat (map (le_bytes 8) handles)"

definition handle_values :: "bytes \<Rightarrow> nat \<Rightarrow> nat \<Rightarrow> u64 list" where
  "handle_values p i n = map (\<lambda>j. ReadU64 p (16 + j * 8)) [i..<i + n]"

definition sample_runtime :: RuntimePayload where
  "sample_runtime = \<lparr> rp_target_process_id = 4242, rp_policy_length = 64, rp_policy_handle = 8, rp_event_handle = 12,
     rp_release_handle = 16, rp_descendant_ready_handle = 0, rp_handshake_nonce = replicate 16 3,
     rp_dns_request_handle = 20, rp_dns_response_handle = 24, rp_dns_maximum_frame_length = 512,
     rp_dns_authentication_key = replicate 32 9, rp_tcp_proxy_port = 1080, rp_tcp_proxy_ipv6_port = 1081,
     rp_startup_fault = 0, rp_descendant_startup_fault = 1, rp_isolated_console = True,
     rp_standard_output_handle = 28, rp_standard_error_handle = 32, rp_event_write_mutex_handle = 36,
     rp_recovery_request_handle = 0, rp_recovery_response_handle = 0, rp_recovery_mutex_handle = 0,
     rp_recovery_counter_handle = 0 \<rparr>"

section \<open>The runtime payload\<close>

lemma length_runtime_magics [simp]: "length kRuntimeMagic = 4" "length kInheritedMagic = 4"
  by (simp_all add: kRuntimeMagic_def kInheritedMagic_def)

lemma EncodeRuntimePayload_eq:
  assumes "runtime_arrays r"
  shows "EncodeRuntimePayload r = runtime_message r (zeros 4)"
  using assms unfolding EncodeRuntimePayload_def Let_def runtime_arrays_def runtime_message_def
  by (simp add: fills fill_gap [of 4] fill_gap [of 1] f16.length_write del: append_assoc)
    (simp add: zeros_numeral)

lemma runtime_message_iff:
  assumes "length p = 184" "runtime_arrays r" "length gap = 4"
  shows "p = runtime_message r gap \<longleftrightarrow> HasMagic kRuntimeMagic p \<and> ReadU16 p 4 = kProtocolVersion \<and> ReadU16 p 6 = 184 \<and>
    p ! 126 = (if rp_isolated_console r then 1 else 0) \<and> p ! 127 = 0 \<and> sub_bytes 84 4 p = gap \<and>
    ReadRuntimePayload p = r"
proof -
  have "p = runtime_message r gap \<longleftrightarrow> HasMagic kRuntimeMagic p \<and> ReadU16 p 4 = kProtocolVersion \<and> ReadU16 p 6 = 184 \<and>
    ReadU32 p 8 = rp_target_process_id r \<and> ReadU32 p 12 = rp_policy_length r \<and> ReadU64 p 16 = rp_policy_handle r \<and>
    ReadU64 p 24 = rp_event_handle r \<and> ReadU64 p 32 = rp_release_handle r \<and> ReadU64 p 40 = rp_descendant_ready_handle r \<and>
    sub_bytes 48 16 p = rp_handshake_nonce r \<and> ReadU64 p 64 = rp_dns_request_handle r \<and>
    ReadU64 p 72 = rp_dns_response_handle r \<and> ReadU32 p 80 = rp_dns_maximum_frame_length r \<and> sub_bytes 84 4 p = gap \<and>
    sub_bytes 88 32 p = rp_dns_authentication_key r \<and> ReadU16 p 120 = rp_tcp_proxy_port r \<and>
    ReadU16 p 122 = rp_tcp_proxy_ipv6_port r \<and> p ! 124 = rp_startup_fault r \<and> p ! 125 = rp_descendant_startup_fault r \<and>
    p ! 126 = (if rp_isolated_console r then 1 else 0) \<and> p ! 127 = 0 \<and> ReadU64 p 128 = rp_standard_output_handle r \<and>
    ReadU64 p 136 = rp_standard_error_handle r \<and> ReadU64 p 144 = rp_event_write_mutex_handle r \<and>
    ReadU64 p 152 = rp_recovery_request_handle r \<and> ReadU64 p 160 = rp_recovery_response_handle r \<and>
    ReadU64 p 168 = rp_recovery_mutex_handle r \<and> ReadU64 p 176 = rp_recovery_counter_handle r"
    unfolding runtime_message_def using assms
    by (subst layout_iff [where ns = "[4, 2, 2, 4, 4, 8, 8, 8, 8, 16, 8, 8, 4, 4, 32, 2, 2, 1, 1, 1, 1, 8, 8, 8, 8, 8, 8, 8]"])
      (simp_all add: piece_reads runtime_arrays_def sub_bytes_1 [simplified] del: concat.simps)
  then show ?thesis by (cases r) (auto simp: ReadRuntimePayload_def)
qed

lemma DecodeRuntimePayload_Some:
  "snd (DecodeRuntimePayload (Some p)) = Some r \<longleftrightarrow>
   (runtime_arrays r \<and> CheckRuntimePayload r = Runtime_kSuccess) \<and> length p = 184 \<and> p = runtime_message r (sub_bytes 84 4 p)"
proof (cases "length p = 184")
  case True
  have arrays: "runtime_arrays (ReadRuntimePayload p)"
    using True by (simp add: runtime_arrays_def ReadRuntimePayload_def length_sub_bytes)
  have st: "\<not> 1 < p ! 126 \<longleftrightarrow> p ! 126 = (if p ! 126 \<noteq> 0 then 1 else 0)"
    by (auto simp: word_less_nat_alt unat_eq_of_nat_iff word_1_le not_less word_le_nat_alt le_Suc_eq)
  have gap: "length (sub_bytes 84 4 p) = 4" using True by (simp add: length_sub_bytes)
  have ic: "rp_isolated_console (ReadRuntimePayload p) \<longleftrightarrow> p ! 126 \<noteq> 0" by (simp add: ReadRuntimePayload_def)
  show ?thesis
  proof (cases "ReadRuntimePayload p = r")
    case eq: True
    show ?thesis
      unfolding eq [symmetric] runtime_message_iff [OF True arrays gap] ic
      using True arrays st by (auto simp: DecodeRuntimePayload_def Let_def split: if_splits)
  next
    case False
    then have "snd (DecodeRuntimePayload (Some p)) \<noteq> Some r"
      by (auto simp: DecodeRuntimePayload_def Let_def split: if_splits)
    then show ?thesis using False runtime_message_iff [OF True _ gap, of r] by blast
  qed
next
  case False
  then show ?thesis by (simp add: DecodeRuntimePayload_def)
qed

lemma DecodeRuntimePayload_status:
  "DecodeRuntimePayload (Some p) = (Runtime_kSuccess, Some r) \<longleftrightarrow> snd (DecodeRuntimePayload (Some p)) = Some r"
  by (auto simp: DecodeRuntimePayload_def Let_def split: if_splits)

lemma runtime_message_zeros:
  assumes "runtime_arrays r" "length gap = 4"
  shows "length (runtime_message r gap) = 184" "sub_bytes 84 4 (runtime_message r gap) = gap"
proof -
  show len: "length (runtime_message r gap) = 184"
    using assms by (simp add: runtime_message_def runtime_arrays_def)
  show "sub_bytes 84 4 (runtime_message r gap) = gap" using runtime_message_iff [OF len assms] by simp
qed

lemma all_zero_4: "length g = 4 \<Longrightarrow> all_zero g \<longleftrightarrow> g = zeros 4"
  by (simp add: all_zero_replicate zeros_def)

interpretation runtime_payload: fixed_codec EncodeRuntimePayload "\<lambda>p. snd (DecodeRuntimePayload (Some p))" runtime_ok
    "sub_bytes 84 4"
proof
  fix r p
  show "snd (DecodeRuntimePayload (Some (EncodeRuntimePayload r))) = Some r" if "runtime_ok r"
    using that by (simp add: DecodeRuntimePayload_Some runtime_ok_def EncodeRuntimePayload_eq runtime_message_zeros)
  show "runtime_ok r" if "snd (DecodeRuntimePayload (Some p)) = Some r"
    using that by (simp add: DecodeRuntimePayload_Some runtime_ok_def)
  show "EncodeRuntimePayload r = p" if "snd (DecodeRuntimePayload (Some p)) = Some r" "all_zero (sub_bytes 84 4 p)"
  proof -
    have arrays: "runtime_arrays r" and len: "length p = 184" and p: "p = runtime_message r (sub_bytes 84 4 p)"
      using that(1) unfolding DecodeRuntimePayload_Some by blast+
    have "sub_bytes 84 4 p = zeros 4" using that(2) len by (simp add: all_zero_4 length_sub_bytes)
    then show ?thesis using p unfolding EncodeRuntimePayload_eq [OF arrays] by metis
  qed
  show "all_zero (sub_bytes 84 4 (EncodeRuntimePayload r))" if "runtime_ok r"
    using that by (simp add: runtime_ok_def EncodeRuntimePayload_eq runtime_message_zeros all_zero_4)
qed

section \<open>Inherited handles\<close>

lemma length_inherited_head [simp]: "length (inherited_head n) = 16"
  by (simp add: inherited_head_def)

lemma inherited_message_nonempty: "inherited_message hs \<noteq> []"
proof
  assume "inherited_message hs = []"
  then have "length (inherited_head (length hs)) = 0" by (simp add: inherited_message_def)
  then show False by simp
qed

lemma length_concat_handles [simp]: "length (concat (map (le_bytes 8) (xs :: u64 list))) = length xs * 8"
  by (induction xs) simp_all

lemma write_handles:
  assumes "n \<le> length hs" "length a = 16"
  shows "fold (\<lambda>index encoded. WriteU64 encoded (16 + index * 8) (hs ! index)) [0..<n] (a @ zeros (length hs * 8)) =
    (a @ concat (map (le_bytes 8) (take n hs))) @ zeros ((length hs - n) * 8)"
  using assms(1)
proof (induction n)
  case 0
  then show ?case by simp
next
  case (Suc n)
  have m: "(length hs - n) * 8 - 8 = (length hs - Suc n) * 8" using Suc.prems by (simp add: diff_mult_distrib)
  have "8 \<le> (length hs - n) * 8" using Suc.prems by simp
  then show ?case
    using Suc assms(2)
    by (simp add: f64.write_put fill_next m take_Suc_conv_app_nth del: append_assoc)
qed

lemma EncodeInheritedHandlePayload_eq:
  "EncodeInheritedHandlePayload hs =
    (if length hs \<le> kMaximumInheritedHandleCount \<and> list_all IsValidHandle hs then inherited_message hs else [])"
proof (cases "length hs \<le> kMaximumInheritedHandleCount \<and> list_all IsValidHandle hs")
  case True
  have z: "zeros (12 + k * 8) = zeros 12 @ zeros (k * 8)" for k by (rule zeros_add)
  have head: "WriteU32 (WriteU16 (WriteU16 (put_bytes (zeros (16 + length hs * 8)) 0 kInheritedMagic) 4 1) 6 16) 8
      (of_nat (length hs)) = inherited_head (length hs) @ zeros (length hs * 8)"
  proof -
    have "WriteU32 (WriteU16 (WriteU16 (put_bytes (zeros (16 + length hs * 8)) 0 kInheritedMagic) 4 1) 6 16) 8
      (of_nat (length hs)) = kInheritedMagic @ le_bytes 2 (1 :: u16) @ le_bytes 2 (16 :: u16) @
        le_bytes 4 (of_nat (length hs) :: u32) @ zeros (4 + length hs * 8)"
      by (simp add: fills del: append_assoc)
    also have "zeros (4 + length hs * 8) = [0, 0, 0, 0] @ zeros (length hs * 8)"
      unfolding zeros_add by (simp add: zeros_def eval_nat_numeral)
    finally show ?thesis by (simp add: inherited_head_def)
  qed
  have cond: "\<not> (kMaximumInheritedHandleCount < length hs \<or> list_ex (\<lambda>handle. \<not> IsValidHandle handle) hs)"
    using True by (auto simp: list_ex_iff list_all_iff)
  show ?thesis
    unfolding EncodeInheritedHandlePayload_def if_not_P [OF cond] Let_def of_nat_numeral head
      write_handles [OF order.refl length_inherited_head]
    using True by (simp add: inherited_message_def)
next
  case False
  then show ?thesis by (auto simp: EncodeInheritedHandlePayload_def list_ex_iff list_all_iff)
qed

lemma ReadInheritedHandles_eq:
  "distinct acc \<Longrightarrow> ReadInheritedHandles p i n acc =
    (if list_all IsValidHandle (handle_values p i n) \<and> distinct (acc @ handle_values p i n)
     then Some (acc @ handle_values p i n) else None)"
proof (induction n arbitrary: i acc)
  case 0
  then show ?case by (simp add: handle_values_def)
next
  case (Suc n)
  have v: "handle_values p i (Suc n) = ReadU64 p (16 + i * 8) # handle_values p (Suc i) n"
    by (simp add: handle_values_def upt_conv_Cons del: upt_Suc)
  have IH: "ReadInheritedHandles p (Suc i) n (acc @ [ReadU64 p (16 + i * 8)]) =
    (if list_all IsValidHandle (handle_values p (Suc i) n) \<and>
        distinct ((acc @ [ReadU64 p (16 + i * 8)]) @ handle_values p (Suc i) n)
     then Some ((acc @ [ReadU64 p (16 + i * 8)]) @ handle_values p (Suc i) n) else None)"
    if "ReadU64 p (16 + i * 8) \<notin> set acc"
    by (rule Suc.IH) (use Suc.prems that in simp)
  show ?case
    unfolding v using IH by (auto simp: Let_def)
qed

lemma handle_values_eq:
  assumes "length p = 16 + n * 8"
  shows "handle_values p 0 n = hs \<longleftrightarrow> length hs = n \<and> drop 16 p = concat (map (le_bytes 8) hs)"
  using f64.array_read [of 16 n p hs] assms by (simp add: handle_values_def sub_bytes_def)

lemma inherited_head_iff:
  assumes "16 \<le> length p"
  shows "take 16 p = inherited_head n \<longleftrightarrow> HasMagic kInheritedMagic p \<and> ReadU16 p 4 = kProtocolVersion \<and> ReadU16 p 6 = 16 \<and>
    ReadU32 p 8 = of_nat n \<and> p ! 12 = 0 \<and> p ! 13 = 0 \<and> p ! 14 = 0 \<and> p ! 15 = 0"
  unfolding inherited_head_def using assms
  by (subst layout_iff [where ns = "[4, 2, 2, 4, 1, 1, 1, 1]"])
    (auto simp: piece_reads sub_bytes_take sub_bytes_1 [simplified])

lemma DecodeInheritedHandlePayload_iff:
  "DecodeInheritedHandlePayload (Some p) = (Inherited_kSuccess, hs) \<longleftrightarrow>
   length hs \<le> kMaximumInheritedHandleCount \<and> list_all IsValidHandle hs \<and> distinct hs \<and> p = inherited_message hs"
proof (cases "length p < 16")
  case True
  then show ?thesis by (auto simp: DecodeInheritedHandlePayload_def inherited_message_def)
next
  case False
  define n where "n = unat (ReadU32 p 8)"
  have cnt: "ReadU32 p 8 = of_nat (length hs) \<longleftrightarrow> n = length hs" if "length hs \<le> 128"
    using that unfolding n_def by (simp add: unat_eq_of_nat_iff)
  have dec: "DecodeInheritedHandlePayload (Some p) = (Inherited_kSuccess, hs) \<longleftrightarrow>
      n \<le> 128 \<and> length p = 16 + n * 8 \<and> take 16 p = inherited_head n \<and>
      list_all IsValidHandle (handle_values p 0 n) \<and> distinct (handle_values p 0 n) \<and> handle_values p 0 n = hs"
    using False unfolding inherited_head_iff [OF False [unfolded not_less]]
    by (auto simp: DecodeInheritedHandlePayload_def Let_def ReadInheritedHandles_eq n_def kMaximumInheritedHandleCount_def
        split: option.splits if_splits)
  have msg: "p = inherited_message hs \<longleftrightarrow> take 16 p = inherited_head (length hs) \<and> drop 16 p = concat (map (le_bytes 8) hs)"
    using False append_take_drop_id [of 16 p] unfolding inherited_message_def
    by (metis append_eq_conv_conj length_inherited_head)
  show ?thesis
  proof
    assume "DecodeInheritedHandlePayload (Some p) = (Inherited_kSuccess, hs)"
    note d = this [unfolded dec]
    then have "length hs = n \<and> drop 16 p = concat (map (le_bytes 8) hs)" using handle_values_eq [of p n hs] by blast
    then show "length hs \<le> kMaximumInheritedHandleCount \<and> list_all IsValidHandle hs \<and> distinct hs \<and> p = inherited_message hs"
      using d unfolding msg by (auto simp: kMaximumInheritedHandleCount_def)
  next
    assume r: "length hs \<le> kMaximumInheritedHandleCount \<and> list_all IsValidHandle hs \<and> distinct hs \<and> p = inherited_message hs"
    then have hd: "take 16 p = inherited_head (length hs)" "drop 16 p = concat (map (le_bytes 8) hs)"
      and c: "length hs \<le> 128"
      unfolding msg by (simp_all add: kMaximumInheritedHandleCount_def)
    have n: "n = length hs"
      using hd(1) cnt [OF c] unfolding inherited_head_iff [OF False [unfolded not_less]] by blast
    have len: "length p = 16 + n * 8" using r n by (simp add: inherited_message_def)
    have "handle_values p 0 n = hs" using handle_values_eq [OF len] hd(2) n by simp
    then show "DecodeInheritedHandlePayload (Some p) = (Inherited_kSuccess, hs)"
      unfolding dec using r hd(1) n len c by simp
  qed
qed

lemma DecodeInheritedHandlePayload_repeated:
  assumes "length hs \<le> kMaximumInheritedHandleCount" "\<not> distinct hs"
  shows "DecodeInheritedHandlePayload (Some (inherited_message hs)) = (Inherited_kInvalidHandle, [])"
proof -
  let ?p = "inherited_message hs"
  have c: "length hs \<le> 128" using assms(1) by (simp add: kMaximumInheritedHandleCount_def)
  have len: "length ?p = 16 + length hs * 8" by (simp add: inherited_message_def)
  have "take 16 ?p = inherited_head (length hs)" "drop 16 ?p = concat (map (le_bytes 8) hs)"
    by (simp_all add: inherited_message_def)
  moreover have "16 \<le> length ?p" using len by simp
  ultimately have fields: "HasMagic kInheritedMagic ?p" "ReadU16 ?p 4 = kProtocolVersion" "ReadU16 ?p 6 = 16"
    "ReadU32 ?p 8 = of_nat (length hs)" "?p ! 12 = 0" "?p ! 13 = 0" "?p ! 14 = 0" "?p ! 15 = 0"
    and v: "handle_values ?p 0 (length hs) = hs"
    using inherited_head_iff [of ?p "length hs"] handle_values_eq [OF len] by simp_all
  have n: "unat (ReadU32 ?p 8) = length hs" unfolding fields(4) using c by (simp add: unat_of_nat_less)
  show ?thesis
    using fields(1-3,5-8) n len c v assms(2)
    by (simp add: DecodeInheritedHandlePayload_def ReadInheritedHandles_eq kMaximumInheritedHandleCount_def)
qed

section \<open>Properties\<close>

text \<open>
  C36. The payloads injected into a process are decoded exactly as they were encoded.  A runtime
  payload that passes the decoder's checks comes back unchanged; a byte string is accepted
  exactly if it is the layout of such a payload, with arbitrary contents only in the four
  bytes 84 to 87.  A list of inherited handles is accepted exactly if it is the layout of at
  most 128 valid and distinct handles.  The encoder lays out every list of at most 128 valid
  handles, distinct or not, and returns nothing otherwise; the payload it makes of a list with a
  repeated handle is rejected with \<open>kInvalidHandle\<close>.
\<close>

theorem injected_payloads_exact:
  "(DecodeRuntimePayload (Some p) = (Runtime_kSuccess, Some r) \<longleftrightarrow>
      runtime_ok r \<and> (\<exists>gap. length gap = 4 \<and> p = runtime_message r gap)) \<and>
   (runtime_ok r \<longrightarrow> DecodeRuntimePayload (Some (EncodeRuntimePayload r)) = (Runtime_kSuccess, Some r)) \<and>
   (DecodeInheritedHandlePayload (Some p) = (Inherited_kSuccess, hs) \<longleftrightarrow>
      distinct hs \<and> p \<noteq> [] \<and> p = EncodeInheritedHandlePayload hs) \<and>
   EncodeInheritedHandlePayload hs =
     (if length hs \<le> kMaximumInheritedHandleCount \<and> list_all IsValidHandle hs then inherited_message hs else []) \<and>
   (length hs \<le> kMaximumInheritedHandleCount \<and> list_all IsValidHandle hs \<and> \<not> distinct hs \<longrightarrow>
      EncodeInheritedHandlePayload hs \<noteq> [] \<and>
      DecodeInheritedHandlePayload (Some (EncodeInheritedHandlePayload hs)) = (Inherited_kInvalidHandle, []))"
proof (intro conjI impI)
  show "DecodeRuntimePayload (Some p) = (Runtime_kSuccess, Some r) \<longleftrightarrow>
      runtime_ok r \<and> (\<exists>gap. length gap = 4 \<and> p = runtime_message r gap)"
  proof
    assume "DecodeRuntimePayload (Some p) = (Runtime_kSuccess, Some r)"
    then have "(runtime_arrays r \<and> CheckRuntimePayload r = Runtime_kSuccess) \<and> length p = 184 \<and>
        p = runtime_message r (sub_bytes 84 4 p)"
      unfolding DecodeRuntimePayload_status DecodeRuntimePayload_Some .
    then show "runtime_ok r \<and> (\<exists>gap. length gap = 4 \<and> p = runtime_message r gap)"
      unfolding runtime_ok_def by (intro conjI exI [of _ "sub_bytes 84 4 p"]) (simp_all add: length_sub_bytes)
  next
    assume a: "runtime_ok r \<and> (\<exists>gap. length gap = 4 \<and> p = runtime_message r gap)"
    then obtain gap where gap: "length gap = 4" "p = runtime_message r gap" by blast
    have arrays: "runtime_arrays r" using a by (simp add: runtime_ok_def)
    show "DecodeRuntimePayload (Some p) = (Runtime_kSuccess, Some r)"
      unfolding DecodeRuntimePayload_status DecodeRuntimePayload_Some
      using a gap runtime_message_zeros [OF arrays gap(1)] by (simp add: runtime_ok_def)
  qed
  show "DecodeRuntimePayload (Some (EncodeRuntimePayload r)) = (Runtime_kSuccess, Some r)" if "runtime_ok r"
    unfolding DecodeRuntimePayload_status using runtime_payload.dec_enc [OF that] .
  show "DecodeInheritedHandlePayload (Some p) = (Inherited_kSuccess, hs) \<longleftrightarrow>
      distinct hs \<and> p \<noteq> [] \<and> p = EncodeInheritedHandlePayload hs"
    unfolding DecodeInheritedHandlePayload_iff EncodeInheritedHandlePayload_eq using inherited_message_nonempty by auto
  show "EncodeInheritedHandlePayload hs =
      (if length hs \<le> kMaximumInheritedHandleCount \<and> list_all IsValidHandle hs then inherited_message hs else [])"
    by (rule EncodeInheritedHandlePayload_eq)
  assume rep: "length hs \<le> kMaximumInheritedHandleCount \<and> list_all IsValidHandle hs \<and> \<not> distinct hs"
  then have msg: "EncodeInheritedHandlePayload hs = inherited_message hs" by (simp add: EncodeInheritedHandlePayload_eq)
  show "EncodeInheritedHandlePayload hs \<noteq> []" unfolding msg by (rule inherited_message_nonempty)
  show "DecodeInheritedHandlePayload (Some (EncodeInheritedHandlePayload hs)) = (Inherited_kInvalidHandle, [])"
    unfolding msg using DecodeInheritedHandlePayload_repeated rep by blast
qed

lemma runtime_ok_sample: "runtime_ok sample_runtime"
  by (simp add: runtime_ok_def runtime_arrays_def sample_runtime_def CheckRuntimePayload_def IsValidHandleValue_def
      kMinimumPolicyLength_def kMaximumPolicyLength_def recovery_handles_def all_zero_iff)

theorem injected_payloads_exact_witness:
  "DecodeRuntimePayload (Some (EncodeRuntimePayload sample_runtime)) = (Runtime_kSuccess, Some sample_runtime) \<and>
   DecodeRuntimePayload (Some (runtime_message sample_runtime [1, 2, 3, 4])) = (Runtime_kSuccess, Some sample_runtime) \<and>
   DecodeInheritedHandlePayload (Some (EncodeInheritedHandlePayload [8, 12])) = (Inherited_kSuccess, [8, 12]) \<and>
   EncodeInheritedHandlePayload [8, 8] \<noteq> [] \<and>
   DecodeInheritedHandlePayload (Some (EncodeInheritedHandlePayload [8, 8])) = (Inherited_kInvalidHandle, [])"
proof (intro conjI)
  show "DecodeRuntimePayload (Some (EncodeRuntimePayload sample_runtime)) = (Runtime_kSuccess, Some sample_runtime)"
    using injected_payloads_exact [of _ sample_runtime] runtime_ok_sample by blast
  have "\<exists>gap. length gap = 4 \<and> runtime_message sample_runtime [1, 2, 3, 4] = runtime_message sample_runtime gap"
    by (rule exI [of _ "[1, 2, 3, 4]"]) simp
  then show "DecodeRuntimePayload (Some (runtime_message sample_runtime [1, 2, 3, 4])) = (Runtime_kSuccess, Some sample_runtime)"
    using injected_payloads_exact [of "runtime_message sample_runtime [1, 2, 3, 4]" sample_runtime] runtime_ok_sample by blast
  have ne: "EncodeInheritedHandlePayload [8, h] \<noteq> []" if "h \<noteq> 0" "h \<noteq> - 1" for h
    using that inherited_message_nonempty
    by (simp add: EncodeInheritedHandlePayload_eq kMaximumInheritedHandleCount_def IsValidHandle_def)
  have "distinct [8, 12 :: u64]" "EncodeInheritedHandlePayload [8, 12] \<noteq> []" using ne [of 12] by simp_all
  then show "DecodeInheritedHandlePayload (Some (EncodeInheritedHandlePayload [8, 12])) = (Inherited_kSuccess, [8, 12])"
    using injected_payloads_exact [of "EncodeInheritedHandlePayload [8, 12]" _ "[8, 12]"] by blast
  have "length [8, 8 :: u64] \<le> kMaximumInheritedHandleCount \<and> list_all IsValidHandle [8, 8] \<and> \<not> distinct [8, 8 :: u64]"
    by (simp add: kMaximumInheritedHandleCount_def IsValidHandle_def)
  then show "EncodeInheritedHandlePayload [8, 8] \<noteq> []"
    "DecodeInheritedHandlePayload (Some (EncodeInheritedHandlePayload [8, 8])) = (Inherited_kInvalidHandle, [])"
    using injected_payloads_exact [of _ _ "[8, 8]"] by blast+
qed

end
