(* ===== verification/DigestRequests.thy ===== *)
theory DigestRequests
  imports FixedCodecs "HOL-Library.Monad_Syntax"
begin

text \<open>
  The three variable-size requests protected by a SHA-256 digest: the start request of the
  launcher (\<open>launcher_startup.cpp\<close>), the request to project a workspace
  (\<open>projected_workspace_protocol.cpp\<close>) and the request to the security helper
  (\<open>workspace_security_protocol.cpp\<close>).

  SHA-256 is the parameter \<open>sha256\<close>: \<open>None\<close> is a failing call of the operating system, and a
  digest is only delivered if it has the 32 bytes that the caller's buffer has.  Allocation
  succeeds.  \<open>HashRequest\<close>, \<open>AppendUtf16\<close> and \<open>ReadUtf16\<close> are repeated in the three files.
  The codecs satisfy the contract \<open>fixed_codec\<close> with no stray bytes.
\<close>

section \<open>Definitions\<close>

type_synonym sha256_fn = "bytes \<Rightarrow> bytes option"

definition kMaximumPathCodeUnits :: nat where
  "kMaximumPathCodeUnits = 32767"

text \<open>\<open>header\<close> is the header length of the request, \<open>digest\<close> the offset of its digest.\<close>

definition HashRequest :: "sha256_fn \<Rightarrow> nat \<Rightarrow> nat \<Rightarrow> bytes \<Rightarrow> bytes option" where
  "HashRequest sha256 header digest encoded =
     (if length encoded < header then None
      else case sha256 (take digest encoded @ drop header encoded) of
          None \<Rightarrow> None
        | Some value \<Rightarrow> if length value = 32 then Some value else None)"

definition AppendUtf16 :: "bytes \<Rightarrow> wstr \<Rightarrow> bytes" where
  "AppendUtf16 encoded value = encoded @ utf16_bytes value"

definition ReadUtf16 :: "bytes \<Rightarrow> nat \<Rightarrow> nat \<Rightarrow> (wstr \<times> nat) option" where
  "ReadUtf16 encoded offset code_units =
     (if (2 ^ 64 - 1) div 2 < code_units \<or> length encoded - offset < code_units * 2 then None
      else Some (map (\<lambda>i. ReadU16 encoded (offset + i * 2)) [0..<code_units], offset + code_units * 2))"

subsection \<open>Start request of the launcher\<close>

abbreviation (input) kLauncherStartVersion :: u16 where "kLauncherStartVersion \<equiv> 3"
abbreviation (input) kLauncherStartHeaderLength :: nat where "kLauncherStartHeaderLength \<equiv> 116"

definition kLauncherStartMaximumLength :: nat where
  "kLauncherStartMaximumLength = 3 * 1048576"

definition kMaximumCommandCodeUnits :: nat where
  "kMaximumCommandCodeUnits = 32767"

definition kMaximumEnvironmentCodeUnits :: nat where
  "kMaximumEnvironmentCodeUnits = 524288"

definition kMaximumPolicyBytes :: nat where
  "kMaximumPolicyBytes = 1048620"

abbreviation (input) kHasTimeout :: u32 where "kHasTimeout \<equiv> 1"
abbreviation (input) kRecoveryEnabled :: u32 where "kRecoveryEnabled \<equiv> 2"
abbreviation (input) kPseudoConsoleEnabled :: u32 where "kPseudoConsoleEnabled \<equiv> 4"

record LauncherStartRequest =
  ls_program :: wstr
  ls_cwd :: wstr
  ls_command_line :: wstr
  ls_environment_block :: wstr
  ls_policy :: bytes
  ls_hook_path :: wstr
  ls_has_timeout :: bool
  ls_timeout_milliseconds :: u64
  ls_nonce :: bytes
  ls_endpoint_identifier :: bytes
  ls_recovery_enabled :: bool
  ls_pseudo_console_enabled :: bool
  ls_pseudo_console_columns :: u16
  ls_pseudo_console_rows :: u16

datatype LauncherStartStatus =
    Start_kSuccess
  | Start_kInvalidArgument
  | Start_kInvalidLength
  | Start_kInvalidMagic
  | Start_kUnsupportedVersion
  | Start_kInvalidHeader
  | Start_kInvalidFlags
  | Start_kInvalidField
  | Start_kDigestMismatch
  | Start_kAllocationFailed

definition ContainsNull :: "wstr \<Rightarrow> bool" where
  "ContainsNull value = (0 \<in> set value)"

definition ValidRequest :: "LauncherStartRequest \<Rightarrow> bool" where
  "ValidRequest request =
     (ls_program request \<noteq> [] \<and> length (ls_program request) \<le> kMaximumPathCodeUnits \<and>
      \<not> ContainsNull (ls_program request) \<and> ls_cwd request \<noteq> [] \<and>
      length (ls_cwd request) \<le> kMaximumPathCodeUnits \<and> \<not> ContainsNull (ls_cwd request) \<and>
      ls_hook_path request \<noteq> [] \<and> length (ls_hook_path request) \<le> kMaximumPathCodeUnits \<and>
      \<not> ContainsNull (ls_hook_path request) \<and>
      ls_command_line request \<noteq> [] \<and> length (ls_command_line request) \<le> kMaximumCommandCodeUnits \<and>
      last (ls_command_line request) = 0 \<and> 0 \<notin> set (butlast (ls_command_line request)) \<and>
      2 \<le> length (ls_environment_block request) \<and>
      length (ls_environment_block request) \<le> kMaximumEnvironmentCodeUnits \<and>
      ls_environment_block request ! (length (ls_environment_block request) - 1) = 0 \<and>
      ls_environment_block request ! (length (ls_environment_block request) - 2) = 0 \<and>
      ls_policy request \<noteq> [] \<and> length (ls_policy request) \<le> kMaximumPolicyBytes \<and>
      (\<not> ls_has_timeout request \<or> ls_timeout_milliseconds request \<noteq> 0) \<and>
      (ls_has_timeout request \<or> ls_timeout_milliseconds request = 0) \<and>
      list_ex (\<lambda>byte. byte \<noteq> 0) (ls_nonce request) \<and>
      list_ex (\<lambda>byte. byte \<noteq> 0) (ls_endpoint_identifier request) \<and>
      ls_pseudo_console_enabled request =
        (ls_pseudo_console_columns request \<noteq> 0 \<and> ls_pseudo_console_rows request \<noteq> 0))"

definition CheckedAdd :: "u64 \<Rightarrow> nat \<Rightarrow> u64 \<Rightarrow> u64 option" where
  "CheckedAdd total_length count width =
     (if - 1 div width < of_nat count \<or> - 1 - total_length < of_nat count * width then None
      else Some (total_length + of_nat count * width))"

definition kLauncherStartMagic :: bytes where
  "kLauncherStartMagic = ascii ''BLS1''"

definition StartFlags :: "LauncherStartRequest \<Rightarrow> u32" where
  "StartFlags request =
     (if ls_has_timeout request then kHasTimeout else 0) OR
     (if ls_recovery_enabled request then kRecoveryEnabled else 0) OR
     (if ls_pseudo_console_enabled request then kPseudoConsoleEnabled else 0)"

definition StartLengths :: "LauncherStartRequest \<Rightarrow> nat list" where
  "StartLengths request =
     [length (ls_program request), length (ls_cwd request), length (ls_command_line request),
      length (ls_environment_block request), length (ls_policy request), length (ls_hook_path request)]"

definition StartTotal :: "LauncherStartRequest \<Rightarrow> u64 option" where
  "StartTotal request = do {
     total_length \<leftarrow> CheckedAdd (of_nat kLauncherStartHeaderLength) (length (ls_program request)) 2;
     total_length \<leftarrow> CheckedAdd total_length (length (ls_cwd request)) 2;
     total_length \<leftarrow> CheckedAdd total_length (length (ls_command_line request)) 2;
     total_length \<leftarrow> CheckedAdd total_length (length (ls_environment_block request)) 2;
     total_length \<leftarrow> CheckedAdd total_length (length (ls_policy request)) 1;
     total_length \<leftarrow> CheckedAdd total_length (length (ls_hook_path request)) 2;
     if of_nat kLauncherStartMaximumLength < total_length \<or> 4294967295 < total_length then None else Some total_length }"

definition EncodeLauncherStartRequest :: "sha256_fn \<Rightarrow> LauncherStartRequest \<Rightarrow> LauncherStartStatus \<times> bytes" where
  "EncodeLauncherStartRequest sha256 request =
     (if \<not> ValidRequest request then (Start_kInvalidField, [])
      else case StartTotal request of None \<Rightarrow> (Start_kInvalidLength, []) | Some total_length \<Rightarrow>
        let encoded = zeros kLauncherStartHeaderLength;
            encoded = put_bytes encoded 0 kLauncherStartMagic;
            encoded = WriteU16 encoded 4 kLauncherStartVersion;
            encoded = WriteU16 encoded 6 (of_nat kLauncherStartHeaderLength);
            encoded = WriteU32 encoded 8 (ucast total_length);
            encoded = fold (\<lambda>index encoded. WriteU32 encoded (12 + index * 4) (of_nat (StartLengths request ! index)))
                        [0..<6] encoded;
            encoded = WriteU64 encoded 36 (if ls_has_timeout request then ls_timeout_milliseconds request else 0);
            encoded = put_bytes encoded 44 (ls_nonce request);
            encoded = WriteU32 encoded 60 (StartFlags request);
            encoded = put_bytes encoded 64 (ls_endpoint_identifier request);
            encoded = WriteU16 encoded 80 (ls_pseudo_console_columns request);
            encoded = WriteU16 encoded 82 (ls_pseudo_console_rows request);
            encoded = AppendUtf16 encoded (ls_program request);
            encoded = AppendUtf16 encoded (ls_cwd request);
            encoded = AppendUtf16 encoded (ls_command_line request);
            encoded = AppendUtf16 encoded (ls_environment_block request);
            encoded = encoded @ ls_policy request;
            encoded = AppendUtf16 encoded (ls_hook_path request)
        in (case HashRequest sha256 kLauncherStartHeaderLength 84 encoded of
              None \<Rightarrow> (Start_kAllocationFailed, [])
            | Some digest \<Rightarrow> (Start_kSuccess, put_bytes encoded 84 digest)))"

text \<open>The variable part, from the end of the header on.\<close>

definition ReadStartBody :: "bytes \<Rightarrow> (wstr \<times> wstr \<times> wstr \<times> wstr \<times> bytes \<times> wstr) option" where
  "ReadStartBody encoded = do {
     (program, offset) \<leftarrow> ReadUtf16 encoded kLauncherStartHeaderLength (unat (ReadU32 encoded 12));
     (cwd, offset) \<leftarrow> ReadUtf16 encoded offset (unat (ReadU32 encoded 16));
     (command_line, offset) \<leftarrow> ReadUtf16 encoded offset (unat (ReadU32 encoded 20));
     (environment_block, offset) \<leftarrow> ReadUtf16 encoded offset (unat (ReadU32 encoded 24));
     let policy_length = unat (ReadU32 encoded 28);
     if length encoded - offset < policy_length then None
     else do {
       let policy = sub_bytes offset policy_length encoded;
       (hook, offset) \<leftarrow> ReadUtf16 encoded (offset + policy_length) (unat (ReadU32 encoded 32));
       if offset \<noteq> length encoded then None
       else Some (program, cwd, command_line, environment_block, policy, hook) } }"

definition DecodeLauncherStartRequest ::
  "sha256_fn \<Rightarrow> byte_ptr \<Rightarrow> LauncherStartStatus \<times> LauncherStartRequest option"
where
  "DecodeLauncherStartRequest sha256 encoded = (case encoded of None \<Rightarrow> (Start_kInvalidArgument, None) | Some encoded \<Rightarrow>
     if length encoded < kLauncherStartHeaderLength \<or> kLauncherStartMaximumLength < length encoded \<or>
        unat (ReadU32 encoded 8) \<noteq> length encoded
     then (Start_kInvalidLength, None)
     else if \<not> HasMagic kLauncherStartMagic encoded then (Start_kInvalidMagic, None)
     else if ReadU16 encoded 4 \<noteq> kLauncherStartVersion then (Start_kUnsupportedVersion, None)
     else if ReadU16 encoded 6 \<noteq> of_nat kLauncherStartHeaderLength then (Start_kInvalidHeader, None)
     else let flags = ReadU32 encoded 60;
              timeout = ReadU64 encoded 36;
              pseudo_console_columns = ReadU16 encoded 80;
              pseudo_console_rows = ReadU16 encoded 82;
              pseudo_console_enabled = (flags AND kPseudoConsoleEnabled \<noteq> 0)
       in if flags AND NOT (kHasTimeout OR kRecoveryEnabled OR kPseudoConsoleEnabled) \<noteq> 0 \<or>
             (flags AND kHasTimeout = 0) \<noteq> (timeout = 0) \<or>
             pseudo_console_enabled \<noteq> (pseudo_console_columns \<noteq> 0 \<and> pseudo_console_rows \<noteq> 0)
       then (Start_kInvalidFlags, None)
       else case HashRequest sha256 kLauncherStartHeaderLength 84 encoded of
           None \<Rightarrow> (Start_kDigestMismatch, None)
         | Some digest \<Rightarrow>
             if digest \<noteq> sub_bytes 84 32 encoded then (Start_kDigestMismatch, None)
             else case ReadStartBody encoded of
                 None \<Rightarrow> (Start_kInvalidLength, None)
               | Some (program, cwd, command_line, environment_block, policy, hook) \<Rightarrow>
                   let decoded = \<lparr>
                         ls_program = program, ls_cwd = cwd, ls_command_line = command_line,
                         ls_environment_block = environment_block, ls_policy = policy, ls_hook_path = hook,
                         ls_has_timeout = (flags AND kHasTimeout \<noteq> 0), ls_timeout_milliseconds = timeout,
                         ls_nonce = sub_bytes 44 16 encoded, ls_endpoint_identifier = sub_bytes 64 16 encoded,
                         ls_recovery_enabled = (flags AND kRecoveryEnabled \<noteq> 0),
                         ls_pseudo_console_enabled = pseudo_console_enabled,
                         ls_pseudo_console_columns = pseudo_console_columns,
                         ls_pseudo_console_rows = pseudo_console_rows \<rparr>
                   in if \<not> ValidRequest decoded then (Start_kInvalidField, None)
                      else (Start_kSuccess, Some decoded))"

subsection \<open>Requests about workspaces\<close>

abbreviation (input) kProjectedWorkspaceHeaderLength :: nat where "kProjectedWorkspaceHeaderLength \<equiv> 80"
abbreviation (input) kWorkspaceSecurityHeaderLength :: nat where "kWorkspaceSecurityHeaderLength \<equiv> 64"

definition kProjectedWorkspaceMaximumRequestLength :: nat where
  "kProjectedWorkspaceMaximumRequestLength = 256 * 1024"

definition kWorkspaceSecurityMaximumRequestLength :: nat where
  "kWorkspaceSecurityMaximumRequestLength = 256 * 1024"

definition kProjectedRequestMagic :: bytes where
  "kProjectedRequestMagic = ascii ''BPJ1''"

definition kSecurityRequestMagic :: bytes where
  "kSecurityRequestMagic = ascii ''BWS1''"

record ProjectedWorkspaceRequest =
  pw_source_root :: wstr
  pw_projection_root :: wstr
  pw_maximum_items :: u32
  pw_maximum_bytes :: u64

type_synonym WorkspaceSecurityOperation = u16

abbreviation (input) Security_kCopy :: WorkspaceSecurityOperation where "Security_kCopy \<equiv> 1"
abbreviation (input) Security_kVerify :: WorkspaceSecurityOperation where "Security_kVerify \<equiv> 2"
abbreviation (input) Security_kCopyRoot :: WorkspaceSecurityOperation where "Security_kCopyRoot \<equiv> 3"

record WorkspaceSecurityRequest =
  ws_operation :: WorkspaceSecurityOperation
  ws_maximum_items :: u32
  ws_source_root :: wstr
  ws_destination_root :: wstr

definition ValidProjectedRequest :: "ProjectedWorkspaceRequest \<Rightarrow> bool" where
  "ValidProjectedRequest request =
     (pw_source_root request \<noteq> [] \<and> length (pw_source_root request) \<le> kMaximumPathCodeUnits \<and>
      0 \<notin> set (pw_source_root request) \<and>
      pw_projection_root request \<noteq> [] \<and> length (pw_projection_root request) \<le> kMaximumPathCodeUnits \<and>
      0 \<notin> set (pw_projection_root request) \<and>
      pw_maximum_items request \<noteq> 0 \<and> pw_maximum_bytes request \<noteq> 0)"

definition EncodeProjectedWorkspaceRequest ::
  "sha256_fn \<Rightarrow> ProjectedWorkspaceRequest \<Rightarrow> WorkspaceProtocolStatus \<times> bytes"
where
  "EncodeProjectedWorkspaceRequest sha256 request =
     (if \<not> ValidProjectedRequest request then (Workspace_kInvalidField, [])
      else let body_length = (length (pw_source_root request) + length (pw_projection_root request)) * 2;
               total_length = kProjectedWorkspaceHeaderLength + body_length
        in if kProjectedWorkspaceMaximumRequestLength < total_length \<or> 4294967295 < int total_length
        then (Workspace_kInvalidLength, [])
        else let encoded = zeros kProjectedWorkspaceHeaderLength;
                 encoded = put_bytes encoded 0 kProjectedRequestMagic;
                 encoded = WriteU16 encoded 4 kProtocolVersion;
                 encoded = WriteU16 encoded 6 (of_nat kProjectedWorkspaceHeaderLength);
                 encoded = WriteU32 encoded 8 (of_nat total_length);
                 encoded = WriteU32 encoded 12 (of_nat (length (pw_source_root request)));
                 encoded = WriteU32 encoded 16 (of_nat (length (pw_projection_root request)));
                 encoded = WriteU32 encoded 20 (pw_maximum_items request);
                 encoded = WriteU64 encoded 24 (pw_maximum_bytes request);
                 encoded = AppendUtf16 encoded (pw_source_root request);
                 encoded = AppendUtf16 encoded (pw_projection_root request)
             in (case HashRequest sha256 kProjectedWorkspaceHeaderLength 48 encoded of
                   None \<Rightarrow> (Workspace_kAllocationFailed, [])
                 | Some digest \<Rightarrow> (Workspace_kSuccess, put_bytes encoded 48 digest)))"

text \<open>The two strings that make up the body of both requests.\<close>

definition ReadTwoPaths :: "bytes \<Rightarrow> nat \<Rightarrow> nat \<Rightarrow> nat \<Rightarrow> (wstr \<times> wstr) option" where
  "ReadTwoPaths encoded offset source_length other_length = do {
     (source, offset) \<leftarrow> ReadUtf16 encoded offset source_length;
     (other, offset) \<leftarrow> ReadUtf16 encoded offset other_length;
     if offset \<noteq> length encoded then None else Some (source, other) }"

definition DecodeProjectedWorkspaceRequest ::
  "sha256_fn \<Rightarrow> byte_ptr \<Rightarrow> WorkspaceProtocolStatus \<times> ProjectedWorkspaceRequest option"
where
  "DecodeProjectedWorkspaceRequest sha256 encoded = (case encoded of None \<Rightarrow> (Workspace_kInvalidArgument, None) | Some encoded \<Rightarrow>
     if length encoded < kProjectedWorkspaceHeaderLength \<or> kProjectedWorkspaceMaximumRequestLength < length encoded \<or>
        unat (ReadU32 encoded 8) \<noteq> length encoded
     then (Workspace_kInvalidLength, None)
     else if \<not> HasMagic kProjectedRequestMagic encoded then (Workspace_kInvalidMagic, None)
     else if ReadU16 encoded 4 \<noteq> kProtocolVersion then (Workspace_kUnsupportedVersion, None)
     else if ReadU16 encoded 6 \<noteq> of_nat kProjectedWorkspaceHeaderLength \<or>
             list_ex (\<lambda>value. value \<noteq> 0) (sub_bytes 32 16 encoded)
     then (Workspace_kInvalidHeader, None)
     else case HashRequest sha256 kProjectedWorkspaceHeaderLength 48 encoded of
         None \<Rightarrow> (Workspace_kDigestMismatch, None)
       | Some digest \<Rightarrow>
           if digest \<noteq> sub_bytes 48 32 encoded then (Workspace_kDigestMismatch, None)
           else case ReadTwoPaths encoded kProjectedWorkspaceHeaderLength (unat (ReadU32 encoded 12))
                       (unat (ReadU32 encoded 16)) of
               None \<Rightarrow> (Workspace_kInvalidLength, None)
             | Some (source_root, projection_root) \<Rightarrow>
                 let decoded = \<lparr> pw_source_root = source_root, pw_projection_root = projection_root,
                       pw_maximum_items = ReadU32 encoded 20, pw_maximum_bytes = ReadU64 encoded 24 \<rparr>
                 in if \<not> ValidProjectedRequest decoded then (Workspace_kInvalidField, None)
                    else (Workspace_kSuccess, Some decoded))"

definition IsKnownSecurityOperation :: "WorkspaceSecurityOperation \<Rightarrow> bool" where
  "IsKnownSecurityOperation operation =
     (operation = Security_kCopy \<or> operation = Security_kVerify \<or> operation = Security_kCopyRoot)"

definition IsValidSecurityRequest :: "WorkspaceSecurityRequest \<Rightarrow> bool" where
  "IsValidSecurityRequest request =
     (IsKnownSecurityOperation (ws_operation request) \<and> ws_maximum_items request \<noteq> 0 \<and>
      ws_source_root request \<noteq> [] \<and> length (ws_source_root request) \<le> kMaximumPathCodeUnits \<and>
      0 \<notin> set (ws_source_root request) \<and>
      ws_destination_root request \<noteq> [] \<and> length (ws_destination_root request) \<le> kMaximumPathCodeUnits \<and>
      0 \<notin> set (ws_destination_root request))"

definition EncodeWorkspaceSecurityRequest ::
  "sha256_fn \<Rightarrow> WorkspaceSecurityRequest \<Rightarrow> WorkspaceProtocolStatus \<times> bytes"
where
  "EncodeWorkspaceSecurityRequest sha256 request =
     (if \<not> IsValidSecurityRequest request then (Workspace_kInvalidField, [])
      else let body_length = (length (ws_source_root request) + length (ws_destination_root request)) * 2;
               total_length = kWorkspaceSecurityHeaderLength + body_length
        in if kWorkspaceSecurityMaximumRequestLength < total_length \<or> 4294967295 < int total_length
        then (Workspace_kInvalidLength, [])
        else let encoded = zeros kWorkspaceSecurityHeaderLength;
                 encoded = put_bytes encoded 0 kSecurityRequestMagic;
                 encoded = WriteU16 encoded 4 kProtocolVersion;
                 encoded = WriteU16 encoded 6 (of_nat kWorkspaceSecurityHeaderLength);
                 encoded = WriteU32 encoded 8 (of_nat total_length);
                 encoded = WriteU16 encoded 12 (ws_operation request);
                 encoded = WriteU32 encoded 16 (ws_maximum_items request);
                 encoded = WriteU32 encoded 20 (of_nat (length (ws_source_root request)));
                 encoded = WriteU32 encoded 24 (of_nat (length (ws_destination_root request)));
                 encoded = AppendUtf16 encoded (ws_source_root request);
                 encoded = AppendUtf16 encoded (ws_destination_root request)
             in (case HashRequest sha256 kWorkspaceSecurityHeaderLength 32 encoded of
                   None \<Rightarrow> (Workspace_kAllocationFailed, [])
                 | Some digest \<Rightarrow> (Workspace_kSuccess, put_bytes encoded 32 digest)))"

definition DecodeWorkspaceSecurityRequest ::
  "sha256_fn \<Rightarrow> byte_ptr \<Rightarrow> WorkspaceProtocolStatus \<times> WorkspaceSecurityRequest option"
where
  "DecodeWorkspaceSecurityRequest sha256 encoded = (case encoded of None \<Rightarrow> (Workspace_kInvalidArgument, None) | Some encoded \<Rightarrow>
     if length encoded < kWorkspaceSecurityHeaderLength \<or> kWorkspaceSecurityMaximumRequestLength < length encoded \<or>
        unat (ReadU32 encoded 8) \<noteq> length encoded
     then (Workspace_kInvalidLength, None)
     else if \<not> HasMagic kSecurityRequestMagic encoded then (Workspace_kInvalidMagic, None)
     else if ReadU16 encoded 4 \<noteq> kProtocolVersion then (Workspace_kUnsupportedVersion, None)
     else if ReadU16 encoded 6 \<noteq> of_nat kWorkspaceSecurityHeaderLength \<or> ReadU16 encoded 14 \<noteq> 0 \<or> ReadU32 encoded 28 \<noteq> 0
     then (Workspace_kInvalidHeader, None)
     else case HashRequest sha256 kWorkspaceSecurityHeaderLength 32 encoded of
         None \<Rightarrow> (Workspace_kDigestMismatch, None)
       | Some digest \<Rightarrow>
           if digest \<noteq> sub_bytes 32 32 encoded then (Workspace_kDigestMismatch, None)
           else case ReadTwoPaths encoded kWorkspaceSecurityHeaderLength (unat (ReadU32 encoded 20))
                       (unat (ReadU32 encoded 24)) of
               None \<Rightarrow> (Workspace_kInvalidLength, None)
             | Some (source_root, destination_root) \<Rightarrow>
                 let decoded = \<lparr> ws_operation = ReadU16 encoded 12, ws_maximum_items = ReadU32 encoded 16,
                       ws_source_root = source_root, ws_destination_root = destination_root \<rparr>
                 in if \<not> IsValidSecurityRequest decoded then (Workspace_kInvalidField, None)
                    else (Workspace_kSuccess, Some decoded))"

text \<open>A request with a valid digest between its header and its body.\<close>

definition digest_frame :: "sha256_fn \<Rightarrow> bytes \<Rightarrow> bytes \<Rightarrow> bytes option" where
  "digest_frame sha head body = (case sha (head @ body) of
     None \<Rightarrow> None | Some d \<Rightarrow> if length d = 32 then Some (head @ d @ body) else None)"

definition start_size :: "LauncherStartRequest \<Rightarrow> nat" where
  "start_size r = 116 + 2 * (length (ls_program r) + length (ls_cwd r) + length (ls_command_line r) +
     length (ls_environment_block r) + length (ls_hook_path r)) + length (ls_policy r)"

definition start_head :: "LauncherStartRequest \<Rightarrow> bytes" where
  "start_head r =
     concat [kLauncherStartMagic, le_bytes 2 kLauncherStartVersion, le_bytes 2 (116 :: u16),
       le_bytes 4 (of_nat (start_size r) :: u32),
       le_bytes 4 (of_nat (length (ls_program r)) :: u32), le_bytes 4 (of_nat (length (ls_cwd r)) :: u32),
       le_bytes 4 (of_nat (length (ls_command_line r)) :: u32), le_bytes 4 (of_nat (length (ls_environment_block r)) :: u32),
       le_bytes 4 (of_nat (length (ls_policy r)) :: u32), le_bytes 4 (of_nat (length (ls_hook_path r)) :: u32),
       le_bytes 8 (ls_timeout_milliseconds r), ls_nonce r, le_bytes 4 (StartFlags r), ls_endpoint_identifier r,
       le_bytes 2 (ls_pseudo_console_columns r), le_bytes 2 (ls_pseudo_console_rows r)]"

definition start_body :: "LauncherStartRequest \<Rightarrow> bytes" where
  "start_body r = utf16_bytes (ls_program r) @ utf16_bytes (ls_cwd r) @ utf16_bytes (ls_command_line r) @
     utf16_bytes (ls_environment_block r) @ ls_policy r @ utf16_bytes (ls_hook_path r)"

definition start_arrays :: "LauncherStartRequest \<Rightarrow> bool" where
  "start_arrays r \<longleftrightarrow> length (ls_nonce r) = 16 \<and> length (ls_endpoint_identifier r) = 16"

text \<open>The requests that have an encoding.\<close>

definition start_ok :: "sha256_fn \<Rightarrow> LauncherStartRequest \<Rightarrow> bool" where
  "start_ok sha r \<longleftrightarrow> ValidRequest r \<and> start_arrays r \<and> start_size r \<le> kLauncherStartMaximumLength \<and>
     digest_frame sha (start_head r) (start_body r) \<noteq> None"

definition start_record :: "bytes \<Rightarrow> wstr \<times> wstr \<times> wstr \<times> wstr \<times> bytes \<times> wstr \<Rightarrow> LauncherStartRequest" where
  "start_record p b = (case b of (program, cwd, command_line, environment_block, policy, hook) \<Rightarrow>
     \<lparr> ls_program = program, ls_cwd = cwd, ls_command_line = command_line, ls_environment_block = environment_block,
       ls_policy = policy, ls_hook_path = hook, ls_has_timeout = (ReadU32 p 60 AND 1 \<noteq> 0),
       ls_timeout_milliseconds = ReadU64 p 36, ls_nonce = sub_bytes 44 16 p, ls_endpoint_identifier = sub_bytes 64 16 p,
       ls_recovery_enabled = (ReadU32 p 60 AND 2 \<noteq> 0), ls_pseudo_console_enabled = (ReadU32 p 60 AND 4 \<noteq> 0),
       ls_pseudo_console_columns = ReadU16 p 80, ls_pseudo_console_rows = ReadU16 p 82 \<rparr>)"

definition projected_head :: "ProjectedWorkspaceRequest \<Rightarrow> bytes" where
  "projected_head r =
     concat [kProjectedRequestMagic, le_bytes 2 kProtocolVersion, le_bytes 2 (80 :: u16),
       le_bytes 4 (of_nat (80 + (length (pw_source_root r) + length (pw_projection_root r)) * 2) :: u32),
       le_bytes 4 (of_nat (length (pw_source_root r)) :: u32), le_bytes 4 (of_nat (length (pw_projection_root r)) :: u32),
       le_bytes 4 (pw_maximum_items r), le_bytes 8 (pw_maximum_bytes r), zeros 16]"

definition projected_body :: "ProjectedWorkspaceRequest \<Rightarrow> bytes" where
  "projected_body r = utf16_bytes (pw_source_root r) @ utf16_bytes (pw_projection_root r)"

definition projected_ok :: "sha256_fn \<Rightarrow> ProjectedWorkspaceRequest \<Rightarrow> bool" where
  "projected_ok sha r \<longleftrightarrow> ValidProjectedRequest r \<and> digest_frame sha (projected_head r) (projected_body r) \<noteq> None"

definition security_head :: "WorkspaceSecurityRequest \<Rightarrow> bytes" where
  "security_head r =
     concat [kSecurityRequestMagic, le_bytes 2 kProtocolVersion, le_bytes 2 (64 :: u16),
       le_bytes 4 (of_nat (64 + (length (ws_source_root r) + length (ws_destination_root r)) * 2) :: u32),
       le_bytes 2 (ws_operation r), le_bytes 2 (0 :: u16), le_bytes 4 (ws_maximum_items r),
       le_bytes 4 (of_nat (length (ws_source_root r)) :: u32), le_bytes 4 (of_nat (length (ws_destination_root r)) :: u32),
       le_bytes 4 (0 :: u32)]"

definition security_body :: "WorkspaceSecurityRequest \<Rightarrow> bytes" where
  "security_body r = utf16_bytes (ws_source_root r) @ utf16_bytes (ws_destination_root r)"

definition security_ok :: "sha256_fn \<Rightarrow> WorkspaceSecurityRequest \<Rightarrow> bool" where
  "security_ok sha r \<longleftrightarrow> IsValidSecurityRequest r \<and> digest_frame sha (security_head r) (security_body r) \<noteq> None"

section \<open>Digests\<close>

lemma HashRequest_frame:
  assumes "length head = n" "h = n + 32"
  shows "(case HashRequest sha h n (head @ zeros 32 @ body) of
      None \<Rightarrow> (e, []) | Some d \<Rightarrow> (ok, put_bytes (head @ zeros 32 @ body) n d)) =
    (case digest_frame sha head body of None \<Rightarrow> (e, []) | Some f \<Rightarrow> (ok, f))"
  using assms by (auto simp: HashRequest_def digest_frame_def put_bytes_next split: option.split)

lemma HashRequest_iff:
  assumes "h = n + 32" "h \<le> length p"
  shows "HashRequest sha h n p = Some (sub_bytes n 32 p) \<longleftrightarrow> digest_frame sha (take n p) (drop h p) = Some p"
proof -
  have p: "take n p @ sub_bytes n 32 p @ drop h p = p"
    using assms append_take_drop_id [of n p] sub_bytes_drop [of n p 32] by simp
  have eq: "take n p @ d @ drop h p = p \<longleftrightarrow> d = sub_bytes n 32 p" if "length d = 32" for d
    using that assms by (subst (3) p [symmetric]) (auto simp: length_sub_bytes)
  show ?thesis
    using assms eq by (auto simp: HashRequest_def digest_frame_def length_sub_bytes split: option.splits if_splits)
qed

lemma digest_frame_parts:
  assumes "digest_frame sha head body = Some p" "length head = n" "h = n + 32"
  shows "take n p = head" "drop h p = body" "length p = h + length body"
  using assms by (auto simp: digest_frame_def split: option.splits if_splits)

section \<open>Strings in a request\<close>

lemma ReadUtf16_Some:
  fixes x :: u32
  assumes "off \<le> length p"
  shows "ReadUtf16 p off (unat x) = Some (w, off') \<longleftrightarrow>
    length w = unat x \<and> off' = off + unat x * 2 \<and> off' \<le> length p \<and> drop off p = utf16_bytes w @ drop off' p"
proof -
  have "unat x < 2 ^ 32" using unsigned_less [of x, where ?'a = nat] by simp
  then have big: "\<not> (2 ^ 64 - 1) div 2 < unat x" by simp
  show ?thesis
  proof (cases "off + unat x * 2 \<le> length p")
    case True
    have "map (\<lambda>i. ReadU16 p (off + i * 2)) [0..<unat x] = w \<longleftrightarrow>
        length w = unat x \<and> sub_bytes off (unat x * 2) p = utf16_bytes w"
      using f16.array_read [OF True] by (simp add: utf16_bytes_def)
    moreover have "sub_bytes off (unat x * 2) p = utf16_bytes w \<longleftrightarrow>
        drop off p = utf16_bytes w @ drop (off + unat x * 2) p"
      by (subst sub_bytes_drop [of off p "unat x * 2"]) simp
    ultimately show ?thesis using True big by (auto simp: ReadUtf16_def)
  next
    case False
    then show ?thesis using big assms by (auto simp: ReadUtf16_def)
  qed
qed

lemma ReadUtf16_next:
  fixes x :: u32
  assumes "off \<le> length p" "drop off p = utf16_bytes w @ ys" "unat x = length w"
  shows "ReadUtf16 p off (unat x) = Some (w, off + length w * 2)" "off + length w * 2 \<le> length p"
    "drop (off + length w * 2) p = ys"
  unfolding ReadUtf16_Some [OF assms(1)] using drop_next [OF assms(2,1)] assms(2,3) by simp_all

section \<open>The start request of the launcher\<close>

lemma length_start_magic [simp]: "length kLauncherStartMagic = 4"
  by (simp add: kLauncherStartMagic_def)

lemma length_start_head: "start_arrays r \<Longrightarrow> length (start_head r) = 84"
  by (simp add: start_head_def start_arrays_def)

lemma length_start_body: "116 + length (start_body r) = start_size r"
  by (simp add: start_body_def start_size_def)

lemma CheckedAdd_eq:
  assumes "t + c * w < 2 ^ 63" "w = 1 \<or> w = 2"
  shows "CheckedAdd (of_nat t) c (of_nat w) = Some (of_nat (t + c * w))"
proof -
  have c: "c < 2 ^ 63" "t < 2 ^ 63" "c * w < 2 ^ 63" using assms by auto
  have u: "unat (of_nat c :: u64) = c" "unat (of_nat t :: u64) = t" "unat (of_nat (c * w) :: u64) = c * w"
    "unat (of_nat w :: u64) = w"
    by (rule unat_of_nat_less; use c assms(2) in auto)+
  have "unat (- 1 div of_nat w :: u64) = (2 ^ 64 - 1) div w"
    using u(4) by (simp add: unat_div unsigned_minus_1_eq_mask mask_eq_exp_minus_1)
  then have 1: "\<not> - 1 div of_nat w < (of_nat c :: u64)"
    using assms c(1) u(1) by (auto simp: word_less_nat_alt)
  have "(of_nat (2 ^ 64 - 1 - t) :: u64) = of_nat (2 ^ 64 - 1) - of_nat t"
    using c(2) by (intro of_nat_diff) simp
  then have "(- 1 - of_nat t :: u64) = of_nat (2 ^ 64 - 1 - t)" by simp
  then have "unat (- 1 - of_nat t :: u64) = 2 ^ 64 - 1 - t"
    using unat_of_nat_less [where 'a = 64, of "2 ^ 64 - 1 - t"] by simp
  then have 2: "\<not> - 1 - of_nat t < (of_nat c * of_nat w :: u64)"
    using assms(1) u(3) by (simp add: word_less_nat_alt)
  show ?thesis unfolding CheckedAdd_def using 1 2 by simp
qed

lemma ValidRequest_bounds:
  assumes "ValidRequest r"
  shows "length (ls_program r) \<le> 32767" "length (ls_cwd r) \<le> 32767" "length (ls_hook_path r) \<le> 32767"
    "length (ls_command_line r) \<le> 32767" "length (ls_environment_block r) \<le> 524288" "length (ls_policy r) \<le> 1048620"
  using assms by (simp_all add: ValidRequest_def kMaximumPathCodeUnits_def kMaximumCommandCodeUnits_def
      kMaximumEnvironmentCodeUnits_def kMaximumPolicyBytes_def)

lemma StartTotal_eq:
  assumes "ValidRequest r"
  shows "StartTotal r = (if start_size r \<le> kLauncherStartMaximumLength then Some (of_nat (start_size r)) else None)"
proof -
  note b = ValidRequest_bounds [OF assms]
  have a2: "CheckedAdd (of_nat t) c 2 = Some (of_nat (t + c * 2))" if "t + c * 2 < 2 ^ 63" for t c
    using CheckedAdd_eq [of t c 2] that by simp
  have a1: "CheckedAdd (of_nat t) c 1 = Some (of_nat (t + c))" if "t + c < 2 ^ 63" for t c
    using CheckedAdd_eq [of t c 1] that by simp
  have "start_size r < 2 ^ 32" using b by (simp add: start_size_def)
  then have u: "unat (of_nat (start_size r) :: u64) = start_size r" by (intro unat_of_nat_less) simp
  have "StartTotal r =
      (if of_nat kLauncherStartMaximumLength < (of_nat (start_size r) :: u64) \<or> 4294967295 < (of_nat (start_size r) :: u64)
       then None else Some (of_nat (start_size r)))"
    unfolding StartTotal_def using b
    by (simp add: a2 a1 start_size_def algebra_simps del: of_nat_add of_nat_mult of_nat_numeral)
  then show ?thesis
    using u \<open>start_size r < 2 ^ 32\<close> by (auto simp: word_less_nat_alt kLauncherStartMaximumLength_def)
qed

lemma flags_iff:
  fixes f :: u32
  shows "f = (if a then 1 else 0) OR (if b then 2 else 0) OR (if c then 4 else 0) \<longleftrightarrow>
    f AND NOT (1 OR 2 OR 4) = 0 \<and> (f AND 1 \<noteq> 0 \<longleftrightarrow> a) \<and> (f AND 2 \<noteq> 0 \<longleftrightarrow> b) \<and> (f AND 4 \<noteq> 0 \<longleftrightarrow> c)"
proof -
  have bits: "f AND 1 \<noteq> 0 \<longleftrightarrow> bit f 0" "f AND 2 \<noteq> 0 \<longleftrightarrow> bit f 1" "f AND 4 \<noteq> 0 \<longleftrightarrow> bit f 2"
    using and_exp_eq_0_iff_not_bit [of f 0] and_exp_eq_0_iff_not_bit [of f 1] and_exp_eq_0_iff_not_bit [of f 2] by simp_all
  have high: "f AND NOT (1 OR 2 OR 4) = 0 \<longleftrightarrow> (\<forall>k\<ge>3. \<not> bit f k)"
  proof
    assume z: "f AND NOT (1 OR 2 OR 4) = 0"
    show "\<forall>k\<ge>3. \<not> bit f k"
    proof (intro allI impI notI)
      fix k :: nat assume k: "3 \<le> k" "bit f k"
      then have "bit (f AND NOT 7) k"
        using bit_imp_le_length [OF k(2)] bit_mask_iff [of 3 k, where ?'a = "32 word"]
        by (simp add: bit_simps mask_eq_exp_minus_1)
      then show False using z by simp
    qed
  next
    assume h: "\<forall>k\<ge>3. \<not> bit f k"
    show "f AND NOT (1 OR 2 OR 4) = 0"
    proof (rule bit_word_eqI)
      fix k assume k: "k < LENGTH(32)"
      have "bit (7 :: u32) k \<longleftrightarrow> k < 3" using bit_mask_iff [of 3 k, where ?'a = "32 word"] k by (simp add: mask_eq_exp_minus_1)
      then show "bit (f AND NOT (1 OR 2 OR 4)) k = bit (0 :: u32) k"
        using h k by (auto simp: bit_simps not_less)
    qed
  qed
  let ?w = "(if a then 1 else 0) OR (if b then 2 else 0) OR (if c then 4 else 0) :: u32"
  have w: "bit ?w k \<longleftrightarrow> (a \<and> k = 0) \<or> (b \<and> k = 1) \<or> (c \<and> k = 2)" if "k < 32" for k
    using that bit_exp_iff [of 1 k, where ?'a = "32 word"] bit_exp_iff [of 2 k, where ?'a = "32 word"]
    by (auto simp: bit_simps bit_1_iff)
  show ?thesis
    unfolding bits high
  proof
    assume f: "f = ?w"
    have "bit f k \<longleftrightarrow> (a \<and> k = 0) \<or> (b \<and> k = 1) \<or> (c \<and> k = 2)" for k
    proof (cases "k < 32")
      case True
      then show ?thesis unfolding f by (rule w)
    next
      case False
      then show ?thesis using bit_imp_le_length [of f k] by auto
    qed
    then show "(\<forall>k\<ge>3. \<not> bit f k) \<and> (bit f 0 \<longleftrightarrow> a) \<and> (bit f 1 \<longleftrightarrow> b) \<and> (bit f 2 \<longleftrightarrow> c)" by simp
  next
    assume r: "(\<forall>k\<ge>3. \<not> bit f k) \<and> (bit f 0 \<longleftrightarrow> a) \<and> (bit f 1 \<longleftrightarrow> b) \<and> (bit f 2 \<longleftrightarrow> c)"
    show "f = ?w"
    proof (rule bit_word_eqI)
      fix k assume "k < LENGTH(32)"
      then have "bit ?w k \<longleftrightarrow> (a \<and> k = 0) \<or> (b \<and> k = 1) \<or> (c \<and> k = 2)" using w by simp
      moreover have "k = 0 \<or> k = 1 \<or> k = 2 \<or> 3 \<le> k" by arith
      ultimately show "bit f k = bit ?w k" using r by auto
    qed
  qed
qed

lemma EncodeLauncherStartRequest_eq:
  assumes "start_arrays r"
  shows "EncodeLauncherStartRequest sha r =
    (if \<not> ValidRequest r then (Start_kInvalidField, [])
     else if kLauncherStartMaximumLength < start_size r then (Start_kInvalidLength, [])
     else case digest_frame sha (start_head r) (start_body r) of
         None \<Rightarrow> (Start_kAllocationFailed, []) | Some f \<Rightarrow> (Start_kSuccess, f))"
proof (cases "ValidRequest r \<and> start_size r \<le> kLauncherStartMaximumLength")
  case True
  have sz: "start_size r < 2 ^ 32" using True by (simp add: kLauncherStartMaximumLength_def)
  have uc: "(ucast (of_nat (start_size r) :: u64) :: u32) = of_nat (start_size r)"
  proof -
    have cast: "(ucast w :: u32) = of_nat (unat w)" for w :: u64 by transfer simp
    have "unat (of_nat (start_size r) :: u64) = start_size r" by (rule unat_of_nat_less) (use sz in simp)
    then show ?thesis unfolding cast by simp
  qed
  have t: "(if ls_has_timeout r then ls_timeout_milliseconds r else 0) = ls_timeout_milliseconds r"
    using True by (auto simp: ValidRequest_def)
  have fold6: "fold g [0..<6] e = g 5 (g 4 (g 3 (g 2 (g 1 (g 0 e)))))" for g :: "nat \<Rightarrow> bytes \<Rightarrow> bytes" and e
    by (simp add: eval_nat_numeral)
  let ?h = "WriteU16 (WriteU16 (put_bytes (WriteU32 (put_bytes (WriteU64
      (WriteU32 (WriteU32 (WriteU32 (WriteU32 (WriteU32 (WriteU32
        (WriteU32 (WriteU16 (WriteU16 (put_bytes (zeros 116) 0 kLauncherStartMagic) 4 3) 6 116) 8 (of_nat (start_size r)))
        12 (of_nat (length (ls_program r)))) 16 (of_nat (length (ls_cwd r)))) 20 (of_nat (length (ls_command_line r))))
        24 (of_nat (length (ls_environment_block r)))) 28 (of_nat (length (ls_policy r)))) 32 (of_nat (length (ls_hook_path r))))
      36 (ls_timeout_milliseconds r)) 44 (ls_nonce r)) 60 (StartFlags r)) 64 (ls_endpoint_identifier r))
      80 (ls_pseudo_console_columns r)) 82 (ls_pseudo_console_rows r)"
  have head: "?h = start_head r @ zeros 32"
    using assms by (simp add: start_arrays_def start_head_def fills del: append_assoc)
  have body: "AppendUtf16 (AppendUtf16 (AppendUtf16 (AppendUtf16 (AppendUtf16 (start_head r @ zeros 32) (ls_program r))
      (ls_cwd r)) (ls_command_line r)) (ls_environment_block r) @ ls_policy r) (ls_hook_path r) =
      start_head r @ zeros 32 @ start_body r"
    by (simp add: AppendUtf16_def start_body_def)
  show ?thesis
    using True HashRequest_frame [OF length_start_head [OF assms], where h = 116 and sha = sha and body = "start_body r" and
        e = Start_kAllocationFailed and ok = Start_kSuccess]
    by (simp add: EncodeLauncherStartRequest_def StartTotal_eq Let_def t fold6 StartLengths_def uc head body
        cong: option.case_cong)
next
  case False
  then show ?thesis by (auto simp: EncodeLauncherStartRequest_def StartTotal_eq)
qed

lemma start_head_iff:
  assumes "84 \<le> length p" "start_arrays r"
  shows "take 84 p = start_head r \<longleftrightarrow> HasMagic kLauncherStartMagic p \<and> ReadU16 p 4 = 3 \<and> ReadU16 p 6 = 116 \<and>
    ReadU32 p 8 = of_nat (start_size r) \<and>
    ReadU32 p 12 = of_nat (length (ls_program r)) \<and> ReadU32 p 16 = of_nat (length (ls_cwd r)) \<and>
    ReadU32 p 20 = of_nat (length (ls_command_line r)) \<and> ReadU32 p 24 = of_nat (length (ls_environment_block r)) \<and>
    ReadU32 p 28 = of_nat (length (ls_policy r)) \<and> ReadU32 p 32 = of_nat (length (ls_hook_path r)) \<and>
    ReadU64 p 36 = ls_timeout_milliseconds r \<and> sub_bytes 44 16 p = ls_nonce r \<and> ReadU32 p 60 = StartFlags r \<and>
    sub_bytes 64 16 p = ls_endpoint_identifier r \<and> ReadU16 p 80 = ls_pseudo_console_columns r \<and>
    ReadU16 p 82 = ls_pseudo_console_rows r"
  unfolding start_head_def using assms
  by (subst layout_iff [where ns = "[4, 2, 2, 4, 4, 4, 4, 4, 4, 4, 8, 16, 4, 16, 2, 2]"])
    (simp_all add: piece_reads sub_bytes_take start_arrays_def del: concat.simps of_nat_add of_nat_mult)

lemma ReadStartBody_iff:
  assumes "116 \<le> length p"
  shows "ReadStartBody p = Some (program, cwd, cmd, env, policy, hook) \<longleftrightarrow>
    unat (ReadU32 p 12) = length program \<and> unat (ReadU32 p 16) = length cwd \<and> unat (ReadU32 p 20) = length cmd \<and>
    unat (ReadU32 p 24) = length env \<and> unat (ReadU32 p 28) = length policy \<and> unat (ReadU32 p 32) = length hook \<and>
    drop 116 p = utf16_bytes program @ utf16_bytes cwd @ utf16_bytes cmd @ utf16_bytes env @ policy @ utf16_bytes hook"
    (is "?l \<longleftrightarrow> ?r")
proof
  assume ?l
  then obtain o1 o2 o3 o4 o5 where
      1: "ReadUtf16 p 116 (unat (ReadU32 p 12)) = Some (program, o1)"
    and 2: "ReadUtf16 p o1 (unat (ReadU32 p 16)) = Some (cwd, o2)"
    and 3: "ReadUtf16 p o2 (unat (ReadU32 p 20)) = Some (cmd, o3)"
    and 4: "ReadUtf16 p o3 (unat (ReadU32 p 24)) = Some (env, o4)"
    and 5: "unat (ReadU32 p 28) \<le> length p - o4" "policy = sub_bytes o4 (unat (ReadU32 p 28)) p"
    and 6: "ReadUtf16 p (o4 + unat (ReadU32 p 28)) (unat (ReadU32 p 32)) = Some (hook, o5)" "o5 = length p"
    by (auto simp: ReadStartBody_def Let_def bind_eq_Some_conv not_less split: if_splits prod.splits)
  note r1 = 1 [unfolded ReadUtf16_Some [OF assms]]
  have l1: "o1 \<le> length p" using r1 by simp
  note r2 = 2 [unfolded ReadUtf16_Some [OF l1]]
  have l2: "o2 \<le> length p" using r2 by simp
  note r3 = 3 [unfolded ReadUtf16_Some [OF l2]]
  have l3: "o3 \<le> length p" using r3 by simp
  note r4 = 4 [unfolded ReadUtf16_Some [OF l3]]
  have l4: "o4 \<le> length p" using r4 by simp
  have l5: "o4 + unat (ReadU32 p 28) \<le> length p" using 5(1) l4 by simp
  note r6 = 6(1) [unfolded ReadUtf16_Some [OF l5]]
  have r5: "drop o4 p = policy @ drop (o4 + unat (ReadU32 p 28)) p" "length policy = unat (ReadU32 p 28)"
    using 5(2) sub_bytes_drop [of o4 p "unat (ReadU32 p 28)"] l5 by (simp_all add: length_sub_bytes)
  show ?r using r1 r2 r3 r4 r5 r6 6(2) by simp
next
  assume r: ?r
  have d1: "drop 116 p = utf16_bytes program @ (utf16_bytes cwd @ utf16_bytes cmd @ utf16_bytes env @ policy @ utf16_bytes hook)"
    using r by simp
  note s1 = ReadUtf16_next [OF assms d1, of "ReadU32 p 12"]
  have e1: "unat (ReadU32 p 12) = length program" using r by simp
  note t1 = s1 [OF e1]
  have e2: "unat (ReadU32 p 16) = length cwd" using r by simp
  note t2 = ReadUtf16_next [OF t1(2,3) e2]
  have e3: "unat (ReadU32 p 20) = length cmd" using r by simp
  note t3 = ReadUtf16_next [OF t2(2,3) e3]
  have e4: "unat (ReadU32 p 24) = length env" using r by simp
  note t4 = ReadUtf16_next [OF t3(2,3) e4]
  note t5 = drop_next [OF t4(3) t4(2)]
  have d6: "drop (116 + length program * 2 + length cwd * 2 + length cmd * 2 + length env * 2 + length policy) p =
      utf16_bytes hook @ []" using t5(2) by simp
  have e6: "unat (ReadU32 p 32) = length hook" using r by simp
  note t6 = ReadUtf16_next [OF t5(1) d6 e6]
  have e5: "unat (ReadU32 p 28) = length policy" using r by simp
  have sub: "sub_bytes (116 + length program * 2 + length cwd * 2 + length cmd * 2 + length env * 2) (length policy) p = policy"
    using t4(3) by (simp add: sub_bytes_def)
  have fin: "116 + length program * 2 + length cwd * 2 + length cmd * 2 + length env * 2 + length policy + length hook * 2 = length p"
    using t6(2,3) by simp
  show ?l
    unfolding ReadStartBody_def
    using t1(1) t2(1) t3(1) t4(1) t5(1) t6(1) sub fin
    by (simp add: e1 e2 e3 e4 e5 e6 Let_def)
qed

lemma DecodeLauncherStartRequest_fields:
  "snd (DecodeLauncherStartRequest sha (Some p)) = Some r \<longleftrightarrow>
   (116 \<le> length p \<and> length p \<le> kLauncherStartMaximumLength \<and> unat (ReadU32 p 8) = length p) \<and>
   HasMagic kLauncherStartMagic p \<and> ReadU16 p 4 = 3 \<and> ReadU16 p 6 = 116 \<and>
   ReadU32 p 60 AND NOT (1 OR 2 OR 4) = 0 \<and> (ReadU32 p 60 AND 1 = 0 \<longleftrightarrow> ReadU64 p 36 = 0) \<and>
   (ReadU32 p 60 AND 4 \<noteq> 0 \<longleftrightarrow> ReadU16 p 80 \<noteq> 0 \<and> ReadU16 p 82 \<noteq> 0) \<and>
   HashRequest sha 116 84 p = Some (sub_bytes 84 32 p) \<and>
   (\<exists>b. ReadStartBody p = Some b \<and> r = start_record p b) \<and> ValidRequest r"
  unfolding DecodeLauncherStartRequest_def option.case Let_def start_record_def
  by (auto split: if_splits option.splits prod.splits)

lemma DecodeLauncherStartRequest_Some:
  "snd (DecodeLauncherStartRequest sha (Some p)) = Some r \<longleftrightarrow>
   start_ok sha r \<and> p = the (digest_frame sha (start_head r) (start_body r))"
proof
  assume "snd (DecodeLauncherStartRequest sha (Some p)) = Some r"
  then obtain b where f: "116 \<le> length p" "length p \<le> kLauncherStartMaximumLength" "unat (ReadU32 p 8) = length p"
      "HasMagic kLauncherStartMagic p" "ReadU16 p 4 = 3" "ReadU16 p 6 = 116" "ReadU32 p 60 AND NOT (1 OR 2 OR 4) = 0"
      "HashRequest sha 116 84 p = Some (sub_bytes 84 32 p)" "ReadStartBody p = Some b" "r = start_record p b" "ValidRequest r"
    unfolding DecodeLauncherStartRequest_fields by blast
  obtain program cwd cmd env policy hook where b: "b = (program, cwd, cmd, env, policy, hook)" by (metis prod_cases6)
  note body = f(9) [unfolded b ReadStartBody_iff [OF f(1)]]
  have r: "ls_program r = program" "ls_cwd r = cwd" "ls_command_line r = cmd" "ls_environment_block r = env"
    "ls_policy r = policy" "ls_hook_path r = hook" "ls_timeout_milliseconds r = ReadU64 p 36" "ls_nonce r = sub_bytes 44 16 p"
    "ls_endpoint_identifier r = sub_bytes 64 16 p" "ls_pseudo_console_columns r = ReadU16 p 80"
    "ls_pseudo_console_rows r = ReadU16 p 82"
    by (simp_all add: f(10) b start_record_def)
  have arrays: "start_arrays r" using f(1) by (simp add: start_arrays_def r length_sub_bytes)
  have flags: "ReadU32 p 60 = StartFlags r"
    unfolding StartFlags_def flags_iff using f(7) by (simp add: f(10) b start_record_def)
  have bd: "drop 116 p = start_body r" using body by (simp add: start_body_def r)
  have size: "start_size r = length p" using length_start_body [of r] f(1) unfolding bd [symmetric] by simp
  have nat_eq: "x = of_nat n" if "unat x = n" for x :: u32 and n using that by auto
  have hd: "take 84 p = start_head r"
    using f(1) body by (subst start_head_iff [OF _ arrays])
      (simp_all add: f(4-6) flags r size nat_eq [OF f(3)] nat_eq del: of_nat_unat)
  have "digest_frame sha (start_head r) (start_body r) = Some p"
    using HashRequest_iff [of 116 84 p sha] f(1,8) hd bd by simp
  then show "start_ok sha r \<and> p = the (digest_frame sha (start_head r) (start_body r))"
    using f(2,11) arrays size by (simp add: start_ok_def)
next
  assume a: "start_ok sha r \<and> p = the (digest_frame sha (start_head r) (start_body r))"
  then have valid: "ValidRequest r" and arrays: "start_arrays r" and max: "start_size r \<le> kLauncherStartMaximumLength"
    and fr: "digest_frame sha (start_head r) (start_body r) = Some p"
    unfolding start_ok_def by auto
  note parts = digest_frame_parts [OF fr length_start_head [OF arrays], of 116, simplified]
  have len: "length p = start_size r" using parts(3) length_start_body [of r] by simp
  have ge: "84 \<le> length p" "116 \<le> length p" using parts(3) by simp_all
  note reads = parts(1) [unfolded start_head_iff [OF ge(1) arrays]]
  note bounds = ValidRequest_bounds [OF valid]
  have u: "unat (of_nat n :: u32) = n" if "n < 2 ^ 32" for n using that by (simp add: unat_of_nat_less)
  have small: "start_size r < 2 ^ 32" using max by (simp add: kLauncherStartMaximumLength_def)
  have lens: "unat (ReadU32 p 8) = length p" "unat (ReadU32 p 12) = length (ls_program r)"
    "unat (ReadU32 p 16) = length (ls_cwd r)" "unat (ReadU32 p 20) = length (ls_command_line r)"
    "unat (ReadU32 p 24) = length (ls_environment_block r)" "unat (ReadU32 p 28) = length (ls_policy r)"
    "unat (ReadU32 p 32) = length (ls_hook_path r)"
    using reads u small bounds len by simp_all
  have rb: "ReadStartBody p = Some (ls_program r, ls_cwd r, ls_command_line r, ls_environment_block r, ls_policy r, ls_hook_path r)"
    unfolding ReadStartBody_iff [OF ge(2)] using lens parts(2) by (simp add: start_body_def)
  have fl: "ReadU32 p 60 AND NOT (1 OR 2 OR 4) = 0 \<and> (ReadU32 p 60 AND 1 \<noteq> 0 \<longleftrightarrow> ls_has_timeout r) \<and>
      (ReadU32 p 60 AND 2 \<noteq> 0 \<longleftrightarrow> ls_recovery_enabled r) \<and> (ReadU32 p 60 AND 4 \<noteq> 0 \<longleftrightarrow> ls_pseudo_console_enabled r)"
    unfolding flags_iff [symmetric] StartFlags_def [symmetric] using reads by simp
  have rec: "r = start_record p (ls_program r, ls_cwd r, ls_command_line r, ls_environment_block r, ls_policy r, ls_hook_path r)"
    using reads fl by (cases r) (simp add: start_record_def)
  have hash: "HashRequest sha 116 84 p = Some (sub_bytes 84 32 p)"
    using HashRequest_iff [of 116 84 p sha] ge(2) fr parts(1,2) by simp
  have flagged: "(ReadU32 p 60 AND 1 = 0 \<longleftrightarrow> ReadU64 p 36 = 0) \<and>
      (ReadU32 p 60 AND 4 \<noteq> 0 \<longleftrightarrow> ReadU16 p 80 \<noteq> 0 \<and> ReadU16 p 82 \<noteq> 0)"
    using fl reads valid by (auto simp: ValidRequest_def)
  show "snd (DecodeLauncherStartRequest sha (Some p)) = Some r"
    unfolding DecodeLauncherStartRequest_fields
    using ge(2) max len lens(1) reads fl flagged hash rb rec valid by auto
qed

interpretation launcher_start: fixed_codec "\<lambda>r. snd (EncodeLauncherStartRequest sha r)"
    "\<lambda>p. snd (DecodeLauncherStartRequest sha (Some p))" "start_ok sha" "\<lambda>p. []"
  for sha
  by (rule full_codec [OF _ DecodeLauncherStartRequest_Some])
    (auto simp: start_ok_def EncodeLauncherStartRequest_eq)

section \<open>The requests about workspaces\<close>

lemma length_request_magics [simp]: "length kProjectedRequestMagic = 4" "length kSecurityRequestMagic = 4"
  by (simp_all add: kProjectedRequestMagic_def kSecurityRequestMagic_def)

lemma ReadTwoPaths_iff:
  fixes x y :: u32
  assumes "off \<le> length p"
  shows "ReadTwoPaths p off (unat x) (unat y) = Some (a, b) \<longleftrightarrow>
    unat x = length a \<and> unat y = length b \<and> drop off p = utf16_bytes a @ utf16_bytes b"
proof
  assume "ReadTwoPaths p off (unat x) (unat y) = Some (a, b)"
  then obtain o1 o2 where 1: "ReadUtf16 p off (unat x) = Some (a, o1)" and 2: "ReadUtf16 p o1 (unat y) = Some (b, o2)" "o2 = length p"
    by (auto simp: ReadTwoPaths_def bind_eq_Some_conv split: if_splits)
  note r1 = 1 [unfolded ReadUtf16_Some [OF assms]]
  have l1: "o1 \<le> length p" using r1 by simp
  note r2 = 2(1) [unfolded ReadUtf16_Some [OF l1]]
  show "unat x = length a \<and> unat y = length b \<and> drop off p = utf16_bytes a @ utf16_bytes b"
    using r1 r2 2(2) by simp
next
  assume r: "unat x = length a \<and> unat y = length b \<and> drop off p = utf16_bytes a @ utf16_bytes b"
  then have e1: "unat x = length a" and e2: "unat y = length b" and d: "drop off p = utf16_bytes a @ (utf16_bytes b @ [])"
    by simp_all
  note t1 = ReadUtf16_next [OF assms d e1]
  note t2 = ReadUtf16_next [OF t1(2,3) e2]
  have fin: "off + length a * 2 + length b * 2 = length p" using t2(2,3) by simp
  show "ReadTwoPaths p off (unat x) (unat y) = Some (a, b)"
    unfolding ReadTwoPaths_def t1(1) using t2(1) fin by simp
qed

lemma length_request_heads [simp]: "length (projected_head r) = 48" "length (security_head s) = 32"
  by (simp_all add: projected_head_def security_head_def)

lemma le_bytes_0: "le_bytes 2 (0 :: u16) = zeros 2" "le_bytes 4 (0 :: u32) = zeros 4"
  by (simp_all add: le_bytes_def zeros_def map_replicate_const)

lemma EncodeProjectedWorkspaceRequest_eq:
  "EncodeProjectedWorkspaceRequest sha r =
    (if \<not> ValidProjectedRequest r then (Workspace_kInvalidField, [])
     else case digest_frame sha (projected_head r) (projected_body r) of
         None \<Rightarrow> (Workspace_kAllocationFailed, []) | Some f \<Rightarrow> (Workspace_kSuccess, f))"
proof (cases "ValidProjectedRequest r")
  case True
  then have small: "80 + (length (pw_source_root r) + length (pw_projection_root r)) * 2 \<le> 256 * 1024"
    by (simp add: ValidProjectedRequest_def kMaximumPathCodeUnits_def)
  have head: "WriteU64 (WriteU32 (WriteU32 (WriteU32 (WriteU32 (WriteU16 (WriteU16 (put_bytes (zeros 80) 0 kProjectedRequestMagic)
      4 1) 6 80) 8 t) 12 a) 16 b) 20 c) 24 d =
      concat [kProjectedRequestMagic, le_bytes 2 (1 :: u16), le_bytes 2 (80 :: u16), le_bytes 4 t, le_bytes 4 a,
        le_bytes 4 b, le_bytes 4 c, le_bytes 8 d, zeros 16] @ zeros 32" for t a b c d
    using zeros_add [of 16 32] by (simp add: fills del: append_assoc)
  have guard: "\<not> (kProjectedWorkspaceMaximumRequestLength < 80 + (length (pw_source_root r) + length (pw_projection_root r)) * 2 \<or>
      4294967295 < int (80 + (length (pw_source_root r) + length (pw_projection_root r)) * 2))"
    using small by (simp add: kProjectedWorkspaceMaximumRequestLength_def)
  show ?thesis
    using True HashRequest_frame [OF length_request_heads(1), where h = 80 and sha = sha and body = "projected_body r" and
        e = Workspace_kAllocationFailed and ok = Workspace_kSuccess]
    unfolding EncodeProjectedWorkspaceRequest_def Let_def if_not_P [OF guard] of_nat_numeral head
    by (simp add: AppendUtf16_def projected_head_def projected_body_def del: concat.simps of_nat_add of_nat_mult
        cong: option.case_cong)
next
  case False
  then show ?thesis by (simp add: EncodeProjectedWorkspaceRequest_def)
qed

lemma EncodeWorkspaceSecurityRequest_eq:
  "EncodeWorkspaceSecurityRequest sha r =
    (if \<not> IsValidSecurityRequest r then (Workspace_kInvalidField, [])
     else case digest_frame sha (security_head r) (security_body r) of
         None \<Rightarrow> (Workspace_kAllocationFailed, []) | Some f \<Rightarrow> (Workspace_kSuccess, f))"
proof (cases "IsValidSecurityRequest r")
  case True
  then have small: "64 + (length (ws_source_root r) + length (ws_destination_root r)) * 2 \<le> 256 * 1024"
    by (simp add: IsValidSecurityRequest_def kMaximumPathCodeUnits_def)
  have head: "WriteU32 (WriteU32 (WriteU32 (WriteU16 (WriteU32 (WriteU16 (WriteU16 (put_bytes (zeros 64) 0 kSecurityRequestMagic)
      4 1) 6 64) 8 t) 12 a) 16 b) 20 c) 24 d =
      concat [kSecurityRequestMagic, le_bytes 2 (1 :: u16), le_bytes 2 (64 :: u16), le_bytes 4 t, le_bytes 2 a, zeros 2,
        le_bytes 4 b, le_bytes 4 c, le_bytes 4 d, zeros 4] @ zeros 32" for t a b c d
    using zeros_add [of 4 32] by (simp add: fills fill_gap [of 2] del: append_assoc)
  have guard: "\<not> (kWorkspaceSecurityMaximumRequestLength < 64 + (length (ws_source_root r) + length (ws_destination_root r)) * 2 \<or>
      4294967295 < int (64 + (length (ws_source_root r) + length (ws_destination_root r)) * 2))"
    using small by (simp add: kWorkspaceSecurityMaximumRequestLength_def)
  show ?thesis
    using True HashRequest_frame [OF length_request_heads(2), where h = 64 and sha = sha and body = "security_body r" and
        e = Workspace_kAllocationFailed and ok = Workspace_kSuccess]
    unfolding EncodeWorkspaceSecurityRequest_def Let_def if_not_P [OF guard] of_nat_numeral head
    by (simp add: AppendUtf16_def security_head_def security_body_def le_bytes_0 del: concat.simps of_nat_add of_nat_mult
        cong: option.case_cong)
next
  case False
  then show ?thesis by (simp add: EncodeWorkspaceSecurityRequest_def)
qed

lemma projected_head_iff:
  assumes "48 \<le> length p"
  shows "take 48 p = projected_head r \<longleftrightarrow> HasMagic kProjectedRequestMagic p \<and> ReadU16 p 4 = 1 \<and> ReadU16 p 6 = 80 \<and>
    ReadU32 p 8 = of_nat (80 + (length (pw_source_root r) + length (pw_projection_root r)) * 2) \<and>
    ReadU32 p 12 = of_nat (length (pw_source_root r)) \<and> ReadU32 p 16 = of_nat (length (pw_projection_root r)) \<and>
    ReadU32 p 20 = pw_maximum_items r \<and> ReadU64 p 24 = pw_maximum_bytes r \<and> sub_bytes 32 16 p = zeros 16"
  unfolding projected_head_def using assms
  by (subst layout_iff [where ns = "[4, 2, 2, 4, 4, 4, 4, 8, 16]"])
    (simp_all add: piece_reads sub_bytes_take del: concat.simps of_nat_add of_nat_mult)

lemma security_head_iff:
  assumes "32 \<le> length p"
  shows "take 32 p = security_head r \<longleftrightarrow> HasMagic kSecurityRequestMagic p \<and> ReadU16 p 4 = 1 \<and> ReadU16 p 6 = 64 \<and>
    ReadU32 p 8 = of_nat (64 + (length (ws_source_root r) + length (ws_destination_root r)) * 2) \<and>
    ReadU16 p 12 = ws_operation r \<and> ReadU16 p 14 = 0 \<and> ReadU32 p 16 = ws_maximum_items r \<and>
    ReadU32 p 20 = of_nat (length (ws_source_root r)) \<and> ReadU32 p 24 = of_nat (length (ws_destination_root r)) \<and>
    ReadU32 p 28 = 0"
  unfolding security_head_def using assms
  by (subst layout_iff [where ns = "[4, 2, 2, 4, 2, 2, 4, 4, 4, 4]"])
    (simp_all add: piece_reads sub_bytes_take del: concat.simps of_nat_add of_nat_mult)

lemma no_nonzero: "list_ex (\<lambda>v. v \<noteq> 0) xs \<longleftrightarrow> xs \<noteq> zeros (length xs)"
  using all_zero_replicate [of xs] by (auto simp: zeros_def all_zero_iff list_ex_iff)

lemma DecodeProjectedWorkspaceRequest_fields:
  "snd (DecodeProjectedWorkspaceRequest sha (Some p)) = Some r \<longleftrightarrow>
   (80 \<le> length p \<and> length p \<le> 262144 \<and> unat (ReadU32 p 8) = length p) \<and>
   HasMagic kProjectedRequestMagic p \<and> ReadU16 p 4 = 1 \<and> ReadU16 p 6 = 80 \<and> sub_bytes 32 16 p = zeros 16 \<and>
   HashRequest sha 80 48 p = Some (sub_bytes 48 32 p) \<and>
   ReadTwoPaths p 80 (unat (ReadU32 p 12)) (unat (ReadU32 p 16)) = Some (pw_source_root r, pw_projection_root r) \<and>
   ReadU32 p 20 = pw_maximum_items r \<and> ReadU64 p 24 = pw_maximum_bytes r \<and> ValidProjectedRequest r"
proof (cases "80 \<le> length p")
  case True
  then have "length (sub_bytes 32 16 p) = 16" by (simp add: length_sub_bytes)
  then show ?thesis
    unfolding DecodeProjectedWorkspaceRequest_def option.case Let_def no_nonzero
    by (cases r) (auto simp: kProjectedWorkspaceMaximumRequestLength_def split: if_splits option.splits prod.splits)
next
  case False
  then show ?thesis by (simp add: DecodeProjectedWorkspaceRequest_def)
qed

lemma DecodeWorkspaceSecurityRequest_fields:
  "snd (DecodeWorkspaceSecurityRequest sha (Some p)) = Some r \<longleftrightarrow>
   (64 \<le> length p \<and> length p \<le> 262144 \<and> unat (ReadU32 p 8) = length p) \<and>
   HasMagic kSecurityRequestMagic p \<and> ReadU16 p 4 = 1 \<and> ReadU16 p 6 = 64 \<and> ReadU16 p 14 = 0 \<and> ReadU32 p 28 = 0 \<and>
   HashRequest sha 64 32 p = Some (sub_bytes 32 32 p) \<and>
   ReadTwoPaths p 64 (unat (ReadU32 p 20)) (unat (ReadU32 p 24)) = Some (ws_source_root r, ws_destination_root r) \<and>
   ReadU16 p 12 = ws_operation r \<and> ReadU32 p 16 = ws_maximum_items r \<and> IsValidSecurityRequest r"
  unfolding DecodeWorkspaceSecurityRequest_def option.case Let_def
  by (cases r) (auto simp: kWorkspaceSecurityMaximumRequestLength_def split: if_splits option.splits prod.splits)

text \<open>What both decoders have in common: a request of two paths \<open>a\<close> and \<open>b\<close> behind a header of \<open>h\<close> bytes.\<close>

lemma two_paths_request:
  fixes x y z :: u32
  assumes h: "h \<le> length p" "h = n + 32" and bounds: "length a \<le> 32767" "length b \<le> 32767" "h \<le> 80"
    and len: "length head = n" and head: "take n p = head \<longleftrightarrow> R \<and> z = of_nat (h + (length a + length b) * 2) \<and>
      x = of_nat (length a) \<and> y = of_nat (length b)"
  shows "digest_frame sha head (utf16_bytes a @ utf16_bytes b) = Some p \<longleftrightarrow>
    R \<and> (length p \<le> 262144 \<and> unat z = length p) \<and> HashRequest sha h n p = Some (sub_bytes n 32 p) \<and>
    ReadTwoPaths p h (unat x) (unat y) = Some (a, b)"
proof -
  have u: "unat w = k \<longleftrightarrow> w = of_nat k" if "k \<le> 262144" for w :: u32 and k
    using that by (simp add: unat_eq_of_nat_iff)
  have size: "length p = h + (length a + length b) * 2" if "drop h p = utf16_bytes a @ utf16_bytes b"
    using arg_cong [OF that, of length] h(1) by simp
  have frame: "digest_frame sha head (utf16_bytes a @ utf16_bytes b) = Some p \<longleftrightarrow>
      take n p = head \<and> drop h p = utf16_bytes a @ utf16_bytes b \<and> HashRequest sha h n p = Some (sub_bytes n 32 p)"
    using HashRequest_iff [OF h(2,1), of sha] digest_frame_parts [of sha head "utf16_bytes a @ utf16_bytes b" p, OF _ len h(2)]
    by metis
  have la: "length a \<le> 262144" "length b \<le> 262144" "h + (length a + length b) * 2 \<le> 262144" using bounds by simp_all
  show ?thesis
    unfolding frame head ReadTwoPaths_iff [OF h(1)] using size u [OF la(1)] u [OF la(2)] u [OF la(3)] la(3) by metis
qed

lemma DecodeProjectedWorkspaceRequest_Some:
  "snd (DecodeProjectedWorkspaceRequest sha (Some p)) = Some r \<longleftrightarrow>
   projected_ok sha r \<and> p = the (digest_frame sha (projected_head r) (projected_body r))"
proof (cases "80 \<le> length p \<and> ValidProjectedRequest r")
  case True
  then have b: "length (pw_source_root r) \<le> 32767" "length (pw_projection_root r) \<le> 32767"
    by (simp_all add: ValidProjectedRequest_def kMaximumPathCodeUnits_def)
  have "snd (DecodeProjectedWorkspaceRequest sha (Some p)) = Some r \<longleftrightarrow>
      digest_frame sha (projected_head r) (projected_body r) = Some p"
    unfolding DecodeProjectedWorkspaceRequest_fields projected_body_def
    by (subst two_paths_request [where h = 80 and n = 48 and x = "ReadU32 p 12" and y = "ReadU32 p 16" and z = "ReadU32 p 8" and
          R = "HasMagic kProjectedRequestMagic p \<and> ReadU16 p 4 = 1 \<and> ReadU16 p 6 = 80 \<and>
            ReadU32 p 20 = pw_maximum_items r \<and> ReadU64 p 24 = pw_maximum_bytes r \<and> sub_bytes 32 16 p = zeros 16"])
      (use True b in \<open>auto simp: projected_head_iff\<close>)
  then show ?thesis using True by (auto simp: projected_ok_def)
next
  case False
  have "80 \<le> length p" if "digest_frame sha (projected_head r) (projected_body r) = Some p"
    using digest_frame_parts(3) [OF that, of 48 80] by simp
  then show ?thesis using False by (auto simp: DecodeProjectedWorkspaceRequest_fields projected_ok_def)
qed

lemma DecodeWorkspaceSecurityRequest_Some:
  "snd (DecodeWorkspaceSecurityRequest sha (Some p)) = Some r \<longleftrightarrow>
   security_ok sha r \<and> p = the (digest_frame sha (security_head r) (security_body r))"
proof (cases "64 \<le> length p \<and> IsValidSecurityRequest r")
  case True
  then have b: "length (ws_source_root r) \<le> 32767" "length (ws_destination_root r) \<le> 32767"
    by (simp_all add: IsValidSecurityRequest_def kMaximumPathCodeUnits_def)
  have "snd (DecodeWorkspaceSecurityRequest sha (Some p)) = Some r \<longleftrightarrow>
      digest_frame sha (security_head r) (security_body r) = Some p"
    unfolding DecodeWorkspaceSecurityRequest_fields security_body_def
    by (subst two_paths_request [where h = 64 and n = 32 and x = "ReadU32 p 20" and y = "ReadU32 p 24" and z = "ReadU32 p 8" and
          R = "HasMagic kSecurityRequestMagic p \<and> ReadU16 p 4 = 1 \<and> ReadU16 p 6 = 64 \<and> ReadU16 p 14 = 0 \<and>
            ReadU32 p 28 = 0 \<and> ReadU16 p 12 = ws_operation r \<and> ReadU32 p 16 = ws_maximum_items r"])
      (use True b in \<open>auto simp: security_head_iff\<close>)
  then show ?thesis using True by (auto simp: security_ok_def)
next
  case False
  have "64 \<le> length p" if "digest_frame sha (security_head r) (security_body r) = Some p"
    using digest_frame_parts(3) [OF that, of 32 64] by simp
  then show ?thesis using False by (auto simp: DecodeWorkspaceSecurityRequest_fields security_ok_def)
qed

interpretation projected_request: fixed_codec "\<lambda>r. snd (EncodeProjectedWorkspaceRequest sha r)"
    "\<lambda>p. snd (DecodeProjectedWorkspaceRequest sha (Some p))" "projected_ok sha" "\<lambda>p. []"
  for sha
  by (rule full_codec [OF _ DecodeProjectedWorkspaceRequest_Some])
    (auto simp: projected_ok_def EncodeProjectedWorkspaceRequest_eq)

interpretation security_request: fixed_codec "\<lambda>r. snd (EncodeWorkspaceSecurityRequest sha r)"
    "\<lambda>p. snd (DecodeWorkspaceSecurityRequest sha (Some p))" "security_ok sha" "\<lambda>p. []"
  for sha
  by (rule full_codec [OF _ DecodeWorkspaceSecurityRequest_Some])
    (auto simp: security_ok_def EncodeWorkspaceSecurityRequest_eq)

section \<open>Properties\<close>

text \<open>
  C37. The digest-protected requests have exactly one encoding.  For every hash function, the
  decoders of the launcher's start request and of the two workspace requests accept a byte
  string with a given value exactly if the encoder produces this byte string for the value;
  so whatever a sender encodes is received unchanged and nothing else is received.
\<close>

theorem digest_requests_exact:
  "(snd (DecodeLauncherStartRequest sha256 (Some p)) = Some start \<longleftrightarrow>
      start_arrays start \<and> EncodeLauncherStartRequest sha256 start = (Start_kSuccess, p)) \<and>
   (snd (DecodeProjectedWorkspaceRequest sha256 (Some p)) = Some projected \<longleftrightarrow>
      EncodeProjectedWorkspaceRequest sha256 projected = (Workspace_kSuccess, p)) \<and>
   (snd (DecodeWorkspaceSecurityRequest sha256 (Some p)) = Some security \<longleftrightarrow>
      EncodeWorkspaceSecurityRequest sha256 security = (Workspace_kSuccess, p))"
proof (intro conjI)
  show "snd (DecodeLauncherStartRequest sha256 (Some p)) = Some start \<longleftrightarrow>
      start_arrays start \<and> EncodeLauncherStartRequest sha256 start = (Start_kSuccess, p)"
    unfolding DecodeLauncherStartRequest_Some start_ok_def
    by (cases "start_arrays start") (auto simp: EncodeLauncherStartRequest_eq not_less split: option.splits)
  show "snd (DecodeProjectedWorkspaceRequest sha256 (Some p)) = Some projected \<longleftrightarrow>
      EncodeProjectedWorkspaceRequest sha256 projected = (Workspace_kSuccess, p)"
    unfolding DecodeProjectedWorkspaceRequest_Some projected_ok_def EncodeProjectedWorkspaceRequest_eq
    by (auto split: option.splits)
  show "snd (DecodeWorkspaceSecurityRequest sha256 (Some p)) = Some security \<longleftrightarrow>
      EncodeWorkspaceSecurityRequest sha256 security = (Workspace_kSuccess, p)"
    unfolding DecodeWorkspaceSecurityRequest_Some security_ok_def EncodeWorkspaceSecurityRequest_eq
    by (auto split: option.splits)
qed

end
