(* ===== verification/EventSink.thy ===== *)
theory EventSink
  imports EventFrame
begin

text \<open>
  \<open>src/native/hook/event_sink.cpp\<close>: the queue between the hooks that report violations and
  the thread that writes them to the event pipe.

  The global \<open>g_state\<close> is the record \<open>EventSinkState\<close>; the two events of the operating system
  are the flags \<open>es_wake\<close> (auto-reset) and \<open>es_idle\<close> (manual-reset).  The critical sections of
  the reporting functions are one operation, \<open>EnqueueRecord\<close>, whose argument is what the
  function assigns to the slot at the tail.  The writer thread is cut at the points where it
  holds no lock: waiting, looking at the queue, encoding and writing, and removing the head
  (\<open>WriterPc\<close>).  The relation \<open>sink_step\<close> interleaves its pieces with the critical sections
  of any number of reporting threads, each of which signals \<open>es_wake\<close> some time after it left
  its critical section.  Results of the operating system (waits, the write mutex, \<open>WriteFile\<close>)
  are chosen freely at every step.  \<open>domain\<close>, \<open>registry_key\<close> and \<open>path\<close> of a record are the
  contents of their buffers up to the terminating zero.

  The locale \<open>bounded_fifo\<close> is the contract of the ring buffer.
\<close>

section \<open>Definitions\<close>

subsection \<open>State\<close>

type_synonym HANDLE = u64

abbreviation (input) INVALID_HANDLE_VALUE :: HANDLE where "INVALID_HANDLE_VALUE \<equiv> - 1"

definition kQueueCapacity :: nat where
  "kQueueCapacity = 64"

definition kMaximumFrameLength :: nat where
  "kMaximumFrameLength = kEventHeaderLength + 9 + kMaximumEventPathCodeUnits * 2"

datatype EventRecordKind =
    Record_kFilesystem
  | Record_kProcess
  | Record_kChildInjectionFailure
  | Record_kRegistry
  | Record_kNetwork
  | Record_kNetworkDomain

record EventRecord =
  er_kind :: EventRecordKind
  er_process_id :: u32
  er_operation :: u8
  er_process_operation :: u8
  er_child_process_id :: u32
  er_child_failure_reason :: u8
  er_registry_operation :: u8
  er_network_operation :: u8
  er_network_endpoint :: NetworkEndpoint
  er_domain :: bytes
  er_registry_key :: bytes
  er_path_length :: nat
  er_path :: wstr

record EventSinkState =
  es_initialization_state :: int
  es_writer_failed :: bool
  es_event_handle :: HANDLE
  es_write_mutex_handle :: HANDLE
  es_wake :: bool
  es_idle :: bool
  es_records :: "EventRecord list"
  es_frame_buffer :: bytes
  es_head :: nat
  es_tail :: nat
  es_count :: nat
  es_next_sequence :: u64
  es_dropped_events :: u64

text \<open>The two handles the network hooks register.\<close>

record RuntimeIoHandles =
  io_dns_response_read_handle :: HANDLE
  io_dns_request_write_handle :: HANDLE

datatype EventSinkStatus =
    Sink_kSuccess
  | Sink_kInvalidHandle
  | Sink_kAlreadyInitialized
  | Sink_kAllocationFailed
  | Sink_kSynchronizationFailed
  | Sink_kThreadFailed

subsection \<open>Initialisation and handles\<close>

text \<open>What the calls of the operating system in \<open>InitializeEventSink\<close> return.\<close>

record sink_os =
  os_handle_information :: "HANDLE \<Rightarrow> bool"
  os_create_mutex :: HANDLE
  os_initialize_lock :: bool
  os_records_memory :: "EventRecord list option"
  os_frame_memory :: "bytes option"
  os_create_wake :: bool
  os_create_idle :: bool
  os_create_thread :: bool

definition InitializeEventSink ::
  "sink_os \<Rightarrow> HANDLE \<Rightarrow> HANDLE \<Rightarrow> EventSinkState \<Rightarrow> EventSinkStatus \<times> EventSinkState"
where
  "InitializeEventSink os event_handle write_mutex_handle s =
     (if event_handle = 0 \<or> event_handle = INVALID_HANDLE_VALUE \<or> \<not> os_handle_information os event_handle
      then (Sink_kInvalidHandle, s)
      else if write_mutex_handle = INVALID_HANDLE_VALUE \<or>
              (write_mutex_handle \<noteq> 0 \<and> \<not> os_handle_information os write_mutex_handle)
      then (Sink_kInvalidHandle, s)
      else let selected_mutex = (if write_mutex_handle = 0 then os_create_mutex os else write_mutex_handle)
        in if selected_mutex = 0 then (Sink_kSynchronizationFailed, s)
        else if es_initialization_state s \<noteq> 0 then (Sink_kAlreadyInitialized, s)
        else let s = s\<lparr>es_initialization_state := - 1\<rparr>
        in if \<not> os_initialize_lock os
        then (Sink_kSynchronizationFailed, s\<lparr>es_initialization_state := 0\<rparr>)
        else let s = s\<lparr>es_records := (case os_records_memory os of None \<Rightarrow> [] | Some records \<Rightarrow> records),
                        es_frame_buffer := (case os_frame_memory os of None \<Rightarrow> [] | Some buffer \<Rightarrow> buffer)\<rparr>
        in if os_records_memory os = None \<or> os_frame_memory os = None
        then (Sink_kAllocationFailed, s\<lparr>es_initialization_state := 0\<rparr>)
        else let s = s\<lparr>es_wake := False, es_idle := True\<rparr>
        in if \<not> os_create_wake os \<or> \<not> os_create_idle os
        then (Sink_kSynchronizationFailed, s\<lparr>es_initialization_state := 0\<rparr>)
        else let s = s\<lparr>es_event_handle := event_handle, es_write_mutex_handle := selected_mutex\<rparr>
        in if \<not> os_create_thread os then (Sink_kThreadFailed, s\<lparr>es_initialization_state := 0\<rparr>)
           else (Sink_kSuccess, s\<lparr>es_initialization_state := 1\<rparr>))"

definition IsEventSinkHandle :: "EventSinkState \<Rightarrow> HANDLE \<Rightarrow> bool" where
  "IsEventSinkHandle s handle = (es_initialization_state s = 1 \<and> handle = es_event_handle s)"

definition RegisterRuntimeIoHandles ::
  "(HANDLE \<Rightarrow> bool) \<Rightarrow> HANDLE \<Rightarrow> HANDLE \<Rightarrow> RuntimeIoHandles \<Rightarrow> bool \<times> RuntimeIoHandles"
where
  "RegisterRuntimeIoHandles handle_information dns_response_read_handle dns_request_write_handle io =
     (if dns_response_read_handle = 0 \<or> dns_response_read_handle = INVALID_HANDLE_VALUE \<or>
         dns_request_write_handle = 0 \<or> dns_request_write_handle = INVALID_HANDLE_VALUE \<or>
         dns_response_read_handle = dns_request_write_handle \<or>
         \<not> handle_information dns_response_read_handle \<or> \<not> handle_information dns_request_write_handle
      then (False, io)
      else if io_dns_response_read_handle io \<noteq> 0 then (False, io)
      else let io = io\<lparr>io_dns_response_read_handle := dns_response_read_handle\<rparr>
        in if io_dns_request_write_handle io \<noteq> 0 then (False, io\<lparr>io_dns_response_read_handle := 0\<rparr>)
           else (True, io\<lparr>io_dns_request_write_handle := dns_request_write_handle\<rparr>))"

definition IsRuntimeIoHandle :: "EventSinkState \<Rightarrow> RuntimeIoHandles \<Rightarrow> HANDLE \<Rightarrow> bool \<Rightarrow> bool" where
  "IsRuntimeIoHandle s io handle write_access =
     (if write_access then IsEventSinkHandle s handle \<or> handle = io_dns_request_write_handle io
      else handle = io_dns_response_read_handle io)"

subsection \<open>Reporting\<close>

definition RecordDroppedEvent :: "EventSinkState \<Rightarrow> EventSinkState" where
  "RecordDroppedEvent s =
     (if es_dropped_events s \<noteq> - 1 then s\<lparr>es_dropped_events := es_dropped_events s + 1\<rparr> else s)"

text \<open>The critical section of the reporting functions; \<open>fill\<close> assigns the fields of the slot.\<close>

definition EnqueueRecord :: "(EventRecord \<Rightarrow> EventRecord) \<Rightarrow> EventSinkState \<Rightarrow> bool \<times> EventSinkState" where
  "EnqueueRecord fill s =
     (if es_count s = kQueueCapacity then (False, RecordDroppedEvent s)
      else (True, s\<lparr>es_records := (es_records s)[es_tail s := fill (es_records s ! es_tail s)],
                    es_tail := (es_tail s + 1) mod kQueueCapacity,
                    es_count := es_count s + 1,
                    es_idle := False\<rparr>))"

definition SinkAccepts :: "EventSinkState \<Rightarrow> bool" where
  "SinkAccepts s = (es_initialization_state s = 1 \<and> \<not> es_writer_failed s)"

text \<open>The critical section and the \<open>SetEvent\<close> after it.\<close>

definition EnqueueAndWake :: "(EventRecord \<Rightarrow> EventRecord) \<Rightarrow> EventSinkState \<Rightarrow> bool \<times> EventSinkState" where
  "EnqueueAndWake fill s =
     (let (accepted, s) = EnqueueRecord fill s
      in if accepted then (True, s\<lparr>es_wake := True\<rparr>) else (False, s))"

definition BoundedPathLength :: "wchar_ptr \<Rightarrow> nat" where
  "BoundedPathLength path = (case path of None \<Rightarrow> 0 | Some path \<Rightarrow>
     let len = bounded_scan kMaximumEventPathCodeUnits 0 path
     in if len \<le> kMaximumEventPathCodeUnits then len else 0)"

definition TryReportFilesystemViolation ::
  "u32 \<Rightarrow> u8 \<Rightarrow> wchar_ptr \<Rightarrow> EventSinkState \<Rightarrow> bool \<times> EventSinkState"
where
  "TryReportFilesystemViolation pid operation path s =
     (if \<not> SinkAccepts s then (False, s)
      else let path_length = BoundedPathLength path
        in if path_length = 0 then (False, s)
           else EnqueueAndWake (\<lambda>record. record\<lparr>er_kind := Record_kFilesystem, er_process_id := pid,
                  er_operation := operation, er_path_length := path_length,
                  er_path := take path_length (the path)\<rparr>) s)"

definition TryReportProcessViolation :: "u32 \<Rightarrow> u8 \<Rightarrow> EventSinkState \<Rightarrow> bool \<times> EventSinkState" where
  "TryReportProcessViolation pid operation s =
     (if \<not> SinkAccepts s then (False, s)
      else EnqueueAndWake (\<lambda>record. record\<lparr>er_kind := Record_kProcess, er_process_id := pid,
             er_process_operation := operation, er_path_length := 0, er_path := []\<rparr>) s)"

definition TryReportRegistryViolation ::
  "(bytes \<Rightarrow> bool) \<Rightarrow> u32 \<Rightarrow> u8 \<Rightarrow> char_ptr \<Rightarrow> EventSinkState \<Rightarrow> bool \<times> EventSinkState"
where
  "TryReportRegistryViolation is_utf8 pid operation key s =
     (if \<not> SinkAccepts s \<or> RegistryViolationFrameLength is_utf8 key = 0 then (False, s)
      else EnqueueAndWake (\<lambda>record. record\<lparr>er_kind := Record_kRegistry, er_process_id := pid,
             er_registry_operation := operation, er_registry_key := c_str (the key),
             er_path_length := 0, er_path := []\<rparr>) s)"

definition TryReportChildInjectionFailure ::
  "u32 \<Rightarrow> u32 \<Rightarrow> u8 \<Rightarrow> EventSinkState \<Rightarrow> bool \<times> EventSinkState"
where
  "TryReportChildInjectionFailure pid child_process_id reason s =
     (if child_process_id = 0 \<or> ChildInjectionFailureReason_kMitigationFailed < reason \<or> \<not> SinkAccepts s
      then (False, s)
      else EnqueueAndWake (\<lambda>record. record\<lparr>er_kind := Record_kChildInjectionFailure, er_process_id := pid,
             er_child_process_id := child_process_id, er_child_failure_reason := reason,
             er_path_length := 0, er_path := []\<rparr>) s)"

definition TryReportNetworkViolation :: "u32 \<Rightarrow> u8 \<Rightarrow> NetworkEndpoint \<Rightarrow> EventSinkState \<Rightarrow> bool \<times> EventSinkState" where
  "TryReportNetworkViolation pid operation endpoint s =
     (if \<not> SinkAccepts s then (False, s)
      else EnqueueAndWake (\<lambda>record. record\<lparr>er_kind := Record_kNetwork, er_process_id := pid,
             er_network_operation := operation, er_network_endpoint := endpoint,
             er_path_length := 0, er_path := []\<rparr>) s)"

definition TryReportDomainNetworkViolation ::
  "u32 \<Rightarrow> u8 \<Rightarrow> char_ptr \<Rightarrow> EventSinkState \<Rightarrow> bool \<times> EventSinkState"
where
  "TryReportDomainNetworkViolation pid operation ascii_domain s =
     (if \<not> SinkAccepts s \<or> DomainNetworkViolationFrameLength ascii_domain = 0 then (False, s)
      else EnqueueAndWake (\<lambda>record. record\<lparr>er_kind := Record_kNetworkDomain, er_process_id := pid,
             er_network_operation := operation, er_domain := c_str (the ascii_domain),
             er_path_length := 0, er_path := []\<rparr>) s)"

text \<open>\<open>signalled\<close>: whether the wait for the idle event ended with \<open>WAIT_OBJECT_0\<close>.\<close>

definition WaitForEventSinkIdle :: "bool \<Rightarrow> EventSinkState \<Rightarrow> bool" where
  "WaitForEventSinkIdle signalled s =
     (if es_initialization_state s \<noteq> 1 \<or> \<not> signalled then False else \<not> es_writer_failed s)"

subsection \<open>The writer thread\<close>

text \<open>\<open>WriteFile\<close> on the bytes that remain: \<open>None\<close> if the call fails, otherwise the number written.\<close>

type_synonym write_file = "bytes \<Rightarrow> nat option"

text \<open>The result, and the bytes that reached the pipe.\<close>

function WriteExact :: "write_file \<Rightarrow> bytes \<Rightarrow> bool \<times> bytes" where
  "WriteExact write_file remaining =
     (if remaining = [] then (True, [])
      else case write_file remaining of
          None \<Rightarrow> (False, [])
        | Some written \<Rightarrow>
            if written = 0 then (False, [])
            else let (done_all, bytes) = WriteExact write_file (drop written remaining)
                 in (done_all, take written remaining @ bytes))"
  by pat_completeness auto
termination
  by (relation "measure (\<lambda>(w, remaining). length remaining)") (auto simp: length_greater_0_conv [symmetric] simp del: length_greater_0_conv)

declare WriteExact.simps [simp del]

text \<open>One step: the code sets \<open>writer_failed\<close> just before it takes the lock under which it clears the queue.\<close>

definition FailWriter :: "EventSinkState \<Rightarrow> EventSinkState" where
  "FailWriter s = s\<lparr>es_writer_failed := True, es_head := 0, es_tail := 0, es_count := 0,
     es_dropped_events := 0, es_idle := True\<rparr>"

definition AcquireWriteSequence :: "bool \<Rightarrow> EventSinkState \<Rightarrow> (u64 \<times> EventSinkState) option" where
  "AcquireWriteSequence acquired s =
     (if \<not> acquired then None
      else if es_next_sequence s = - 1 then None
      else Some (es_next_sequence s, s\<lparr>es_next_sequence := es_next_sequence s + 1\<rparr>))"

datatype WriterPc =
    Writer_kWait
  | Writer_kLook
  | Writer_kWrite "u64 option" nat
  | Writer_kRemove
  | Writer_kExit

text \<open>The first critical section of the loop; \<open>Writer_kWrite\<close> carries \<open>dropped_count\<close> or the slot \<open>queued\<close>.\<close>

definition WriterLook :: "EventSinkState \<Rightarrow> WriterPc \<times> EventSinkState" where
  "WriterLook s =
     (if es_count s = 0 then
        if es_dropped_events s = 0 then (Writer_kWait, s\<lparr>es_idle := True\<rparr>)
        else (Writer_kWrite (Some (es_dropped_events s)) 0, s\<lparr>es_dropped_events := 0\<rparr>)
      else (Writer_kWrite None (es_head s), s))"

definition EncodeQueued :: "(bytes \<Rightarrow> bool) \<Rightarrow> EventRecord \<Rightarrow> u64 \<Rightarrow> bytes \<Rightarrow> encode_result" where
  "EncodeQueued is_utf8 queued sequence frame_buffer =
     (case er_kind queued of
        Record_kFilesystem \<Rightarrow>
          EncodeFilesystemViolationFrame (er_process_id queued) (er_operation queued) (Some (er_path queued))
            sequence (Some frame_buffer)
      | Record_kProcess \<Rightarrow>
          EncodeProcessViolationFrame (er_process_id queued) (er_process_operation queued) sequence (Some frame_buffer)
      | Record_kChildInjectionFailure \<Rightarrow>
          EncodeChildInjectionFailureFrame (er_process_id queued) (er_child_process_id queued)
            (er_child_failure_reason queued) sequence (Some frame_buffer)
      | Record_kRegistry \<Rightarrow>
          EncodeRegistryViolationFrame is_utf8 (er_process_id queued) (er_registry_operation queued)
            (Some (er_registry_key queued)) sequence (Some frame_buffer)
      | Record_kNetwork \<Rightarrow>
          EncodeNetworkViolationFrame (er_process_id queued) (er_network_operation queued)
            (er_network_endpoint queued) sequence (Some frame_buffer)
      | Record_kNetworkDomain \<Rightarrow>
          EncodeDomainNetworkViolationFrame (er_process_id queued) (er_network_operation queued)
            (Some (er_domain queued)) sequence (Some frame_buffer))"

text \<open>
  From \<open>AcquireWriteSequence\<close> to \<open>ReleaseMutex\<close>: the next point of the thread, the state and
  the bytes written to the pipe.
\<close>

definition WriterWrite ::
  "(bytes \<Rightarrow> bool) \<Rightarrow> u32 \<Rightarrow> bool \<Rightarrow> write_file \<Rightarrow> bool \<Rightarrow> u64 option \<Rightarrow> nat \<Rightarrow> EventSinkState \<Rightarrow>
   WriterPc \<times> EventSinkState \<times> bytes"
where
  "WriterWrite is_utf8 pid acquired write_file released dropped queued s =
     (case AcquireWriteSequence acquired s of
        None \<Rightarrow> (Writer_kExit, FailWriter s, [])
      | Some (sequence, s) \<Rightarrow>
          let (encode_status, buffer, frame_length) =
                (case dropped of
                   Some dropped_count \<Rightarrow>
                     EncodeEventsDroppedFrame pid dropped_count sequence (Some (es_frame_buffer s))
                 | None \<Rightarrow> EncodeQueued is_utf8 (es_records s ! queued) sequence (es_frame_buffer s));
              s = s\<lparr>es_frame_buffer := the buffer\<rparr>;
              (written, output) =
                (if encode_status = Encode_kSuccess then WriteExact write_file (take frame_length (the buffer))
                 else (False, []))
          in if \<not> written \<or> \<not> released then (Writer_kExit, FailWriter s, output)
             else (if dropped \<noteq> None then Writer_kLook else Writer_kRemove, s, output))"

definition WriterRemove :: "EventSinkState \<Rightarrow> EventSinkState" where
  "WriterRemove s = s\<lparr>es_head := (es_head s + 1) mod kQueueCapacity, es_count := es_count s - 1\<rparr>"

subsection \<open>Reports and the interleaving of the threads\<close>

text \<open>The calls of the reporting functions, what they assign and the frame they stand for.\<close>

datatype SinkReport =
    Report_filesystem u8 wchar_ptr
  | Report_process u8
  | Report_registry u8 char_ptr
  | Report_child u32 u8
  | Report_network u8 NetworkEndpoint
  | Report_domain u8 char_ptr

fun TryReport :: "(bytes \<Rightarrow> bool) \<Rightarrow> u32 \<Rightarrow> SinkReport \<Rightarrow> EventSinkState \<Rightarrow> bool \<times> EventSinkState" where
  "TryReport is_utf8 pid (Report_filesystem operation path) = TryReportFilesystemViolation pid operation path"
| "TryReport is_utf8 pid (Report_process operation) = TryReportProcessViolation pid operation"
| "TryReport is_utf8 pid (Report_registry operation key) = TryReportRegistryViolation is_utf8 pid operation key"
| "TryReport is_utf8 pid (Report_child child reason) = TryReportChildInjectionFailure pid child reason"
| "TryReport is_utf8 pid (Report_network operation endpoint) = TryReportNetworkViolation pid operation endpoint"
| "TryReport is_utf8 pid (Report_domain operation domain) = TryReportDomainNetworkViolation pid operation domain"

fun report_valid :: "(bytes \<Rightarrow> bool) \<Rightarrow> SinkReport \<Rightarrow> bool" where
  "report_valid u (Report_filesystem operation path) \<longleftrightarrow> BoundedPathLength path \<noteq> 0"
| "report_valid u (Report_process operation) \<longleftrightarrow> True"
| "report_valid u (Report_registry operation key) \<longleftrightarrow> RegistryViolationFrameLength u key \<noteq> 0"
| "report_valid u (Report_child child reason) \<longleftrightarrow> child \<noteq> 0 \<and> reason \<le> ChildInjectionFailureReason_kMitigationFailed"
| "report_valid u (Report_network operation endpoint) \<longleftrightarrow> length (ep_address endpoint) = 16"
| "report_valid u (Report_domain operation domain) \<longleftrightarrow> DomainNetworkViolationFrameLength domain \<noteq> 0"

fun report_fill :: "u32 \<Rightarrow> SinkReport \<Rightarrow> EventRecord \<Rightarrow> EventRecord" where
  "report_fill pid (Report_filesystem operation path) record =
     record\<lparr>er_kind := Record_kFilesystem, er_process_id := pid, er_operation := operation,
       er_path_length := BoundedPathLength path, er_path := take (BoundedPathLength path) (the path)\<rparr>"
| "report_fill pid (Report_process operation) record =
     record\<lparr>er_kind := Record_kProcess, er_process_id := pid, er_process_operation := operation,
       er_path_length := 0, er_path := []\<rparr>"
| "report_fill pid (Report_registry operation key) record =
     record\<lparr>er_kind := Record_kRegistry, er_process_id := pid, er_registry_operation := operation,
       er_registry_key := c_str (the key), er_path_length := 0, er_path := []\<rparr>"
| "report_fill pid (Report_child child reason) record =
     record\<lparr>er_kind := Record_kChildInjectionFailure, er_process_id := pid, er_child_process_id := child,
       er_child_failure_reason := reason, er_path_length := 0, er_path := []\<rparr>"
| "report_fill pid (Report_network operation endpoint) record =
     record\<lparr>er_kind := Record_kNetwork, er_process_id := pid, er_network_operation := operation,
       er_network_endpoint := endpoint, er_path_length := 0, er_path := []\<rparr>"
| "report_fill pid (Report_domain operation domain) record =
     record\<lparr>er_kind := Record_kNetworkDomain, er_process_id := pid, er_network_operation := operation,
       er_domain := c_str (the domain), er_path_length := 0, er_path := []\<rparr>"

datatype sink_item = Item_event SinkReport | Item_dropped u64

fun item_frame :: "u32 \<Rightarrow> sink_item \<Rightarrow> u64 \<Rightarrow> bytes" where
  "item_frame pid (Item_event (Report_filesystem operation path)) sequence =
     event_frame kFilesystemViolationKind sequence (filesystem_payload pid operation (c_str (the path)))"
| "item_frame pid (Item_event (Report_process operation)) sequence =
     event_frame kProcessViolationKind sequence (process_payload pid operation)"
| "item_frame pid (Item_event (Report_registry operation key)) sequence =
     event_frame kRegistryViolationKind sequence (registry_payload pid operation (c_str (the key)))"
| "item_frame pid (Item_event (Report_child child reason)) sequence =
     event_frame kChildInjectionFailureKind sequence (child_payload pid child reason)"
| "item_frame pid (Item_event (Report_network operation endpoint)) sequence =
     event_frame kNetworkViolationKind sequence (network_payload pid operation endpoint)"
| "item_frame pid (Item_event (Report_domain operation domain)) sequence =
     event_frame kNetworkViolationKind sequence (domain_payload pid operation (c_str (the domain)))"
| "item_frame pid (Item_dropped n) sequence =
     event_frame kEventsDroppedKind sequence (dropped_payload pid n)"

text \<open>
  The whole system: the sink, the point of the writer thread, the byte strings that reached
  the pipe, the number of reporting threads that have left their critical section and not
  yet signalled \<open>wake_event\<close>, and as history the reports that were accepted and how many
  were refused because the queue was full.
\<close>

record sink_system =
  sy_sink :: EventSinkState
  sy_pc :: WriterPc
  sy_output :: "bytes list"
  sy_wakes :: nat
  sy_accepted :: "SinkReport list"
  sy_refused :: nat

inductive sink_step :: "(bytes \<Rightarrow> bool) \<Rightarrow> u32 \<Rightarrow> sink_system \<Rightarrow> sink_system \<Rightarrow> bool"
  for is_utf8 pid
where
  report: "report_valid is_utf8 report \<Longrightarrow> EnqueueRecord (report_fill pid report) (sy_sink y) = (True, s) \<Longrightarrow>
    sink_step is_utf8 pid y
      (y\<lparr>sy_sink := s, sy_wakes := sy_wakes y + 1, sy_accepted := sy_accepted y @ [report]\<rparr>)"
| report_full: "report_valid is_utf8 report \<Longrightarrow> EnqueueRecord (report_fill pid report) (sy_sink y) = (False, s) \<Longrightarrow>
    sink_step is_utf8 pid y (y\<lparr>sy_sink := s, sy_refused := sy_refused y + 1\<rparr>)"
| signal: "0 < sy_wakes y \<Longrightarrow>
    sink_step is_utf8 pid y (y\<lparr>sy_sink := (sy_sink y)\<lparr>es_wake := True\<rparr>, sy_wakes := sy_wakes y - 1\<rparr>)"
| wait: "sy_pc y = Writer_kWait \<Longrightarrow> es_wake (sy_sink y) \<Longrightarrow>
    sink_step is_utf8 pid y (y\<lparr>sy_sink := (sy_sink y)\<lparr>es_wake := False\<rparr>, sy_pc := Writer_kLook\<rparr>)"
| wait_failed: "sy_pc y = Writer_kWait \<Longrightarrow>
    sink_step is_utf8 pid y (y\<lparr>sy_sink := FailWriter (sy_sink y), sy_pc := Writer_kExit\<rparr>)"
| look: "sy_pc y = Writer_kLook \<Longrightarrow> WriterLook (sy_sink y) = (pc, s) \<Longrightarrow>
    sink_step is_utf8 pid y (y\<lparr>sy_sink := s, sy_pc := pc\<rparr>)"
| write_frame: "sy_pc y = Writer_kWrite dropped queued \<Longrightarrow>
    WriterWrite is_utf8 pid acquired write_file released dropped queued (sy_sink y) = (pc, s, output) \<Longrightarrow>
    sink_step is_utf8 pid y (y\<lparr>sy_sink := s, sy_pc := pc, sy_output := sy_output y @ [output]\<rparr>)"
| remove: "sy_pc y = Writer_kRemove \<Longrightarrow>
    sink_step is_utf8 pid y (y\<lparr>sy_sink := WriterRemove (sy_sink y), sy_pc := Writer_kLook\<rparr>)"

definition sink_initial :: "sink_system \<Rightarrow> bool" where
  "sink_initial y \<longleftrightarrow>
     length (es_records (sy_sink y)) = kQueueCapacity \<and> length (es_frame_buffer (sy_sink y)) = kMaximumFrameLength \<and>
     es_head (sy_sink y) = 0 \<and> es_tail (sy_sink y) = 0 \<and> es_count (sy_sink y) = 0 \<and>
     es_next_sequence (sy_sink y) = 1 \<and> es_dropped_events (sy_sink y) = 0 \<and>
     \<not> es_wake (sy_sink y) \<and> es_idle (sy_sink y) \<and> \<not> es_writer_failed (sy_sink y) \<and>
     sy_pc y = Writer_kWait \<and> sy_output y = [] \<and> sy_wakes y = 0 \<and> sy_accepted y = [] \<and> sy_refused y = 0"

definition sink_reachable :: "(bytes \<Rightarrow> bool) \<Rightarrow> u32 \<Rightarrow> sink_system \<Rightarrow> bool" where
  "sink_reachable is_utf8 pid y \<longleftrightarrow> (\<exists>y0. sink_initial y0 \<and> (sink_step is_utf8 pid)\<^sup>*\<^sup>* y0 y)"

definition ring_contents :: "EventSinkState \<Rightarrow> EventRecord list" where
  "ring_contents s = map (\<lambda>i. es_records s ! ((es_head s + i) mod kQueueCapacity)) [0..<es_count s]"

definition ring_ok :: "EventSinkState \<Rightarrow> bool" where
  "ring_ok s \<longleftrightarrow> length (es_records s) = kQueueCapacity \<and> es_head s < kQueueCapacity \<and> es_count s \<le> kQueueCapacity \<and>
     es_tail s = (es_head s + es_count s) mod kQueueCapacity"

fun item_events :: "sink_item list \<Rightarrow> SinkReport list" where
  "item_events [] = []"
| "item_events (Item_event r # items) = r # item_events items"
| "item_events (Item_dropped n # items) = item_events items"

fun item_losses :: "sink_item list \<Rightarrow> nat" where
  "item_losses [] = 0"
| "item_losses (Item_event r # items) = item_losses items"
| "item_losses (Item_dropped n # items) = unat n + item_losses items"

text \<open>The frames of a list of items: their sequence numbers count up from 1.\<close>

definition item_frames :: "u32 \<Rightarrow> sink_item list \<Rightarrow> bytes list" where
  "item_frames pid items = map (\<lambda>i. item_frame pid (items ! i) (of_nat (Suc i))) [0..<length items]"

text \<open>Refused reports that no frame on the pipe accounts for yet.\<close>

definition pending_losses :: "sink_system \<Rightarrow> nat" where
  "pending_losses y = unat (es_dropped_events (sy_sink y)) +
     (case sy_pc y of Writer_kWrite (Some n) _ \<Rightarrow> unat n | _ \<Rightarrow> 0)"

definition queue_inv :: "(bytes \<Rightarrow> bool) \<Rightarrow> u32 \<Rightarrow> EventSinkState \<Rightarrow> SinkReport list \<Rightarrow> bool" where
  "queue_inv u pid s Q \<longleftrightarrow> ring_ok s \<and> length (es_frame_buffer s) = kMaximumFrameLength \<and> \<not> es_writer_failed s \<and>
     list_all2 (\<lambda>r rep. report_valid u rep \<and> (\<exists>x. r = report_fill pid rep x)) (ring_contents s) Q"

definition history_inv :: "u32 \<Rightarrow> sink_system \<Rightarrow> sink_item list \<Rightarrow> SinkReport list \<Rightarrow> bool" where
  "history_inv pid y items Q \<longleftrightarrow>
     sy_output y = item_frames pid items \<and> length items < 2 ^ 64 - 1 \<and>
     es_next_sequence (sy_sink y) = of_nat (Suc (length items)) \<and>
     sy_accepted y = item_events items @ (if sy_pc y = Writer_kRemove then tl Q else Q) \<and>
     item_losses items + pending_losses y \<le> sy_refused y \<and>
     (sy_refused y < 2 ^ 64 - 1 \<longrightarrow> item_losses items + pending_losses y = sy_refused y)"

definition writer_inv :: "sink_system \<Rightarrow> SinkReport list \<Rightarrow> bool" where
  "writer_inv y Q \<longleftrightarrow>
     (case sy_pc y of
        Writer_kWrite None queued \<Rightarrow> Q \<noteq> [] \<and> queued = es_head (sy_sink y)
      | Writer_kWrite (Some n) queued \<Rightarrow> n \<noteq> 0
      | Writer_kRemove \<Rightarrow> Q \<noteq> []
      | Writer_kExit \<Rightarrow> False
      | _ \<Rightarrow> True) \<and>
     (es_idle (sy_sink y) \<longrightarrow> Q = [] \<and> pending_losses y = 0) \<and>
     (sy_pc y = Writer_kWait \<longrightarrow> Q = [] \<and> es_dropped_events (sy_sink y) = 0 \<or> es_wake (sy_sink y) \<or> 0 < sy_wakes y) \<and>
     (sy_pc y = Writer_kWait \<and> Q = [] \<longrightarrow> es_idle (sy_sink y))"

definition sink_inv :: "(bytes \<Rightarrow> bool) \<Rightarrow> u32 \<Rightarrow> sink_system \<Rightarrow> sink_item list \<Rightarrow> SinkReport list \<Rightarrow> bool" where
  "sink_inv u pid y items Q \<longleftrightarrow> queue_inv u pid (sy_sink y) Q \<and> history_inv pid y items Q \<and> writer_inv y Q"

text \<open>
  One piece of \<open>EventWriterThread\<close> when every call of the operating system succeeds and
  \<open>WriteFile\<close> writes all it is given; waiting without a signal changes nothing.
\<close>

definition WriterStep :: "(bytes \<Rightarrow> bool) \<Rightarrow> u32 \<Rightarrow> sink_system \<Rightarrow> sink_system" where
  "WriterStep is_utf8 pid y =
     (case sy_pc y of
        Writer_kWait \<Rightarrow>
          if es_wake (sy_sink y) then y\<lparr>sy_sink := (sy_sink y)\<lparr>es_wake := False\<rparr>, sy_pc := Writer_kLook\<rparr> else y
      | Writer_kLook \<Rightarrow> (let (pc, s) = WriterLook (sy_sink y) in y\<lparr>sy_sink := s, sy_pc := pc\<rparr>)
      | Writer_kWrite dropped queued \<Rightarrow>
          (let (pc, s, out) =
             WriterWrite is_utf8 pid True (\<lambda>remaining. Some (length remaining)) True dropped queued (sy_sink y)
           in y\<lparr>sy_sink := s, sy_pc := pc, sy_output := sy_output y @ [out]\<rparr>)
      | Writer_kRemove \<Rightarrow> y\<lparr>sy_sink := WriterRemove (sy_sink y), sy_pc := Writer_kLook\<rparr>
      | Writer_kExit \<Rightarrow> y)"

fun report_encodable :: "u32 \<Rightarrow> SinkReport \<Rightarrow> bool" where
  "report_encodable pid (Report_filesystem operation path) \<longleftrightarrow> operation \<le> FilesystemOperation_kEnumerate"
| "report_encodable pid (Report_process operation) \<longleftrightarrow> operation \<le> ProcessOperation_kExternalDelegation"
| "report_encodable pid (Report_registry operation key) \<longleftrightarrow> operation \<le> RegistryOperation_kUnsupportedTransactional"
| "report_encodable pid (Report_child child reason) \<longleftrightarrow> pid \<noteq> 0"
| "report_encodable pid (Report_network operation endpoint) \<longleftrightarrow> operation \<le> NetworkOperation_kSend \<and>
     (ep_family endpoint = NetworkAddressFamily_kIpv4 \<or> ep_family endpoint = NetworkAddressFamily_kIpv6)"
| "report_encodable pid (Report_domain operation domain) \<longleftrightarrow> operation \<le> NetworkOperation_kSend"

definition drain_measure :: "sink_system \<Rightarrow> nat" where
  "drain_measure y =
     (let c = 3 * es_count (sy_sink y) + (if es_dropped_events (sy_sink y) = 0 then 0 else 2) +
              (if es_wake (sy_sink y) then 2 else 0)
      in case sy_pc y of
           Writer_kWait \<Rightarrow> if es_wake (sy_sink y) then c else 0
         | Writer_kLook \<Rightarrow> c + 1
         | Writer_kWrite None _ \<Rightarrow> c
         | Writer_kWrite (Some _) _ \<Rightarrow> c + 2
         | Writer_kRemove \<Rightarrow> c - 1
         | Writer_kExit \<Rightarrow> 0)"

text \<open>What the writer still has to encode.\<close>

definition unwritten :: "sink_system \<Rightarrow> SinkReport list \<Rightarrow> SinkReport list" where
  "unwritten y Q = (if sy_pc y = Writer_kRemove then tl Q else Q)"

text \<open>A state with one report enqueued and signalled, on which the properties are exercised.\<close>

definition example_record :: EventRecord where
  "example_record = \<lparr>er_kind = Record_kFilesystem, er_process_id = 0, er_operation = 0, er_process_operation = 0,
     er_child_process_id = 0, er_child_failure_reason = 0, er_registry_operation = 0, er_network_operation = 0,
     er_network_endpoint = \<lparr>ep_family = 0, ep_address = replicate 16 0, ep_port = 0\<rparr>, er_domain = [], er_registry_key = [],
     er_path_length = 0, er_path = []\<rparr>"

definition example_sink :: sink_system where
  "example_sink = \<lparr>sy_sink = \<lparr>es_initialization_state = 1, es_writer_failed = False, es_event_handle = 4,
       es_write_mutex_handle = 8, es_wake = False, es_idle = True, es_records = replicate kQueueCapacity example_record,
       es_frame_buffer = replicate kMaximumFrameLength 0, es_head = 0, es_tail = 0, es_count = 0,
       es_next_sequence = 1, es_dropped_events = 0\<rparr>,
     sy_pc = Writer_kWait, sy_output = [], sy_wakes = 0, sy_accepted = [], sy_refused = 0\<rparr>"

definition example_report :: SinkReport where
  "example_report = Report_process 0"

definition example_reported :: sink_system where
  "example_reported =
     (let y = example_sink;
          y = y\<lparr>sy_sink := snd (EnqueueRecord (report_fill 7 example_report) (sy_sink y)), sy_wakes := sy_wakes y + 1,
                sy_accepted := sy_accepted y @ [example_report]\<rparr>
      in y\<lparr>sy_sink := (sy_sink y)\<lparr>es_wake := True\<rparr>, sy_wakes := sy_wakes y - 1\<rparr>)"

section \<open>The ring buffer is a bounded queue\<close>

locale bounded_fifo =
  fixes ok :: "'s \<Rightarrow> bool"
    and contents :: "'s \<Rightarrow> 'r list"
    and capacity :: nat
    and put :: "('r \<Rightarrow> 'r) \<Rightarrow> 's \<Rightarrow> bool \<times> 's"
    and pop :: "'s \<Rightarrow> 's"
  assumes bounded: "ok s \<Longrightarrow> length (contents s) \<le> capacity"
    and put_ok: "ok s \<Longrightarrow> ok (snd (put f s))"
    and pop_ok: "ok s \<Longrightarrow> contents s \<noteq> [] \<Longrightarrow> ok (pop s)"
    and put_full: "ok s \<Longrightarrow> length (contents s) = capacity \<Longrightarrow> \<not> fst (put f s) \<and> contents (snd (put f s)) = contents s"
    and put_room: "ok s \<Longrightarrow> length (contents s) < capacity \<Longrightarrow>
      fst (put f s) \<and> (\<exists>x. contents (snd (put f s)) = contents s @ [f x])"
    and pop_contents: "ok s \<Longrightarrow> contents s \<noteq> [] \<Longrightarrow> contents (pop s) = tl (contents s)"
begin

lemma put_accepted:
  assumes "ok s" "put f s = (True, s')"
  shows "ok s'" "\<exists>x. contents s' = contents s @ [f x]" "length (contents s) < capacity"
proof -
  show lt: "length (contents s) < capacity" using bounded [OF assms(1)] put_full [OF assms(1), of f] assms(2) by fastforce
  show "ok s'" using put_ok [OF assms(1), of f] assms(2) by simp
  show "\<exists>x. contents s' = contents s @ [f x]" using put_room [OF assms(1) lt, of f] assms(2) by simp
qed

lemma put_refused:
  assumes "ok s" "put f s = (False, s')"
  shows "ok s'" "contents s' = contents s" "length (contents s) = capacity"
proof -
  show eq: "length (contents s) = capacity" using bounded [OF assms(1)] put_room [OF assms(1), of f] assms(2) by fastforce
  show "ok s'" using put_ok [OF assms(1), of f] assms(2) by simp
  show "contents s' = contents s" using put_full [OF assms(1) eq, of f] assms(2) by simp
qed

text \<open>Adding an element leaves the front alone: the reader of the front needs no lock.\<close>

lemma front_kept:
  assumes "ok s" "contents s \<noteq> []"
  shows "hd (contents (snd (put f s))) = hd (contents s)"
  using put_accepted(2) [OF assms(1), of f "snd (put f s)"] put_refused(2) [OF assms(1), of f "snd (put f s)"] assms(2)
  by (cases "fst (put f s)") (auto simp: prod_eq_iff)

end

lemma length_ring_contents [simp]: "length (ring_contents s) = es_count s"
  by (simp add: ring_contents_def)

lemma capacity_pos: "0 < kQueueCapacity"
  by (simp add: kQueueCapacity_def)

lemma ring_slots_distinct:
  assumes "i < kQueueCapacity" "j < kQueueCapacity" "(h + i) mod kQueueCapacity = (h + j) mod kQueueCapacity"
  shows "i = j"
proof -
  have "i mod kQueueCapacity = j mod kQueueCapacity" using assms(3) by (simp add: nat_mod_eq_iff)
  then show ?thesis using assms(1,2) by simp
qed

interpretation sink_queue: bounded_fifo ring_ok ring_contents kQueueCapacity EnqueueRecord WriterRemove
proof
  fix s f
  show "length (ring_contents s) \<le> kQueueCapacity" if "ring_ok s" using that by (simp add: ring_ok_def)
  show "ring_ok (snd (EnqueueRecord f s))" if "ring_ok s"
    using that capacity_pos by (auto simp: ring_ok_def EnqueueRecord_def RecordDroppedEvent_def mod_simps add.commute)
  show "ring_ok (WriterRemove s)" if "ring_ok s" "ring_contents s \<noteq> []"
    using that capacity_pos by (cases "es_count s") (auto simp: ring_ok_def WriterRemove_def ring_contents_def mod_simps)
  show "\<not> fst (EnqueueRecord f s) \<and> ring_contents (snd (EnqueueRecord f s)) = ring_contents s"
    if "ring_ok s" "length (ring_contents s) = kQueueCapacity"
    using that by (simp add: EnqueueRecord_def RecordDroppedEvent_def ring_contents_def)
  show "fst (EnqueueRecord f s) \<and> (\<exists>x. ring_contents (snd (EnqueueRecord f s)) = ring_contents s @ [f x])"
    if ok: "ring_ok s" and room: "length (ring_contents s) < kQueueCapacity"
  proof -
    have tail: "es_tail s = (es_head s + es_count s) mod kQueueCapacity" "es_tail s < length (es_records s)"
      using ok capacity_pos by (simp_all add: ring_ok_def)
    have other: "es_tail s \<noteq> (es_head s + i) mod kQueueCapacity" if "i < es_count s" for i
      using ring_slots_distinct [of "es_count s" i "es_head s"] that room tail(1) by auto
    have "ring_contents (snd (EnqueueRecord f s)) = ring_contents s @ [f (es_records s ! es_tail s)]"
      using room tail other by (simp add: EnqueueRecord_def ring_contents_def nth_list_update)
    then show ?thesis using room by (auto simp: EnqueueRecord_def)
  qed
  show "ring_contents (WriterRemove s) = tl (ring_contents s)" if "ring_ok s" "ring_contents s \<noteq> []"
  proof (rule nth_equalityI)
    show "length (ring_contents (WriterRemove s)) = length (tl (ring_contents s))" by (simp add: WriterRemove_def)
    fix i assume "i < length (ring_contents (WriterRemove s))"
    then have i: "Suc i < es_count s" by (simp add: WriterRemove_def)
    have "ring_contents (WriterRemove s) ! i = es_records s ! ((es_head s + Suc i) mod kQueueCapacity)"
      using i by (simp add: WriterRemove_def ring_contents_def mod_simps)
    also have "\<dots> = tl (ring_contents s) ! i" using i by (simp add: ring_contents_def nth_tl)
    finally show "ring_contents (WriterRemove s) ! i = tl (ring_contents s) ! i" .
  qed
qed

section \<open>Reporting functions\<close>

lemma BoundedPathLength_eq:
  "BoundedPathLength path = (case path of None \<Rightarrow> 0 | Some p \<Rightarrow> if length (c_str p) \<le> 32767 then length (c_str p) else 0)"
  by (auto simp: BoundedPathLength_def bounded_scan_0 Let_def split: option.split)

lemma TryReport_eq:
  assumes "\<And>operation e. report = Report_network operation e \<Longrightarrow> length (ep_address e) = 16"
  shows "TryReport u pid report s =
    (if SinkAccepts s \<and> report_valid u report then EnqueueAndWake (report_fill pid report) s else (False, s))"
  using assms
  by (cases report)
    (auto simp: TryReportFilesystemViolation_def TryReportProcessViolation_def TryReportRegistryViolation_def
      TryReportChildInjectionFailure_def TryReportNetworkViolation_def TryReportDomainNetworkViolation_def
      Let_def not_less intro!: arg_cong [where f = "\<lambda>f. EnqueueAndWake f s"])

section \<open>The writer\<close>

lemma WriteExact_complete: "WriteExact w bs = (True, out) \<Longrightarrow> out = bs"
proof (induction w bs arbitrary: out rule: WriteExact.induct)
  case (1 w bs)
  show ?case
  proof (cases "bs = []")
    case True
    then show ?thesis using "1.prems" by (subst (asm) WriteExact.simps) simp
  next
    case False
    have "WriteExact w bs = (case w bs of None \<Rightarrow> (False, []) | Some n \<Rightarrow> if n = 0 then (False, []) else
        let (d, b) = WriteExact w (drop n bs) in (d, take n bs @ b))"
      using False by (subst WriteExact.simps) simp
    then obtain n b where n: "w bs = Some n" "n \<noteq> 0" "WriteExact w (drop n bs) = (True, b)" "out = take n bs @ b"
      using "1.prems" by (auto split: option.splits if_splits prod.splits)
    have "b = drop n bs" using "1.IH" [OF False n(1,2) n(3)] .
    then show ?thesis using n(4) by simp
  qed
qed

lemma encoded_frame_success:
  "encoded_frame k q p out = (Encode_kSuccess, out', n) \<Longrightarrow>
   take n (the out') = event_frame k q p \<and> length (the out') = length out"
  by (auto simp: encoded_frame_def Let_def split: if_splits)

lemma EncodeQueued_fill:
  assumes "report_valid u report" "EncodeQueued u (report_fill pid report x) q out = (Encode_kSuccess, out', n)"
  shows "take n (the out') = item_frame pid (Item_event report) q \<and> length (the out') = length out"
proof (cases report)
  case (Report_filesystem operation path)
  then obtain p where p: "path = Some p" "take (BoundedPathLength path) p = c_str p"
    using assms(1) by (cases path) (auto simp: BoundedPathLength_eq take_c_str split: if_splits)
  show ?thesis
    using assms(2) p encoded_frame_success [of 2 q "filesystem_payload pid operation (c_str p)" out out' n]
    by (auto simp: Report_filesystem EncodeQueued_def EncodeFilesystemViolationFrame_eq split: if_splits)
next
  case (Report_process operation)
  then show ?thesis
    using assms(2) encoded_frame_success [of 8 q "process_payload pid operation" out out' n]
    by (auto simp: EncodeQueued_def EncodeProcessViolationFrame_eq split: if_splits)
next
  case (Report_registry operation key)
  then obtain k where "key = Some k" using assms(1) by (cases key) (simp_all add: RegistryViolationFrameLength_def)
  then show ?thesis
    using assms(2) encoded_frame_success [of 3 q "registry_payload pid operation (c_str k)" out out' n] Report_registry
    by (auto simp: EncodeQueued_def EncodeRegistryViolationFrame_eq split: if_splits)
next
  case (Report_child child reason)
  then show ?thesis
    using assms(2) encoded_frame_success [of 6 q "child_payload pid child reason" out out' n]
    by (auto simp: EncodeQueued_def EncodeChildInjectionFailureFrame_eq split: if_splits)
next
  case (Report_network operation e)
  then have "length (ep_address e) = 16" using assms(1) by simp
  then show ?thesis
    using assms(2) encoded_frame_success [of 4 q "network_payload pid operation e" out out' n] Report_network
    by (auto simp: EncodeQueued_def EncodeNetworkViolationFrame_eq split: if_splits)
next
  case (Report_domain operation d)
  then obtain k where "d = Some k" using assms(1) by (cases d) (simp_all add: DomainNetworkViolationFrameLength_def)
  then show ?thesis
    using assms(2) encoded_frame_success [of 4 q "domain_payload pid operation (c_str k)" out out' n] Report_domain
    by (auto simp: EncodeQueued_def EncodeDomainNetworkViolationFrame_eq split: if_splits)
qed

text \<open>What a successful write appends to the pipe.\<close>

lemma WriterWrite_success:
  assumes "WriterWrite u pid acquired w released dropped queued s = (pc, s', output)" "pc \<noteq> Writer_kExit"
  shows "es_next_sequence s \<noteq> - 1" "es_next_sequence s' = es_next_sequence s + 1"
    "pc = (if dropped \<noteq> None then Writer_kLook else Writer_kRemove)"
    "\<exists>buffer. s' = s\<lparr>es_next_sequence := es_next_sequence s + 1, es_frame_buffer := buffer\<rparr> \<and>
      (\<forall>n. dropped = Some n \<longrightarrow> output = item_frame pid (Item_dropped n) (es_next_sequence s) \<and>
        length buffer = length (es_frame_buffer s)) \<and>
      (\<forall>report x. dropped = None \<longrightarrow> report_valid u report \<longrightarrow> es_records s ! queued = report_fill pid report x \<longrightarrow>
        output = item_frame pid (Item_event report) (es_next_sequence s) \<and> length buffer = length (es_frame_buffer s))"
proof -
  let ?q = "es_next_sequence s" and ?out = "es_frame_buffer s"
  define enc where "enc = (case dropped of
      Some n \<Rightarrow> EncodeEventsDroppedFrame pid n ?q (Some ?out)
    | None \<Rightarrow> EncodeQueued u (es_records s ! queued) ?q ?out)"
  obtain st out' n where e: "enc = (st, out', n)" by (cases enc)
  have acq: "acquired" "?q \<noteq> - 1"
    using assms by (auto simp: WriterWrite_def AcquireWriteSequence_def split: if_splits)
  have unf: "WriterWrite u pid acquired w released dropped queued s =
      (let (written, output) = (if st = Encode_kSuccess then WriteExact w (take n (the out')) else (False, []))
       in if \<not> written \<or> \<not> released
          then (Writer_kExit, FailWriter (s\<lparr>es_next_sequence := ?q + 1, es_frame_buffer := the out'\<rparr>), output)
          else (if dropped \<noteq> None then Writer_kLook else Writer_kRemove,
                s\<lparr>es_next_sequence := ?q + 1, es_frame_buffer := the out'\<rparr>, output))"
    using acq e unfolding WriterWrite_def AcquireWriteSequence_def enc_def by (cases dropped) (simp_all add: Let_def)
  have ok: "st = Encode_kSuccess" and out: "WriteExact w (take n (the out')) = (True, output)"
    and s': "s' = s\<lparr>es_next_sequence := ?q + 1, es_frame_buffer := the out'\<rparr>"
    and pc: "pc = (if dropped \<noteq> None then Writer_kLook else Writer_kRemove)"
    using assms unfolding unf by (auto split: if_splits prod.splits)
  note whole = WriteExact_complete [OF out]
  show "?q \<noteq> - 1" by (rule acq)
  show "es_next_sequence s' = ?q + 1" by (simp add: s')
  show "pc = (if dropped \<noteq> None then Writer_kLook else Writer_kRemove)" by (rule pc)
  have dr: "output = item_frame pid (Item_dropped m) ?q \<and> length (the out') = length ?out" if "dropped = Some m" for m
    using e ok that encoded_frame_success [of 9 ?q "dropped_payload pid m" ?out out' n] whole
    by (auto simp: enc_def EncodeEventsDroppedFrame_eq split: if_splits)
  have ev: "output = item_frame pid (Item_event report) ?q \<and> length (the out') = length ?out"
    if "dropped = None" "report_valid u report" "es_records s ! queued = report_fill pid report x" for report x
    using EncodeQueued_fill [OF that(2), of pid x ?q ?out out' n] e ok that whole by (simp add: enc_def)
  show "\<exists>buffer. s' = s\<lparr>es_next_sequence := ?q + 1, es_frame_buffer := buffer\<rparr> \<and>
      (\<forall>n. dropped = Some n \<longrightarrow> output = item_frame pid (Item_dropped n) ?q \<and>
        length buffer = length (es_frame_buffer s)) \<and>
      (\<forall>report x. dropped = None \<longrightarrow> report_valid u report \<longrightarrow> es_records s ! queued = report_fill pid report x \<longrightarrow>
        output = item_frame pid (Item_event report) ?q \<and> length buffer = length (es_frame_buffer s))"
    using s' dr ev by blast
qed

section \<open>The invariant of the system\<close>

lemma item_events_append [simp]: "item_events (xs @ ys) = item_events xs @ item_events ys"
  by (induction xs rule: item_events.induct) auto

lemma item_losses_append [simp]: "item_losses (xs @ ys) = item_losses xs + item_losses ys"
  by (induction xs rule: item_losses.induct) auto

lemma item_frames_snoc:
  "item_frames pid (items @ [i]) = item_frames pid items @ [item_frame pid i (of_nat (Suc (length items)))]"
  by (simp add: item_frames_def nth_append)

lemma item_frames_length [simp]: "length (item_frames pid items) = length items"
  by (simp add: item_frames_def)

lemma queue_inv_count: "queue_inv u pid s Q \<Longrightarrow> length Q = es_count s"
  by (auto simp: queue_inv_def dest: list_all2_lengthD)

lemma EnqueueRecord_fields:
  assumes "EnqueueRecord f s = (b, s')"
  shows "es_frame_buffer s' = es_frame_buffer s" "es_writer_failed s' = es_writer_failed s" "es_head s' = es_head s"
    "es_next_sequence s' = es_next_sequence s" "es_wake s' = es_wake s"
    "b \<Longrightarrow> \<not> es_idle s'" "b \<Longrightarrow> es_dropped_events s' = es_dropped_events s"
    "\<not> b \<Longrightarrow> s' = RecordDroppedEvent s"
  using assms by (auto simp: EnqueueRecord_def RecordDroppedEvent_def split: if_splits)

lemma step_report:
  assumes inv: "sink_inv u pid y items Q" and valid: "report_valid u report"
    and enq: "EnqueueRecord (report_fill pid report) (sy_sink y) = (True, s)"
  shows "sink_inv u pid (y\<lparr>sy_sink := s, sy_wakes := sy_wakes y + 1, sy_accepted := sy_accepted y @ [report]\<rparr>)
    items (Q @ [report])"
proof -
  note f = EnqueueRecord_fields [OF enq]
  have ring: "ring_ok (sy_sink y)" using inv by (simp add: sink_inv_def queue_inv_def)
  obtain x where x: "ring_contents s = ring_contents (sy_sink y) @ [report_fill pid report x]"
    using sink_queue.put_accepted(2) [OF ring enq] by blast
  have "queue_inv u pid s (Q @ [report])"
    using inv valid x sink_queue.put_accepted(1) [OF ring enq] f(1,2)
    by (auto simp: sink_inv_def queue_inv_def intro!: list_all2_appendI)
  moreover have rm: "Q \<noteq> []" if "sy_pc y = Writer_kRemove" using inv that by (simp add: sink_inv_def writer_inv_def)
  ultimately show ?thesis
    using inv f(3-7) by (auto simp: sink_inv_def history_inv_def writer_inv_def pending_losses_def
        split: WriterPc.splits option.splits)
qed

lemma unat_Suc: "w \<noteq> - 1 \<Longrightarrow> unat (w + 1) = Suc (unat w)" for w :: u64
proof -
  assume w: "w \<noteq> - 1"
  have "unat w \<noteq> 2 ^ 64 - 1"
  proof
    assume "unat w = 2 ^ 64 - 1"
    then have "w = of_nat (2 ^ 64 - 1)" unfolding unat_eq_of_nat_iff by blast
    then show False using w by simp
  qed
  then have lt: "unat w + 1 < 2 ^ 64" using unsigned_less [of w, where ?'a = nat] by simp
  have e: "w + 1 = of_nat (unat w + 1)" by simp
  show "unat (w + 1) = Suc (unat w)"
    unfolding e by (subst unat_of_nat_less) (use lt in simp_all)
qed

lemma unat_minus_1: "unat (- 1 :: u64) = 2 ^ 64 - 1"
  by (simp add: unsigned_minus_1_eq_mask mask_eq_exp_minus_1)

lemma step_report_full:
  assumes inv: "sink_inv u pid y items Q"
    and enq: "EnqueueRecord (report_fill pid report) (sy_sink y) = (False, s)"
  shows "sink_inv u pid (y\<lparr>sy_sink := s, sy_refused := sy_refused y + 1\<rparr>) items Q"
proof -
  note f = EnqueueRecord_fields [OF enq]
  have ring: "ring_ok (sy_sink y)" using inv by (simp add: sink_inv_def queue_inv_def)
  note put = sink_queue.put_refused [OF ring enq]
  have q: "queue_inv u pid s Q"
    using inv put(1,2) f(1,2) by (auto simp: sink_inv_def queue_inv_def)
  have full: "Q \<noteq> []"
    using put(3) queue_inv_count [of u pid "sy_sink y" Q] inv capacity_pos by (auto simp: sink_inv_def)
  have idle: "\<not> es_idle (sy_sink y)" using inv full by (simp add: sink_inv_def writer_inv_def)
  have s: "s = RecordDroppedEvent (sy_sink y)" using f(8) by simp
  let ?d = "es_dropped_events (sy_sink y)" and ?y = "y\<lparr>sy_sink := s, sy_refused := sy_refused y + 1\<rparr>"
  have loss: "item_losses items + pending_losses ?y \<le> sy_refused ?y \<and>
      (sy_refused ?y < 2 ^ 64 - 1 \<longrightarrow> item_losses items + pending_losses ?y = sy_refused ?y)"
  proof (cases "?d = - 1")
    case True
    then have "pending_losses ?y = pending_losses y" by (simp add: pending_losses_def s RecordDroppedEvent_def)
    moreover have "2 ^ 64 - 1 \<le> pending_losses y" unfolding pending_losses_def True unat_minus_1 by simp
    ultimately show ?thesis using inv by (simp add: sink_inv_def history_inv_def)
  next
    case False
    then have "pending_losses ?y = Suc (pending_losses y)"
      by (simp add: pending_losses_def s RecordDroppedEvent_def unat_Suc)
    then show ?thesis using inv by (simp add: sink_inv_def history_inv_def)
  qed
  show ?thesis
    using inv q loss f(3-5) full idle
    by (auto simp: sink_inv_def history_inv_def writer_inv_def s RecordDroppedEvent_def split: WriterPc.splits option.splits)
qed

lemma step_simple:
  assumes inv: "sink_inv u pid y items Q"
  shows "0 < sy_wakes y \<Longrightarrow>
      sink_inv u pid (y\<lparr>sy_sink := (sy_sink y)\<lparr>es_wake := True\<rparr>, sy_wakes := sy_wakes y - 1\<rparr>) items Q"
    and "sy_pc y = Writer_kWait \<Longrightarrow>
      sink_inv u pid (y\<lparr>sy_sink := (sy_sink y)\<lparr>es_wake := False\<rparr>, sy_pc := Writer_kLook\<rparr>) items Q"
  using inv by (auto simp: sink_inv_def queue_inv_def history_inv_def writer_inv_def pending_losses_def ring_ok_def
      ring_contents_def split: WriterPc.splits option.splits)

lemma step_look:
  assumes inv: "sink_inv u pid y items Q" and pc: "sy_pc y = Writer_kLook" and look: "WriterLook (sy_sink y) = (pc, s)"
  shows "sink_inv u pid (y\<lparr>sy_sink := s, sy_pc := pc\<rparr>) items Q"
proof -
  have len: "length Q = es_count (sy_sink y)" using inv queue_inv_count by (auto simp: sink_inv_def)
  show ?thesis
  proof (cases "es_count (sy_sink y) = 0")
    case True
    then show ?thesis
      using inv pc look len
      by (auto simp: sink_inv_def queue_inv_def history_inv_def writer_inv_def pending_losses_def ring_ok_def
          ring_contents_def WriterLook_def split: if_splits)
  next
    case False
    then have "Q \<noteq> []" using len by auto
    then show ?thesis
      using inv pc look len False
      by (auto simp: sink_inv_def queue_inv_def history_inv_def writer_inv_def pending_losses_def WriterLook_def)
  qed
qed

lemma step_remove:
  assumes inv: "sink_inv u pid y items Q" and pc: "sy_pc y = Writer_kRemove"
  shows "sink_inv u pid (y\<lparr>sy_sink := WriterRemove (sy_sink y), sy_pc := Writer_kLook\<rparr>) items (tl Q)"
proof -
  have ring: "ring_ok (sy_sink y)" and ne: "Q \<noteq> []" using inv pc by (simp_all add: sink_inv_def queue_inv_def writer_inv_def)
  then have c: "ring_contents (sy_sink y) \<noteq> []" using inv by (auto simp: sink_inv_def queue_inv_def)
  note pop = sink_queue.pop_ok [OF ring c] sink_queue.pop_contents [OF ring c]
  have "list_all2 R (tl xs) (tl ys)" if "list_all2 R xs ys" for R :: "EventRecord \<Rightarrow> SinkReport \<Rightarrow> bool" and xs ys
    using that by (cases xs; cases ys) auto
  then have "queue_inv u pid (WriterRemove (sy_sink y)) (tl Q)"
    using inv pop by (auto simp: sink_inv_def queue_inv_def WriterRemove_def)
  then show ?thesis
    using inv pc ne by (auto simp: sink_inv_def history_inv_def writer_inv_def pending_losses_def WriterRemove_def)
qed

lemma ring_front:
  assumes "queue_inv u pid s Q" "Q \<noteq> []"
  shows "report_valid u (hd Q) \<and> (\<exists>x. es_records s ! es_head s = report_fill pid (hd Q) x)"
proof -
  have l2: "list_all2 (\<lambda>r rep. report_valid u rep \<and> (\<exists>x. r = report_fill pid rep x)) (ring_contents s) Q"
    and head: "es_head s < kQueueCapacity" using assms(1) by (simp_all add: queue_inv_def ring_ok_def)
  have c: "0 < es_count s" using queue_inv_count [OF assms(1)] assms(2) by (metis length_greater_0_conv)
  have "ring_contents s ! 0 = es_records s ! es_head s" using c head by (simp add: ring_contents_def)
  then show ?thesis using list_all2_nthD [OF l2, of 0] c assms(2) by (simp add: hd_conv_nth)
qed

lemma step_write:
  assumes inv: "sink_inv u pid y items Q" and pc: "sy_pc y = Writer_kWrite dropped queued"
    and wr: "WriterWrite u pid acquired w released dropped queued (sy_sink y) = (pc', s, out)" and go: "pc' \<noteq> Writer_kExit"
  shows "\<exists>item. sink_inv u pid (y\<lparr>sy_sink := s, sy_pc := pc', sy_output := sy_output y @ [out]\<rparr>) (items @ [item]) Q"
proof -
  note ww = WriterWrite_success [OF wr go]
  obtain buffer where s: "s = (sy_sink y)\<lparr>es_next_sequence := es_next_sequence (sy_sink y) + 1, es_frame_buffer := buffer\<rparr>"
    and dr: "\<forall>n. dropped = Some n \<longrightarrow> out = item_frame pid (Item_dropped n) (es_next_sequence (sy_sink y)) \<and>
        length buffer = length (es_frame_buffer (sy_sink y))"
    and ev: "\<forall>report x. dropped = None \<longrightarrow> report_valid u report \<longrightarrow> es_records (sy_sink y) ! queued = report_fill pid report x \<longrightarrow>
        out = item_frame pid (Item_event report) (es_next_sequence (sy_sink y)) \<and> length buffer = length (es_frame_buffer (sy_sink y))"
    using ww(4) by blast
  have q: "queue_inv u pid (sy_sink y) Q" and h: "history_inv pid y items Q" and wi: "writer_inv y Q"
    using inv by (simp_all add: sink_inv_def)
  define item where "item = (case dropped of Some n \<Rightarrow> Item_dropped n | None \<Rightarrow> Item_event (hd Q))"
  have out: "out = item_frame pid item (es_next_sequence (sy_sink y)) \<and> length buffer = kMaximumFrameLength"
  proof (cases dropped)
    case None
    then have "Q \<noteq> []" "queued = es_head (sy_sink y)" using wi pc by (simp_all add: writer_inv_def)
    then show ?thesis using ev None ring_front [OF q] q by (auto simp: item_def queue_inv_def)
  next
    case (Some n)
    then show ?thesis using dr q by (simp add: item_def queue_inv_def)
  qed
  have q': "queue_inv u pid s Q" using q out by (simp add: queue_inv_def s ring_ok_def ring_contents_def)
  have seq: "es_next_sequence (sy_sink y) = of_nat (Suc (length items))" "length items < 2 ^ 64 - 1"
    using h by (simp_all add: history_inv_def)
  have small: "length (items @ [item]) < 2 ^ 64 - 1"
  proof -
    have "Suc (length items) \<noteq> 2 ^ 64 - 1"
    proof
      assume "Suc (length items) = 2 ^ 64 - 1"
      then have "es_next_sequence (sy_sink y) = of_nat (2 ^ 64 - 1)" using seq(1) by simp
      then show False using ww(1) by simp
    qed
    then show ?thesis using seq(2) by simp
  qed
  let ?y = "y\<lparr>sy_sink := s, sy_pc := pc', sy_output := sy_output y @ [out]\<rparr>"
  have loss: "item_losses (items @ [item]) + pending_losses ?y = item_losses items + pending_losses y"
    using ww(3) pc by (cases dropped) (auto simp: pending_losses_def item_def s)
  have acc: "sy_accepted y = item_events (items @ [item]) @ (if pc' = Writer_kRemove then tl Q else Q)"
  proof (cases dropped)
    case None
    then have "Q \<noteq> []" using wi pc by (simp add: writer_inv_def)
    then show ?thesis using h pc ww(3) None by (simp add: history_inv_def item_def)
  next
    case (Some n)
    then show ?thesis using h pc ww(3) by (simp add: history_inv_def item_def)
  qed
  have h': "history_inv pid ?y (items @ [item]) Q"
    unfolding history_inv_def loss using h acc small out seq(1)
    by (simp add: history_inv_def item_frames_snoc s)
  have wi': "writer_inv ?y Q"
    using wi pc ww(3) by (cases dropped) (auto simp: writer_inv_def pending_losses_def s)
  show ?thesis using q' h' wi' unfolding sink_inv_def by auto
qed

lemma sink_inv_step:
  assumes "sink_step u pid y y'" "sink_inv u pid y items Q"
  shows "sy_pc y' = Writer_kExit \<or> (\<exists>items Q. sink_inv u pid y' items Q)"
  using assms(1)
proof (cases rule: sink_step.cases)
  case (report rep s)
  show ?thesis using step_report [OF assms(2) report(2,3)] unfolding report(1) by blast
next
  case (report_full rep s)
  show ?thesis using step_report_full [OF assms(2) report_full(3)] unfolding report_full(1) by blast
next
  case signal
  show ?thesis using step_simple(1) [OF assms(2) signal(2)] unfolding signal(1) by blast
next
  case wait
  show ?thesis using step_simple(2) [OF assms(2) wait(2)] unfolding wait(1) by blast
next
  case wait_failed
  then show ?thesis by simp
next
  case (look pc s)
  show ?thesis using step_look [OF assms(2) look(2,3)] unfolding look(1) by blast
next
  case (write_frame dropped queued acquired write_file released pc s out)
  show ?thesis
  proof (cases "pc = Writer_kExit")
    case True
    then show ?thesis using write_frame(1) by simp
  next
    case False
    show ?thesis using step_write [OF assms(2) write_frame(2,3) False] unfolding write_frame(1) by blast
  qed
next
  case remove
  show ?thesis using step_remove [OF assms(2) remove(2)] unfolding remove(1) by blast
qed

lemma sink_exit_step:
  assumes "sink_step u pid y y'" "sy_pc y = Writer_kExit"
  shows "sy_pc y' = Writer_kExit"
  using assms(1) by (cases rule: sink_step.cases) (use assms(2) in simp_all)

lemma sink_inv_initial: "sink_initial y \<Longrightarrow> sink_inv u pid y [] []"
  using capacity_pos
  by (simp add: sink_initial_def sink_inv_def queue_inv_def history_inv_def writer_inv_def pending_losses_def ring_ok_def
      ring_contents_def item_frames_def)

lemma InitializeEventSink_initial:
  assumes "InitializeEventSink os h m s = (Sink_kSuccess, s')"
    and "es_head s = 0" "es_tail s = 0" "es_count s = 0" "es_next_sequence s = 1" "es_dropped_events s = 0" "\<not> es_writer_failed s"
    and "\<And>r. os_records_memory os = Some r \<Longrightarrow> length r = kQueueCapacity"
    and "\<And>b. os_frame_memory os = Some b \<Longrightarrow> length b = kMaximumFrameLength"
  shows "sink_initial \<lparr>sy_sink = s', sy_pc = Writer_kWait, sy_output = [], sy_wakes = 0, sy_accepted = [], sy_refused = 0\<rparr> \<and>
    es_initialization_state s' = 1"
  using assms by (auto simp: InitializeEventSink_def sink_initial_def Let_def split: if_splits option.splits)

lemma sink_reachable_inv:
  assumes "sink_reachable u pid y" "sy_pc y \<noteq> Writer_kExit"
  shows "\<exists>items Q. sink_inv u pid y items Q"
proof -
  obtain y0 where y0: "sink_initial y0" and steps: "(sink_step u pid)\<^sup>*\<^sup>* y0 y" using assms(1) by (auto simp: sink_reachable_def)
  have "sy_pc y = Writer_kExit \<or> (\<exists>items Q. sink_inv u pid y items Q)"
    using steps
  proof (induction rule: rtranclp_induct)
    case base
    then show ?case using sink_inv_initial [OF y0] by blast
  next
    case (step y y')
    then show ?case using sink_inv_step sink_exit_step by blast
  qed
  then show ?thesis using assms(2) by blast
qed

section \<open>Draining the queue\<close>

lemma WriterStep_step:
  "WriterStep u pid y = y \<or> sink_step u pid y (WriterStep u pid y)"
proof (cases "sy_pc y")
  case Writer_kWait
  then show ?thesis using sink_step.wait [OF Writer_kWait] by (simp add: WriterStep_def)
next
  case Writer_kLook
  obtain pc s where l: "WriterLook (sy_sink y) = (pc, s)" by fastforce
  show ?thesis using sink_step.look [OF Writer_kLook l] by (simp add: WriterStep_def Writer_kLook l)
next
  case (Writer_kWrite d q)
  obtain pc s out where l: "WriterWrite u pid True (\<lambda>r. Some (length r)) True d q (sy_sink y) = (pc, s, out)"
    using prod_cases3 by blast
  show ?thesis using sink_step.write_frame [OF Writer_kWrite l] by (simp add: WriterStep_def Writer_kWrite l)
next
  case Writer_kRemove
  then show ?thesis using sink_step.remove [OF Writer_kRemove] by (simp add: WriterStep_def)
next
  case Writer_kExit
  then show ?thesis by (simp add: WriterStep_def)
qed

lemma WriteExact_all: "WriteExact (\<lambda>r. Some (length r)) bs = (True, bs)"
  by (subst WriteExact.simps, subst WriteExact.simps) simp

lemma encoded_frame_ok:
  "24 + length p \<le> length out \<Longrightarrow> \<exists>b n. encoded_frame k q p out = (Encode_kSuccess, b, n)"
  by (simp add: encoded_frame_def Let_def)

lemma EncodeQueued_ok:
  assumes "report_valid u report" "report_encodable pid report" "length out = kMaximumFrameLength" "q \<noteq> 0"
  shows "\<exists>b n. EncodeQueued u (report_fill pid report x) q out = (Encode_kSuccess, b, n)"
proof (cases report)
  case (Report_filesystem operation path)
  then obtain p where p: "path = Some p" "take (BoundedPathLength path) p = c_str p" "c_str p \<noteq> []" "length (c_str p) \<le> 32767"
    using assms(1) by (cases path) (auto simp: BoundedPathLength_eq take_c_str split: if_splits)
  have "24 + length (filesystem_payload pid operation (c_str p)) \<le> length out"
    using p(4) assms(3) by (simp add: filesystem_payload_def kMaximumFrameLength_def)
  then show ?thesis
    using assms(2) p encoded_frame_ok [of "filesystem_payload pid operation (c_str p)" out 2 q]
    by (simp add: Report_filesystem EncodeQueued_def EncodeFilesystemViolationFrame_eq FilesystemViolationFrameLength_eq not_less)
next
  case (Report_process operation)
  then show ?thesis
    using assms(2,3) encoded_frame_ok [of "process_payload pid operation" out 8 q]
    by (simp add: EncodeQueued_def EncodeProcessViolationFrame_eq process_payload_def kMaximumFrameLength_def not_less)
next
  case (Report_registry operation key)
  then obtain k where k: "key = Some k" "c_str k \<noteq> []" "length (c_str k) \<le> 4096" "u (c_str k)"
    using assms(1) by (cases key) (auto simp: RegistryViolationFrameLength_eq split: if_splits)
  have "24 + length (registry_payload pid operation (c_str k)) \<le> length out"
    using k(3) assms(3) by (simp add: registry_payload_def kMaximumFrameLength_def)
  then show ?thesis
    using assms(2) k encoded_frame_ok [of "registry_payload pid operation (c_str k)" out 3 q] Report_registry
    by (simp add: EncodeQueued_def EncodeRegistryViolationFrame_eq RegistryViolationFrameLength_eq not_less)
next
  case (Report_child child reason)
  then show ?thesis
    using assms encoded_frame_ok [of "child_payload pid child reason" out 6 q]
    by (simp add: EncodeQueued_def EncodeChildInjectionFailureFrame_eq child_payload_def kMaximumFrameLength_def not_less)
next
  case (Report_network operation e)
  then have "length (ep_address e) = 16" using assms(1) by simp
  then show ?thesis
    using assms(2,3) encoded_frame_ok [of "network_payload pid operation e" out 4 q] Report_network
    by (auto simp: EncodeQueued_def EncodeNetworkViolationFrame_eq network_payload_def address_bytes_def
        kMaximumFrameLength_def not_less)
next
  case (Report_domain operation d)
  then obtain k where k: "d = Some k" "domain_ok (c_str k)"
    using assms(1) by (cases d) (auto simp: DomainNetworkViolationFrameLength_eq split: if_splits)
  have "24 + length (domain_payload pid operation (c_str k)) \<le> length out"
    using k(2) assms(3) by (simp add: domain_payload_def domain_ok_def kMaximumFrameLength_def)
  then show ?thesis
    using assms(2) k encoded_frame_ok [of "domain_payload pid operation (c_str k)" out 4 q] Report_domain
    by (simp add: EncodeQueued_def EncodeDomainNetworkViolationFrame_eq DomainNetworkViolationFrameLength_eq not_less)
qed

lemma WriterWrite_ok:
  assumes inv: "sink_inv u pid y items Q" and pc: "sy_pc y = Writer_kWrite dropped queued"
    and enc: "\<forall>r \<in> set (unwritten y Q). report_encodable pid r" and room: "length items < 2 ^ 64 - 2"
  shows "fst (WriterWrite u pid True (\<lambda>r. Some (length r)) True dropped queued (sy_sink y)) =
    (if dropped \<noteq> None then Writer_kLook else Writer_kRemove)"
proof -
  let ?s = "sy_sink y"
  have seq: "es_next_sequence ?s = of_nat (Suc (length items))" using inv by (simp add: sink_inv_def history_inv_def)
  have u: "unat (es_next_sequence ?s) = Suc (length items)" unfolding seq by (rule unat_of_nat_less) (use room in simp)
  have q: "es_next_sequence ?s \<noteq> - 1" using u room unat_minus_1 by auto
  have q0: "es_next_sequence ?s \<noteq> 0" using u by auto
  have buf: "length (es_frame_buffer ?s) = kMaximumFrameLength" using inv by (simp add: sink_inv_def queue_inv_def)
  have n: "dropped \<noteq> Some 0" using inv pc by (auto simp: sink_inv_def writer_inv_def)
  have "\<exists>b n. (case dropped of
      Some n \<Rightarrow> EncodeEventsDroppedFrame pid n (es_next_sequence ?s) (Some (es_frame_buffer ?s))
    | None \<Rightarrow> EncodeQueued u (es_records ?s ! queued) (es_next_sequence ?s) (es_frame_buffer ?s)) = (Encode_kSuccess, b, n)"
  proof (cases dropped)
    case None
    then have Q: "Q \<noteq> []" "queued = es_head ?s" using inv pc by (simp_all add: sink_inv_def writer_inv_def)
    obtain x where x: "report_valid u (hd Q)" "es_records ?s ! es_head ?s = report_fill pid (hd Q) x"
      using ring_front [OF _ Q(1)] inv unfolding sink_inv_def by blast
    have "report_encodable pid (hd Q)" using enc Q(1) pc by (simp add: unwritten_def)
    then show ?thesis using EncodeQueued_ok [OF x(1) _ buf q0] x(2) Q(2) None by simp
  next
    case (Some m)
    then show ?thesis
      using n encoded_frame_ok [of "dropped_payload pid m" "es_frame_buffer ?s" 9 "es_next_sequence ?s"] buf
      by (simp add: EncodeEventsDroppedFrame_eq dropped_payload_def kMaximumFrameLength_def)
  qed
  then obtain b n where e: "(case dropped of
      Some n \<Rightarrow> EncodeEventsDroppedFrame pid n (es_next_sequence ?s) (Some (es_frame_buffer ?s))
    | None \<Rightarrow> EncodeQueued u (es_records ?s ! queued) (es_next_sequence ?s) (es_frame_buffer ?s)) = (Encode_kSuccess, b, n)"
    by blast
  show ?thesis
    using q e by (cases dropped) (simp_all add: WriterWrite_def AcquireWriteSequence_def Let_def WriteExact_all)
qed

lemma WriterStep_progress:
  assumes inv: "sink_inv u pid y items Q" and enc: "\<forall>r \<in> set (unwritten y Q). report_encodable pid r"
    and room: "length items < 2 ^ 64 - 2" and busy: "0 < drain_measure y"
  shows "sy_pc (WriterStep u pid y) \<noteq> Writer_kExit \<and> drain_measure (WriterStep u pid y) < drain_measure y"
proof (cases "sy_pc y")
  case Writer_kWait
  then show ?thesis using busy by (auto simp: WriterStep_def drain_measure_def Let_def split: if_splits)
next
  case Writer_kLook
  then show ?thesis by (auto simp: WriterStep_def drain_measure_def Let_def WriterLook_def)
next
  case (Writer_kWrite dropped queued)
  obtain pc s out where w: "WriterWrite u pid True (\<lambda>r. Some (length r)) True dropped queued (sy_sink y) = (pc, s, out)"
    using prod_cases3 by blast
  have pc: "pc = (if dropped \<noteq> None then Writer_kLook else Writer_kRemove)"
    using WriterWrite_ok [OF inv Writer_kWrite enc room] by (simp add: w)
  then have "pc \<noteq> Writer_kExit" by simp
  from WriterWrite_success(4) [OF w this] obtain buffer where
    s: "s = (sy_sink y)\<lparr>es_next_sequence := es_next_sequence (sy_sink y) + 1, es_frame_buffer := buffer\<rparr>"
    by (elim exE conjE)
  have c: "0 < es_count (sy_sink y)" if "dropped = None"
    using inv that Writer_kWrite queue_inv_count [of u pid "sy_sink y" Q]
    by (auto simp: sink_inv_def writer_inv_def simp flip: length_greater_0_conv)
  show ?thesis
    using Writer_kWrite w pc s c by (cases dropped) (auto simp: WriterStep_def drain_measure_def Let_def)
next
  case Writer_kRemove
  then have "0 < es_count (sy_sink y)"
    using inv queue_inv_count [of u pid "sy_sink y" Q]
    by (auto simp: sink_inv_def writer_inv_def simp flip: length_greater_0_conv)
  then show ?thesis using Writer_kRemove by (auto simp: WriterStep_def drain_measure_def Let_def WriterRemove_def)
next
  case Writer_kExit
  then show ?thesis using inv by (simp add: sink_inv_def writer_inv_def)
qed

lemma WriterStep_frame [simp]:
  "sy_accepted (WriterStep u pid y) = sy_accepted y" "sy_wakes (WriterStep u pid y) = sy_wakes y"
  "sy_refused (WriterStep u pid y) = sy_refused y"
  "length (sy_output (WriterStep u pid y)) \<le> Suc (length (sy_output y))"
  by (simp_all add: WriterStep_def Let_def split: WriterPc.split prod.split)

lemma WriterStep_initialization [simp]:
  "es_initialization_state (sy_sink (WriterStep u pid y)) = es_initialization_state (sy_sink y)"
  by (auto simp: WriterStep_def Let_def WriterLook_def WriterWrite_def WriterRemove_def AcquireWriteSequence_def FailWriter_def
      split: WriterPc.split prod.split option.split if_splits)

lemma WriterStep_initialized:
  "es_initialization_state (sy_sink ((WriterStep u pid ^^ n) y)) = es_initialization_state (sy_sink y)"
  by (induction n) simp_all

lemma WriterStep_stays: "drain_measure y = 0 \<Longrightarrow> sy_pc y = Writer_kWait \<Longrightarrow> WriterStep u pid y = y"
  by (simp add: WriterStep_def drain_measure_def split: if_splits)

lemma drain_measure_zero:
  assumes "sink_inv u pid y items Q" "drain_measure y = 0"
  shows "sy_pc y = Writer_kWait \<and> \<not> es_wake (sy_sink y)"
proof -
  have "sy_pc y \<noteq> Writer_kExit" "0 < es_count (sy_sink y)" if "sy_pc y = Writer_kRemove \<or> (\<exists>q. sy_pc y = Writer_kWrite None q)"
    using assms(1) that queue_inv_count [of u pid "sy_sink y" Q]
    by (auto simp: sink_inv_def writer_inv_def simp flip: length_greater_0_conv)
  moreover have "sy_pc y \<noteq> Writer_kExit" using assms(1) by (auto simp: sink_inv_def writer_inv_def)
  ultimately show ?thesis using assms(2)
    by (cases "sy_pc y") (auto simp: drain_measure_def Let_def split: if_splits option.splits)
qed

lemma drain_measure_bound: "sink_inv u pid y items Q \<Longrightarrow> drain_measure y \<le> 198"
  using queue_inv_count [of u pid "sy_sink y" Q]
  by (auto simp: sink_inv_def queue_inv_def ring_ok_def kQueueCapacity_def drain_measure_def Let_def
      split: WriterPc.split option.split)

lemma drains:
  assumes "sink_inv u pid y items Q" "\<forall>r \<in> set (sy_accepted y). report_encodable pid r"
    "length (sy_output y) + n < 2 ^ 64 - 2" "drain_measure y \<le> n"
  shows "\<exists>items Q. sink_inv u pid ((WriterStep u pid ^^ n) y) items Q \<and> drain_measure ((WriterStep u pid ^^ n) y) = 0 \<and>
    sy_accepted ((WriterStep u pid ^^ n) y) = sy_accepted y \<and> sy_wakes ((WriterStep u pid ^^ n) y) = sy_wakes y \<and>
    sy_refused ((WriterStep u pid ^^ n) y) = sy_refused y"
  using assms
proof (induction n arbitrary: y items Q)
  case 0
  then show ?case by auto
next
  case (Suc n)
  let ?y = "WriterStep u pid y"
  have h: "history_inv pid y items Q" using Suc.prems(1) by (simp add: sink_inv_def)
  have len: "length items = length (sy_output y)" using h by (simp add: history_inv_def)
  have enc: "\<forall>r \<in> set (unwritten y Q). report_encodable pid r"
    using h Suc.prems(2) by (auto simp: history_inv_def unwritten_def)
  have step: "\<exists>items Q. sink_inv u pid ?y items Q \<and> drain_measure ?y \<le> n"
  proof (cases "drain_measure y = 0")
    case True
    then have "?y = y" using drain_measure_zero [OF Suc.prems(1)] by (intro WriterStep_stays) simp_all
    then show ?thesis using Suc.prems(1) True by auto
  next
    case False
    have p: "sy_pc ?y \<noteq> Writer_kExit \<and> drain_measure ?y < drain_measure y"
      by (rule WriterStep_progress [OF Suc.prems(1) enc]) (use len Suc.prems(3) False in simp_all)
    then have "sink_step u pid y ?y" using WriterStep_step [of u pid y] by auto
    from sink_inv_step [OF this Suc.prems(1)] p Suc.prems(4) show ?thesis by auto
  qed
  then obtain items' Q' where *: "sink_inv u pid ?y items' Q'" "drain_measure ?y \<le> n" by blast
  have "length (sy_output ?y) + n < 2 ^ 64 - 2"
    using Suc.prems(3) WriterStep_frame(4) [of u pid y] by linarith
  from Suc.IH [OF *(1) _ this *(2)] Suc.prems(2) show ?case
    by (simp add: funpow_Suc_right del: funpow.simps)
qed

lemma TryReport_steps:
  assumes "\<And>operation e. report = Report_network operation e \<Longrightarrow> length (ep_address e) = 16"
    and t: "TryReport u pid report (sy_sink y) = (accepted, s)"
  shows "\<exists>y'. (sink_step u pid)\<^sup>*\<^sup>* y y' \<and> sy_sink y' = s \<and>
    sy_accepted y' = sy_accepted y @ (if accepted then [report] else [])"
proof (cases "SinkAccepts (sy_sink y) \<and> report_valid u report")
  case False
  then show ?thesis using t by (intro exI [of _ y]) (auto simp: TryReport_eq [OF assms(1)])
next
  case True
  obtain a s1 where e: "EnqueueRecord (report_fill pid report) (sy_sink y) = (a, s1)" by fastforce
  have t': "accepted = a" "s = (if a then s1\<lparr>es_wake := True\<rparr> else s1)"
    using t True e by (auto simp: TryReport_eq [OF assms(1)] EnqueueAndWake_def split: if_splits)
  show ?thesis
  proof (cases a)
    case False
    have "sink_step u pid y (y\<lparr>sy_sink := s1, sy_refused := sy_refused y + 1\<rparr>)"
      using sink_step.report_full [of u report pid y s1] True e False by simp
    then have "(sink_step u pid)\<^sup>*\<^sup>* y (y\<lparr>sy_sink := s1, sy_refused := sy_refused y + 1\<rparr>)" ..
    then show ?thesis by (intro exI [of _ "y\<lparr>sy_sink := s1, sy_refused := sy_refused y + 1\<rparr>"]) (simp add: t' False)
  next
    case a: True
    let ?y = "y\<lparr>sy_sink := s1, sy_wakes := sy_wakes y + 1, sy_accepted := sy_accepted y @ [report]\<rparr>"
    let ?z = "?y\<lparr>sy_sink := (sy_sink ?y)\<lparr>es_wake := True\<rparr>, sy_wakes := sy_wakes ?y - 1\<rparr>"
    have "sink_step u pid y ?y" using sink_step.report [of u report pid y s1] True e a by simp
    moreover have "sink_step u pid ?y ?z" by (rule sink_step.signal) simp
    ultimately have "(sink_step u pid)\<^sup>*\<^sup>* y ?z" by (meson r_into_rtranclp rtranclp_trans)
    then show ?thesis by (intro exI [of _ ?z]) (simp add: t' a)
  qed
qed

section \<open>Properties\<close>

lemma example_reported_reachable: "sink_reachable (\<lambda>_. True) 7 example_reported"
proof -
  let ?y = "example_sink\<lparr>sy_sink := snd (EnqueueRecord (report_fill 7 example_report) (sy_sink example_sink)),
    sy_wakes := sy_wakes example_sink + 1, sy_accepted := sy_accepted example_sink @ [example_report]\<rparr>"
  have "sink_initial example_sink" by (simp add: sink_initial_def example_sink_def)
  moreover have "sink_step (\<lambda>_. True) 7 example_sink ?y"
    by (rule sink_step.report) (simp_all add: example_report_def EnqueueRecord_def example_sink_def kQueueCapacity_def)
  moreover have "sink_step (\<lambda>_. True) 7 ?y example_reported"
    using sink_step.signal [of ?y "\<lambda>_. True" 7] by (simp add: example_reported_def Let_def)
  ultimately show ?thesis unfolding sink_reachable_def
    by (intro exI [of _ example_sink] conjI) (auto intro: rtranclp.rtrancl_into_rtrancl)
qed

lemma example_reported_fields:
  "sy_pc example_reported = Writer_kWait" "sy_wakes example_reported = 0" "sy_accepted example_reported = [example_report]"
  "sy_output example_reported = []" "sy_refused example_reported = 0" "es_dropped_events (sy_sink example_reported) = 0"
  "es_initialization_state (sy_sink example_reported) = 1"
  by (simp_all add: example_reported_def example_sink_def EnqueueRecord_def kQueueCapacity_def)

text \<open>C3. The event sink never loses an event silently, for any number of reporting threads interleaved with the writer
  thread. As long as the writer has not failed, the output is a sequence of complete frames numbered 1, 2, 3 and so on;
  the accepted reports are, in the order in which they were accepted, the ones framed so far followed by at most
  \<open>kQueueCapacity\<close> pending ones; and until the counter saturates, the losses announced by events-dropped frames together
  with the ones still to announce are exactly the refused reports. If the idle event is set nothing is pending, and the
  writer never sleeps on pending reports: when it waits, no wake-up is set or still to be given, then everything is
  written. Every reporting call, run without interruption, is a sequence of steps of this system and returns true
  exactly if its report was accepted.\<close>

theorem event_sink_accounting:
  assumes "sink_reachable is_utf8 pid y" "sy_pc y \<noteq> Writer_kExit"
  shows "(\<exists>items pending.
      sy_output y = item_frames pid items \<and>
      sy_accepted y = item_events items @ pending \<and> length pending \<le> kQueueCapacity \<and>
      (sy_refused y < 2 ^ 64 - 1 \<longrightarrow> item_losses items + pending_losses y = sy_refused y) \<and>
      (es_idle (sy_sink y) \<or> (sy_pc y = Writer_kWait \<and> \<not> es_wake (sy_sink y) \<and> sy_wakes y = 0) \<longrightarrow>
        pending = [] \<and> pending_losses y = 0)) \<and>
    (\<forall>report accepted s. (\<forall>operation e. report = Report_network operation e \<longrightarrow> length (ep_address e) = 16) \<longrightarrow>
      TryReport is_utf8 pid report (sy_sink y) = (accepted, s) \<longrightarrow>
      (\<exists>y'. (sink_step is_utf8 pid)\<^sup>*\<^sup>* y y' \<and> sy_sink y' = s \<and>
        sy_accepted y' = sy_accepted y @ (if accepted then [report] else [])))"
proof -
  obtain items Q where inv: "sink_inv is_utf8 pid y items Q" using sink_reachable_inv [OF assms] by blast
  have q: "length Q \<le> kQueueCapacity"
    using inv queue_inv_count [of is_utf8 pid "sy_sink y" Q] by (simp add: sink_inv_def queue_inv_def ring_ok_def)
  have h: "history_inv pid y items Q" and w: "writer_inv y Q" using inv by (simp_all add: sink_inv_def)
  have "sy_accepted y = item_events items @ unwritten y Q" "sy_output y = item_frames pid items"
    "sy_refused y < 2 ^ 64 - 1 \<longrightarrow> item_losses items + pending_losses y = sy_refused y"
    using h by (simp_all add: history_inv_def unwritten_def)
  moreover have "length (unwritten y Q) \<le> kQueueCapacity" using q by (auto simp: unwritten_def)
  moreover have "es_idle (sy_sink y) \<or> (sy_pc y = Writer_kWait \<and> \<not> es_wake (sy_sink y) \<and> sy_wakes y = 0) \<longrightarrow>
      unwritten y Q = [] \<and> pending_losses y = 0"
    using w by (auto simp: writer_inv_def unwritten_def pending_losses_def)
  ultimately show ?thesis using TryReport_steps by blast
qed

theorem event_sink_accounting_witness:
  "sy_output example_reported = [] \<and> (\<exists>items pending. item_frames 7 items = [] \<and> [example_report] = item_events items @ pending \<and>
    item_losses items = 0)"
proof -
  have "sy_pc example_reported \<noteq> Writer_kExit" "pending_losses example_reported = 0"
    by (simp_all add: example_reported_fields pending_losses_def)
  with event_sink_accounting [OF example_reported_reachable, THEN conjunct1] obtain items pending where
    "sy_output example_reported = item_frames 7 items" "sy_accepted example_reported = item_events items @ pending"
    "sy_refused example_reported < 2 ^ 64 - 1 \<longrightarrow> item_losses items + 0 = sy_refused example_reported"
    by auto
  then show ?thesis by (intro conjI exI [of _ items] exI [of _ pending]) (simp_all add: example_reported_fields)
qed

text \<open>C38. The writer drains the queue: from every reachable state in which no reporting thread still has to signal,
  if every accepted report carries an operation (and, for a network report, an address family) the protocol knows and
  the sequence numbers are not nearly exhausted, at most 198 uninterrupted and successful turns of its loop bring it to
  rest with the idle event set. Then all accepted reports are in the output, each exactly once and in order, all refused
  ones are announced, \<open>WaitForEventSinkIdle\<close> reports success, and further turns change nothing.\<close>

theorem event_sink_drains:
  assumes "sink_reachable is_utf8 pid y" "sy_pc y \<noteq> Writer_kExit" "sy_wakes y = 0"
    and "\<forall>report \<in> set (sy_accepted y). report_encodable pid report"
    and "length (sy_output y) + n < 2 ^ 64 - 2" "198 \<le> n" "es_initialization_state (sy_sink y) = 1"
  shows "sy_pc ((WriterStep is_utf8 pid ^^ n) y) = Writer_kWait \<and>
    es_idle (sy_sink ((WriterStep is_utf8 pid ^^ n) y)) \<and>
    WaitForEventSinkIdle (es_idle (sy_sink ((WriterStep is_utf8 pid ^^ n) y))) (sy_sink ((WriterStep is_utf8 pid ^^ n) y)) \<and>
    WriterStep is_utf8 pid ((WriterStep is_utf8 pid ^^ n) y) = (WriterStep is_utf8 pid ^^ n) y \<and>
    (\<exists>items. sy_output ((WriterStep is_utf8 pid ^^ n) y) = item_frames pid items \<and> item_events items = sy_accepted y \<and>
      (sy_refused y < 2 ^ 64 - 1 \<longrightarrow> item_losses items = sy_refused y))"
proof -
  let ?y = "(WriterStep is_utf8 pid ^^ n) y"
  obtain items0 Q0 where inv0: "sink_inv is_utf8 pid y items0 Q0" using sink_reachable_inv [OF assms(1,2)] by blast
  have "drain_measure y \<le> n" using drain_measure_bound [OF inv0] assms(6) by simp
  from drains [OF inv0 assms(4,5) this] obtain items Q where inv: "sink_inv is_utf8 pid ?y items Q"
    and m: "drain_measure ?y = 0" and same: "sy_accepted ?y = sy_accepted y" "sy_wakes ?y = sy_wakes y" "sy_refused ?y = sy_refused y"
    by blast
  have pc: "sy_pc ?y = Writer_kWait" "\<not> es_wake (sy_sink ?y)" using drain_measure_zero [OF inv m] by simp_all
  have w: "writer_inv ?y Q" and h: "history_inv pid ?y items Q" and q: "\<not> es_writer_failed (sy_sink ?y)"
    using inv by (simp_all add: sink_inv_def queue_inv_def)
  have Q: "Q = []" "es_idle (sy_sink ?y)" using w pc same(2) assms(3) by (auto simp: writer_inv_def)
  have "pending_losses ?y = 0" using w Q by (simp add: writer_inv_def)
  then have "sy_output ?y = item_frames pid items" "item_events items = sy_accepted y"
    "sy_refused y < 2 ^ 64 - 1 \<longrightarrow> item_losses items = sy_refused y"
    using h Q pc same by (simp_all add: history_inv_def)
  moreover have "es_initialization_state (sy_sink ?y) = 1" using assms(7) by (simp add: WriterStep_initialized)
  ultimately show ?thesis using pc Q q WriterStep_stays [OF m pc(1)] by (auto simp: WaitForEventSinkIdle_def)
qed

theorem event_sink_drains_witness:
  "sy_pc ((WriterStep (\<lambda>_. True) 7 ^^ 198) example_reported) = Writer_kWait \<and>
   (\<exists>items. sy_output ((WriterStep (\<lambda>_. True) 7 ^^ 198) example_reported) = item_frames 7 items \<and>
     item_events items = [Report_process 0] \<and> item_losses items = 0)"
  using event_sink_drains [OF example_reported_reachable, of 198]
  by (simp add: example_reported_fields example_report_def)

end
