(* ===== verification/DnsRecords.thy ===== *)
theory DnsRecords
  imports ProxyServer
begin

text \<open>
  \<open>src/native/hook/network/dns_record_parser.cpp\<close>, \<open>system_dns_resolver.cpp\<close> and
  \<open>bounded_dns_resolver.cpp\<close>: how the proxy turns the answer of the operating system to a DNS
  query into addresses.  The records are nodes of a linked list in memory; the memory is a
  function from addresses to records, and the null pointer is \<open>None\<close>.  \<open>DnsQuery_A\<close> is a
  parameter.  Allocation succeeds.

  Shown: \<open>CanonicalizeName\<close> computes the lower-case form of exactly the names of the label
  grammar; the check of the list terminates and accepts exactly the lists that end within
  \<open>kMaximumRecords\<close> nodes; the collected addresses are exactly the answers at the end of a
  chain of aliases without cycles and ambiguities.
\<close>

section \<open>Definitions\<close>

subsection \<open>Names\<close>

text \<open>The loop over the bytes; the result is \<open>canonical\<close> where the function returns true.\<close>

fun CanonicalizeBytes :: "bytes \<Rightarrow> bytes \<Rightarrow> nat \<Rightarrow> bytes option" where
  "CanonicalizeBytes [] canonical label_size =
     (if label_size \<noteq> 0 \<and> label_size \<le> 63 \<and> last canonical \<noteq> chr_hyphen then Some canonical else None)"
| "CanonicalizeBytes (byte # rest) canonical label_size =
     (if byte = chr_dot then
        if label_size = 0 \<or> 63 < label_size \<or> last canonical = chr_hyphen then None
        else CanonicalizeBytes rest (canonical @ [chr_dot]) 0
      else
        let lowered = tolower byte
        in if \<not> (is_lower lowered \<or> is_digit lowered \<or> lowered = chr_hyphen) \<or>
              (label_size = 0 \<and> lowered = chr_hyphen)
           then None
           else CanonicalizeBytes rest (canonical @ [lowered]) (label_size + 1))"

definition CanonicalizeName :: "char_ptr \<Rightarrow> bytes option" where
  "CanonicalizeName ptr =
     (case ptr of
        None \<Rightarrow> None
      | Some name \<Rightarrow>
          let length1 = bounded_scan 254 0 name
          in if length1 = 0 \<or> 254 < length1 then None
             else let length2 = (if name ! (length1 - 1) = chr_dot then length1 - 1 else length1)
                  in if length2 = 0 \<or> 253 < length2 \<or> name ! (length2 - 1) = chr_dot then None
                     else CanonicalizeBytes (take length2 name) [] 0)"

subsection \<open>Record lists\<close>

definition kMaximumCnameDepth :: nat where "kMaximumCnameDepth = 16"
definition kMaximumRecords :: nat where "kMaximumRecords = 1024"

abbreviation (input) DNS_TYPE_A :: u16 where "DNS_TYPE_A \<equiv> 1"
abbreviation (input) DNS_TYPE_CNAME :: u16 where "DNS_TYPE_CNAME \<equiv> 5"
abbreviation (input) DNS_TYPE_AAAA :: u16 where "DNS_TYPE_AAAA \<equiv> 28"

type_synonym record_ptr = "nat option"

text \<open>A record of \<open>windns.h\<close> with the members of its union that the code reads.\<close>

record DNS_RECORD =
  pNext :: record_ptr
  pName :: char_ptr
  wType :: u16
  dwTtl :: u32
  cname_host :: char_ptr
  a_address :: u32
  aaaa_byte :: "nat \<Rightarrow> u8"

type_synonym record_memory = "nat \<Rightarrow> DNS_RECORD"

text \<open>\<open>if (p != nullptr) p = p->pNext\<close>.\<close>

definition next_record :: "record_memory \<Rightarrow> record_ptr \<Rightarrow> record_ptr" where
  "next_record memory p = (case p of None \<Rightarrow> None | Some a \<Rightarrow> pNext (memory a))"

function RecordListLoop :: "record_memory \<Rightarrow> nat \<Rightarrow> record_ptr \<Rightarrow> record_ptr \<Rightarrow> bool" where
  "RecordListLoop memory count slow fast =
     (if slow = None then True
      else if kMaximumRecords < count + 1 then False
      else
        let slow = next_record memory slow;
            fast = next_record memory fast;
            fast = next_record memory fast
        in if slow \<noteq> None \<and> slow = fast then False
           else RecordListLoop memory (count + 1) slow fast)"
  by pat_completeness auto
termination
  by (relation "measure (\<lambda>(memory, count, slow, fast). kMaximumRecords - count)") auto

definition RecordListIsBoundedAndAcyclic :: "record_memory \<Rightarrow> record_ptr \<Rightarrow> bool" where
  "RecordListIsBoundedAndAcyclic memory records = RecordListLoop memory 0 records records"

text \<open>
  The records a loop \<open>for (record = records; record != nullptr; record = record->pNext)\<close>
  visits in at most \<open>n\<close> rounds.  After the check \<open>kMaximumRecords\<close> rounds are all of them.
\<close>

primrec RecordWalk :: "record_memory \<Rightarrow> nat \<Rightarrow> record_ptr \<Rightarrow> DNS_RECORD list" where
  "RecordWalk memory 0 p = []"
| "RecordWalk memory (Suc n) p =
     (case p of None \<Rightarrow> [] | Some a \<Rightarrow> memory a # RecordWalk memory n (pNext (memory a)))"

subsection \<open>Collecting the addresses\<close>

datatype DnsRecordParseStatus = Parse_kSuccess | Parse_kNotFound | Parse_kInvalid

definition record_address :: "u16 \<Rightarrow> DNS_RECORD \<Rightarrow> DnsProxyAddress" where
  "record_address query_type r =
     (if query_type = DNS_TYPE_A
      then \<lparr>da_family = DnsProxyAddressFamily_kIpv4, da_address = le_bytes 4 (a_address r) @ zeros 12, da_ttl = dwTtl r\<rparr>
      else \<lparr>da_family = DnsProxyAddressFamily_kIpv6, da_address = map (aaaa_byte r) [0..<16], da_ttl = dwTtl r\<rparr>)"

text \<open>
  The inner loop for the name \<open>current\<close>; the alias is \<open>Some cname_target\<close> once
  \<open>cname_present\<close> is set, and the result is \<open>None\<close> where the function returns \<open>kInvalid\<close>.
\<close>

fun CollectRecords ::
  "u16 \<Rightarrow> bytes \<Rightarrow> DNS_RECORD list \<Rightarrow> bytes option \<Rightarrow> DnsProxyAddress list \<Rightarrow>
   (bytes option \<times> DnsProxyAddress list) option"
where
  "CollectRecords query_type current [] cname found = Some (cname, found)"
| "CollectRecords query_type current (r # rs) cname found =
     (if CanonicalizeName (pName r) \<noteq> Some current
      then CollectRecords query_type current rs cname found
      else if wType r = DNS_TYPE_CNAME then
        (case CanonicalizeName (cname_host r) of
           None \<Rightarrow> None
         | Some target \<Rightarrow>
             if cname \<noteq> None \<and> cname \<noteq> Some target then None
             else CollectRecords query_type current rs (Some target) found)
      else if wType r \<noteq> query_type \<or> dwTtl r = 0
      then CollectRecords query_type current rs cname found
      else
        let address = record_address query_type r
        in if address \<in> set found then CollectRecords query_type current rs cname found
           else if length found = kDnsProxyMaximumAddressRecords then None
           else CollectRecords query_type current rs cname (found @ [address]))"

text \<open>The outer loop; \<open>visited\<close> lists the entries 0 to \<open>depth\<close> of the array.\<close>

function FollowAliases ::
  "u16 \<Rightarrow> DNS_RECORD list \<Rightarrow> nat \<Rightarrow> bytes \<Rightarrow> bytes list \<Rightarrow> DnsProxyAddress list \<Rightarrow>
   DnsRecordParseStatus \<times> DnsProxyAddress list"
where
  "FollowAliases query_type records depth current visited found =
     (if kMaximumCnameDepth < depth then (Parse_kInvalid, [])
      else case CollectRecords query_type current records None found of
        None \<Rightarrow> (Parse_kInvalid, [])
      | Some (cname, found) \<Rightarrow>
          if found \<noteq> [] then
            if cname \<noteq> None then (Parse_kInvalid, []) else (Parse_kSuccess, found)
          else
            (case cname of
               None \<Rightarrow> (Parse_kNotFound, found)
             | Some target \<Rightarrow>
                 if depth = kMaximumCnameDepth \<or> target \<in> set visited then (Parse_kInvalid, found)
                 else FollowAliases query_type records (depth + 1) target (visited @ [target]) found))"
  by pat_completeness auto
termination
  by (relation "measure (\<lambda>(query_type, records, depth, current, visited, found). kMaximumCnameDepth - depth)") auto

definition CollectValidatedDnsAddresses ::
  "char_ptr \<Rightarrow> u16 \<Rightarrow> record_memory \<Rightarrow> record_ptr \<Rightarrow> DnsRecordParseStatus \<times> DnsProxyAddress list"
where
  "CollectValidatedDnsAddresses query_domain query_type memory records =
     (if (query_type \<noteq> DNS_TYPE_A \<and> query_type \<noteq> DNS_TYPE_AAAA) \<or> \<not> RecordListIsBoundedAndAcyclic memory records
      then (Parse_kInvalid, [])
      else case CanonicalizeName query_domain of
        None \<Rightarrow> (Parse_kInvalid, [])
      | Some current \<Rightarrow>
          FollowAliases query_type (RecordWalk memory kMaximumRecords records) 0 current [current] [])"

subsection \<open>The resolvers\<close>

text \<open>\<open>DnsQuery_A\<close>: the status, the memory with the records and the pointer to the first one.\<close>

type_synonym dns_query = "bytes \<Rightarrow> u16 \<Rightarrow> u32 \<times> record_memory \<times> record_ptr"

abbreviation (input) DNS_SUCCESS :: u32 where "DNS_SUCCESS \<equiv> 0"
abbreviation (input) DNS_ERROR_RCODE_NAME_ERROR :: u32 where "DNS_ERROR_RCODE_NAME_ERROR \<equiv> 9003"
abbreviation (input) DNS_INFO_NO_RECORDS :: u32 where "DNS_INFO_NO_RECORDS \<equiv> 9501"

text \<open>The loop that merges the parsed addresses; \<open>None\<close> where it runs into the limit.\<close>

fun MergeAddresses :: "DnsProxyAddress list \<Rightarrow> DnsProxyAddress list \<Rightarrow> DnsProxyAddress list option" where
  "MergeAddresses [] found = Some found"
| "MergeAddresses (address # parsed) found =
     (if address \<in> set found then MergeAddresses parsed found
      else if length found = kDnsProxyMaximumAddressRecords then None
      else MergeAddresses parsed (found @ [address]))"

definition Query ::
  "dns_query \<Rightarrow> bytes \<Rightarrow> u16 \<Rightarrow> DnsProxyAddress list \<Rightarrow> (u32 \<times> DnsRecordParseStatus) \<times> DnsProxyAddress list"
where
  "Query dns_query domain type found =
     (let (status, memory, records) = dns_query domain type
      in if status \<noteq> DNS_SUCCESS then ((status, Parse_kNotFound), found)
         else
           let (parse_status, parsed) = CollectValidatedDnsAddresses (Some domain) type memory records
           in if parse_status \<noteq> Parse_kSuccess then ((status, parse_status), found)
              else case MergeAddresses parsed found of
                     None \<Rightarrow> ((status, Parse_kInvalid), [])
                   | Some found \<Rightarrow> ((status, parse_status), found))"

definition SystemDnsResolver_Resolve :: "dns_query \<Rightarrow> bytes \<Rightarrow> u8 \<Rightarrow> u8 \<times> DnsProxyAddress list" where
  "SystemDnsResolver_Resolve dns_query domain family =
     (if c_str domain = [] then (DnsProxyResult_kFailure, [])
      else
        let (ipv4, found) =
              (if family = DnsProxyQueryFamily_kAny \<or> family = DnsProxyQueryFamily_kIpv4
               then Query dns_query domain DNS_TYPE_A []
               else ((DNS_INFO_NO_RECORDS, Parse_kNotFound), []));
            (ipv6, found) =
              (if family = DnsProxyQueryFamily_kAny \<or> family = DnsProxyQueryFamily_kIpv6
               then Query dns_query domain DNS_TYPE_AAAA found
               else ((DNS_INFO_NO_RECORDS, Parse_kNotFound), found))
        in if snd ipv4 = Parse_kInvalid \<or> snd ipv6 = Parse_kInvalid then (DnsProxyResult_kFailure, [])
           else if found \<noteq> [] then (DnsProxyResult_kSuccess, found)
           else if fst ipv4 = DNS_ERROR_RCODE_NAME_ERROR \<or> fst ipv6 = DNS_ERROR_RCODE_NAME_ERROR \<or>
                   fst ipv4 = DNS_INFO_NO_RECORDS \<or> fst ipv6 = DNS_INFO_NO_RECORDS
           then (DnsProxyResult_kNotFound, found)
           else (DnsProxyResult_kFailure, found))"

text \<open>
  One call of the bounded resolver: whether it gets the lock, the flag \<open>poisoned_\<close> after that, whether the
  worker starts and whether it finishes in time.  The result has the flag after the call.
\<close>

datatype worker_outcome = Worker_completed | Worker_late | Worker_exception

record BoundedDnsResolver =
  br_resolver :: "resolver option"
  br_timeout_milliseconds :: u32
  br_poisoned :: bool

definition BoundedDnsResolver_Resolve ::
  "BoundedDnsResolver \<Rightarrow> bool \<Rightarrow> bool \<Rightarrow> worker_outcome \<Rightarrow> char_ptr \<Rightarrow> u8 \<Rightarrow> (u8 \<times> DnsProxyAddress list) \<times> BoundedDnsResolver"
where
  "BoundedDnsResolver_Resolve self owns_lock poisoned_meanwhile outcome domain_ptr family =
     (case (br_resolver self, domain_ptr) of
        (Some resolve, Some domain) \<Rightarrow>
          if br_timeout_milliseconds self = 0 \<or> br_poisoned self then ((DnsProxyResult_kFailure, []), self)
          else
            let self = self\<lparr>br_poisoned := poisoned_meanwhile\<rparr>
            in if \<not> owns_lock \<or> br_poisoned self then ((DnsProxyResult_kFailure, []), self)
               else (case outcome of
                       Worker_completed \<Rightarrow> (resolve (c_str domain) family, self)
                     | Worker_late \<Rightarrow> ((DnsProxyResult_kFailure, []), self\<lparr>br_poisoned := True\<rparr>)
                     | Worker_exception \<Rightarrow> ((DnsProxyResult_kFailure, []), self\<lparr>br_poisoned := True\<rparr>))
      | _ \<Rightarrow> ((DnsProxyResult_kFailure, []), self))"

subsection \<open>Specification\<close>

definition strip_dot :: "bytes \<Rightarrow> bytes" where
  "strip_dot d = (if d \<noteq> [] \<and> last d = chr_dot then butlast d else d)"

definition dns_name :: "bytes \<Rightarrow> bool" where
  "dns_name d = (length d \<le> 253 \<and> list_all label_ok (labels d))"

text \<open>The records of a name, its aliases and its live addresses without repetition.\<close>

definition owned :: "DNS_RECORD list \<Rightarrow> bytes \<Rightarrow> DNS_RECORD list" where
  "owned rs c = filter (\<lambda>r. CanonicalizeName (pName r) = Some c) rs"

definition alias_targets :: "DNS_RECORD list \<Rightarrow> bytes \<Rightarrow> bytes option set" where
  "alias_targets rs c = (\<lambda>r. CanonicalizeName (cname_host r)) ` {r \<in> set (owned rs c). wType r = DNS_TYPE_CNAME}"

definition first_occurrences :: "'a list \<Rightarrow> 'a list" where
  "first_occurrences xs = rev (remdups (rev xs))"

definition answers :: "u16 \<Rightarrow> DNS_RECORD list \<Rightarrow> bytes \<Rightarrow> DnsProxyAddress list" where
  "answers t rs c = first_occurrences (map (record_address t) (filter (\<lambda>r. wType r = t \<and> dwTtl r \<noteq> 0) (owned rs c)))"

text \<open>A path of aliases: each name before the last has no address and a single alias, the next name.\<close>

fun alias_path :: "u16 \<Rightarrow> DNS_RECORD list \<Rightarrow> bytes list \<Rightarrow> bool" where
  "alias_path t rs [] = False"
| "alias_path t rs [c] = True"
| "alias_path t rs (c # d # names) =
     (answers t rs c = [] \<and> alias_targets rs c = {Some d} \<and> alias_path t rs (d # names))"

text \<open>The name at the end of the aliases of \<open>c\<close>, which has none itself and not too many addresses.\<close>

definition resolves_to :: "u16 \<Rightarrow> DNS_RECORD list \<Rightarrow> bytes \<Rightarrow> DnsProxyAddress list \<Rightarrow> bool" where
  "resolves_to t rs c found \<longleftrightarrow>
     (\<exists>names. alias_path t rs names \<and> hd names = c \<and> distinct names \<and> length names \<le> kMaximumCnameDepth + 1 \<and>
        alias_targets rs (last names) = {} \<and> found = answers t rs (last names) \<and>
        length found \<le> kDnsProxyMaximumAddressRecords)"

text \<open>The records from a pointer to the end of the list.\<close>

primrec record_path :: "record_memory \<Rightarrow> DNS_RECORD list \<Rightarrow> record_ptr \<Rightarrow> bool" where
  "record_path memory [] p = (p = None)"
| "record_path memory (r # rs) p = (\<exists>a. p = Some a \<and> r = memory a \<and> record_path memory rs (pNext r))"

declare RecordListLoop.simps [simp del] FollowAliases.simps [simp del]

definition raw_answers :: "u16 \<Rightarrow> DNS_RECORD list \<Rightarrow> bytes \<Rightarrow> DnsProxyAddress list" where
  "raw_answers t rs c = map (record_address t) (filter (\<lambda>r. wType r = t \<and> dwTtl r \<noteq> 0) (owned rs c))"

definition alias_set :: "bytes option \<Rightarrow> bytes option set" where
  "alias_set cname = (case cname of None \<Rightarrow> {} | Some x \<Rightarrow> {Some x})"

text \<open>The outcome of following the aliases from \<open>c\<close> when \<open>visited\<close> were seen and \<open>n\<close> more names may be looked at.\<close>

definition follows :: "u16 \<Rightarrow> DNS_RECORD list \<Rightarrow> nat \<Rightarrow> bytes \<Rightarrow> bytes list \<Rightarrow> DnsProxyAddress list \<Rightarrow> bytes list \<Rightarrow> bool" where
  "follows t rs n c visited found names \<longleftrightarrow>
     alias_path t rs names \<and> hd names = c \<and> distinct names \<and> set (tl names) \<inter> set visited = {} \<and> length names \<le> n \<and>
     alias_targets rs (last names) = {} \<and> found = answers t rs (last names) \<and> length found \<le> kDnsProxyMaximumAddressRecords"

text \<open>An address that comes from the DNS records the operating system returned for the name.\<close>

definition dns_rooted :: "dns_query \<Rightarrow> bytes \<Rightarrow> u8 \<Rightarrow> DnsProxyAddress \<Rightarrow> bool" where
  "dns_rooted dns_query domain family a \<longleftrightarrow>
     (\<exists>t memory p rs c found.
        (t = DNS_TYPE_A \<and> family \<in> {DnsProxyQueryFamily_kAny, DnsProxyQueryFamily_kIpv4} \<or>
         t = DNS_TYPE_AAAA \<and> family \<in> {DnsProxyQueryFamily_kAny, DnsProxyQueryFamily_kIpv6}) \<and>
        dns_query domain t = (DNS_SUCCESS, memory, p) \<and> record_path memory rs p \<and> length rs \<le> kMaximumRecords \<and>
        CanonicalizeName (Some domain) = Some c \<and> resolves_to t rs c found \<and> a \<in> set found)"

definition addresses_ok :: "(DnsProxyAddress \<Rightarrow> bool) \<Rightarrow> DnsProxyAddress list \<Rightarrow> bool" where
  "addresses_ok P found \<longleftrightarrow> distinct found \<and> length found \<le> kDnsProxyMaximumAddressRecords \<and>
     (\<forall>a \<in> set found. P a \<and> ValidDnsAddress a \<and> length (da_address a) = 16)"

text \<open>Two records: \<open>w.io\<close> is an alias of \<open>ok.io\<close>, which has the address 10.0.0.1.\<close>

definition example_memory :: record_memory where
  "example_memory a =
     (if a = 8
      then \<lparr>pNext = Some 16, pName = Some (ascii ''W.io''), wType = DNS_TYPE_CNAME, dwTtl = 60,
             cname_host = Some (ascii ''ok.IO.''), a_address = 0, aaaa_byte = (\<lambda>_. 0)\<rparr>
      else \<lparr>pNext = None, pName = Some (ascii ''ok.io''), wType = DNS_TYPE_A, dwTtl = 60,
             cname_host = None, a_address = 0x100000A, aaaa_byte = (\<lambda>_. 0)\<rparr>)"

definition example_query :: dns_query where
  "example_query domain t = (if t = DNS_TYPE_A then (DNS_SUCCESS, example_memory, Some 8) else (DNS_INFO_NO_RECORDS, example_memory, None))"

definition example_address :: DnsProxyAddress where
  "example_address = \<lparr>da_family = 4, da_address = [10, 0, 0, 1, 0, 0, 0, 0, 0, 0, 0, 0, 0, 0, 0, 0], da_ttl = 60\<rparr>"

section \<open>Names\<close>

lemma tolower_dot [simp]: "tolower b = chr_dot \<longleftrightarrow> b = chr_dot"
  by (auto simp: tolower_def word_le_nat_alt unat_word_ariths unat_arith_simps)

lemma tolower_chr_dot [simp]: "tolower chr_dot = chr_dot"
  by simp

lemma not_ldh_label: "x \<in> set l \<Longrightarrow> \<not> ldh x \<Longrightarrow> \<not> label_ok l"
  by (auto simp: label_ok_def list_all_iff)

lemma CanonicalizeBytes_eq:
  assumes "list_all ldh cur" "cur \<noteq> [] \<Longrightarrow> hd cur \<noteq> chr_hyphen"
  shows "CanonicalizeBytes bs (pre @ cur) (length cur) =
    (if list_all label_ok ((cur @ hd (labels (map tolower bs))) # tl (labels (map tolower bs)))
     then Some (pre @ cur @ map tolower bs) else None)"
  using assms
proof (induction bs arbitrary: pre cur)
  case Nil
  then show ?case by (auto simp: label_ok_def)
next
  case (Cons b bs)
  show ?case
  proof (cases "b = chr_dot")
    case True
    have "label_ok cur \<longleftrightarrow> cur \<noteq> [] \<and> length cur \<le> 63 \<and> last (pre @ cur) \<noteq> chr_hyphen"
      using Cons.prems by (auto simp: label_ok_def)
    moreover have "labels (map tolower bs) = hd (labels (map tolower bs)) # tl (labels (map tolower bs))" by simp
    ultimately show ?thesis
      using Cons.IH [of "[]" "pre @ cur @ [chr_dot]"] True by (auto simp: Let_def)
  next
    case False
    let ?c = "tolower b"
    show ?thesis
    proof (cases "ldh ?c \<and> (cur = [] \<longrightarrow> ?c \<noteq> chr_hyphen)")
      case True
      then have "list_all ldh (cur @ [?c])" "hd (cur @ [?c]) \<noteq> chr_hyphen"
        using Cons.prems by (auto simp: hd_append)
      from Cons.IH [OF this] True False show ?thesis by (auto simp: Let_def ldh_def)
    next
      case bad: False
      have "\<not> label_ok (cur @ ?c # hd (labels (map tolower bs)))"
      proof (cases "ldh ?c")
        case True
        then show ?thesis using bad by (auto simp: label_ok_def)
      next
        case False
        then show ?thesis by (intro not_ldh_label [of ?c]) simp_all
      qed
      then show ?thesis using bad False by (auto simp: Let_def ldh_def)
    qed
  qed
qed

lemma labels_last_dot: "labels (d @ [chr_dot]) = ls \<Longrightarrow> \<not> list_all label_ok ls"
  by (auto simp: labels_snoc_dot label_ok_def)

lemma dns_name_not_dot: "d \<noteq> [] \<Longrightarrow> last d = chr_dot \<Longrightarrow> \<not> dns_name (map tolower d)"
  using labels_last_dot [OF refl, of "map tolower (butlast d)"]
  by (metis append_butlast_last_id dns_name_def list.simps(8,9) map_append tolower_chr_dot)

lemma dns_name_Nil [simp]: "\<not> dns_name []"
  by (simp add: dns_name_def label_ok_def)

lemma CanonicalizeName_None [simp]: "CanonicalizeName None = None"
  by (simp add: CanonicalizeName_def)

lemma nth_c_str: "i < length (c_str n) \<Longrightarrow> n ! i = c_str n ! i"
  by (simp add: c_str_def takeWhile_nth)

lemma CanonicalizeName_eq:
  "CanonicalizeName (Some n) =
    (if dns_name (map tolower (strip_dot (c_str n))) then Some (map tolower (strip_dot (c_str n))) else None)"
proof (cases "c_str n = [] \<or> 254 < length (c_str n)")
  case True
  have "\<not> dns_name (map tolower (strip_dot (c_str n)))"
  proof (cases "c_str n = []")
    case True
    then show ?thesis by (simp add: strip_dot_def)
  next
    case False
    then have "253 < length (strip_dot (c_str n))" using True by (auto simp: strip_dot_def)
    then show ?thesis by (simp add: dns_name_def)
  qed
  moreover have "bounded_scan 254 0 n = 0 \<or> 254 < bounded_scan 254 0 n" using True by (auto simp: bounded_scan_0)
  ultimately show ?thesis by (simp add: CanonicalizeName_def Let_def)
next
  case False
  let ?d = "c_str n" and ?s = "strip_dot (c_str n)"
  have scan: "bounded_scan 254 0 n = length ?d" using False by (simp add: bounded_scan_0)
  have last: "n ! (length ?d - 1) = last ?d" using False nth_c_str [of "length ?d - 1" n] by (simp add: last_conv_nth)
  define l2 where "l2 = (if last ?d = chr_dot then length ?d - 1 else length ?d)"
  have len: "length ?s = l2" and le: "l2 \<le> length ?d" using False by (auto simp: strip_dot_def l2_def)
  have s: "?s = take l2 ?d" using False by (auto simp: strip_dot_def l2_def butlast_conv_take)
  have tk: "take l2 n = ?s" using le unfolding s by (subst take_c_str [symmetric], subst take_take) (simp add: min_absorb1)
  have last2: "n ! (l2 - 1) = last ?s" if "l2 \<noteq> 0"
  proof -
    have "?s ! (l2 - 1) = ?d ! (l2 - 1)" unfolding s by (rule nth_take) (use that in simp)
    moreover have "last ?s = ?s ! (length ?s - 1)" by (rule last_conv_nth) (use that len in auto)
    moreover have "n ! (l2 - 1) = ?d ! (l2 - 1)" by (rule nth_c_str) (use that le in linarith)
    ultimately show ?thesis by (simp only: len)
  qed
  have run: "CanonicalizeName (Some n) =
      (if l2 = 0 \<or> 253 < l2 \<or> n ! (l2 - 1) = chr_dot then None else CanonicalizeBytes ?s [] 0)"
  proof -
    have "\<not> (length ?d = 0 \<or> 254 < length ?d)" using False by simp
    then show ?thesis
      unfolding CanonicalizeName_def Let_def scan option.case last l2_def [symmetric] tk by (rule if_not_P)
  qed
  have bytes: "CanonicalizeBytes ?s [] 0 = (if list_all label_ok (labels (map tolower ?s)) then Some (map tolower ?s) else None)"
    using CanonicalizeBytes_eq [of "[]" ?s "[]"] by simp
  show ?thesis
  proof (cases "l2 = 0 \<or> 253 < l2 \<or> n ! (l2 - 1) = chr_dot")
    case bad: True
    have "\<not> dns_name (map tolower ?s)"
    proof (cases "l2 = 0 \<or> 253 < l2")
      case True
      then show ?thesis using len by (auto simp: dns_name_def label_ok_def)
    next
      case False
      then show ?thesis using bad last2 len by (intro dns_name_not_dot) auto
    qed
    then show ?thesis using run bad by simp
  next
    case ok: False
    then show ?thesis using run bytes len by (simp add: dns_name_def)
  qed
qed

section \<open>The list of records\<close>

lemma next_record_None [simp]: "next_record memory None = None"
  by (simp add: next_record_def)

lemma next_record_Some [simp]: "next_record memory (Some a) = pNext (memory a)"
  by (simp add: next_record_def)

lemma walk_None [simp]: "(next_record memory ^^ n) None = None"
  by (induction n) simp_all

lemma walk_beyond: "(next_record memory ^^ n) p = None \<Longrightarrow> n \<le> m \<Longrightarrow> (next_record memory ^^ m) p = None"
  by (metis comp_apply funpow_add le_add_diff_inverse2 walk_None)

lemma no_meeting:
  assumes "(next_record memory ^^ n) p = None" "0 < i" "(next_record memory ^^ i) p = (next_record memory ^^ (2 * i)) p"
  shows "(next_record memory ^^ i) p = None"
proof -
  let ?f = "next_record memory ^^ i"
  have ff: "?f (?f p) = ?f p" using assms(3) by (simp add: mult_2 funpow_add)
  have "(?f ^^ Suc j) p = ?f p" for j
  proof (induction j)
    case (Suc j)
    then show ?case using ff by simp
  qed simp
  from this [of n] have "(next_record memory ^^ (i * Suc n)) p = ?f p" by (simp only: funpow_mult)
  moreover have "(next_record memory ^^ (i * Suc n)) p = None"
    by (rule walk_beyond [OF assms(1)]) (use assms(2) in \<open>cases i, simp_all\<close>)
  ultimately show ?thesis by simp
qed

lemma RecordListLoop_sound:
  "RecordListLoop memory count slow fast \<Longrightarrow> count \<le> kMaximumRecords \<Longrightarrow>
    (next_record memory ^^ (kMaximumRecords - count)) slow = None"
proof (induction memory count slow fast rule: RecordListLoop.induct)
  case (1 memory count slow fast)
  show ?case
  proof (cases "slow = None")
    case False
    have run: "RecordListLoop memory count slow fast" by (rule "1.prems"(1))
    then have lt: "\<not> kMaximumRecords < count + 1"
      and "\<not> (next_record memory slow \<noteq> None \<and> next_record memory slow = next_record memory (next_record memory fast))"
      and "RecordListLoop memory (count + 1) (next_record memory slow) (next_record memory (next_record memory fast))"
      unfolding RecordListLoop.simps [of memory count slow fast] Let_def using False by (auto split: if_splits)
    then have "(next_record memory ^^ (kMaximumRecords - (count + 1))) (next_record memory slow) = None"
      using "1.IH" [OF False lt refl refl refl] lt by simp
    then have "(next_record memory ^^ Suc (kMaximumRecords - (count + 1))) slow = None"
      by (simp only: funpow_Suc_right comp_apply)
    moreover have "Suc (kMaximumRecords - (count + 1)) = kMaximumRecords - count" using lt by simp
    ultimately show ?thesis by (simp only:)
  qed simp
qed

lemma RecordListLoop_complete:
  assumes "(next_record memory ^^ kMaximumRecords) p = None" "k \<le> kMaximumRecords"
  shows "RecordListLoop memory k ((next_record memory ^^ k) p) ((next_record memory ^^ (2 * k)) p)"
  using assms(2)
proof (induction "kMaximumRecords - k" arbitrary: k)
  case 0
  then show ?case using assms(1) by (simp add: RecordListLoop.simps)
next
  case (Suc n)
  have IH: "RecordListLoop memory (Suc k) ((next_record memory ^^ Suc k) p) ((next_record memory ^^ (2 * Suc k)) p)"
    by (rule Suc.hyps(1)) (use Suc.hyps(2) in simp_all)
  have "\<not> ((next_record memory ^^ Suc k) p \<noteq> None \<and> (next_record memory ^^ Suc k) p = (next_record memory ^^ (2 * Suc k)) p)"
    using no_meeting [OF assms(1), of "Suc k"] by auto
  moreover have "\<not> kMaximumRecords < k + 1" using Suc.hyps(2) by simp
  ultimately show ?case using IH by (subst RecordListLoop.simps) (auto simp: Let_def)
qed

lemma RecordListIsBoundedAndAcyclic_iff:
  "RecordListIsBoundedAndAcyclic memory p \<longleftrightarrow> (next_record memory ^^ kMaximumRecords) p = None"
  using RecordListLoop_sound [of memory 0 p p] RecordListLoop_complete [of memory p 0]
  by (auto simp: RecordListIsBoundedAndAcyclic_def)

lemma record_path_iff:
  "record_path memory rs p \<and> length rs \<le> n \<longleftrightarrow> rs = RecordWalk memory n p \<and> (next_record memory ^^ n) p = None"
proof (induction n arbitrary: rs p)
  case 0
  then show ?case by (cases rs) auto
next
  case (Suc n)
  then show ?case
    by (cases rs; cases p) (auto simp: funpow_Suc_right simp del: funpow.simps)
qed

section \<open>Collecting addresses\<close>

lemma first_occurrences_snoc:
  "first_occurrences (xs @ [x]) = (if x \<in> set xs then first_occurrences xs else first_occurrences xs @ [x])"
  by (simp add: first_occurrences_def)

lemma first_occurrences_Nil [simp]: "first_occurrences [] = []"
  by (simp add: first_occurrences_def)

lemma set_first_occurrences [simp]: "set (first_occurrences xs) = set xs"
  by (simp add: first_occurrences_def)

lemma distinct_first_occurrences [simp]: "distinct (first_occurrences xs)"
  by (simp add: first_occurrences_def)

lemma length_first_occurrences: "length (first_occurrences xs) = card (set xs)"
  by (metis distinct_card distinct_first_occurrences set_first_occurrences)

lemma first_occurrences_grow: "length (first_occurrences xs) \<le> length (first_occurrences (xs @ ys))"
  by (simp add: length_first_occurrences card_mono)

lemma alias_set_simps [simp]: "alias_set None = {}" "alias_set (Some x) = {Some x}"
  by (simp_all add: alias_set_def)

lemma owned_Cons:
  "owned (r # rs) c = (if CanonicalizeName (pName r) = Some c then r # owned rs c else owned rs c)"
  by (simp add: owned_def)

lemma CollectRecords_iff:
  assumes "t \<noteq> DNS_TYPE_CNAME" "length (first_occurrences xs) \<le> kDnsProxyMaximumAddressRecords"
  shows "CollectRecords t c rs cname (first_occurrences xs) = Some (cname', found) \<longleftrightarrow>
    alias_set cname' = alias_set cname \<union> alias_targets rs c \<and>
    found = first_occurrences (xs @ raw_answers t rs c) \<and> length found \<le> kDnsProxyMaximumAddressRecords"
  using assms
proof (induction rs arbitrary: cname xs)
  case Nil
  then show ?case
    by (cases cname; cases cname') (auto simp: alias_targets_def raw_answers_def owned_def)
next
  case (Cons r rs)
  consider (other) "CanonicalizeName (pName r) \<noteq> Some c"
    | (cname) "CanonicalizeName (pName r) = Some c" "wType r = DNS_TYPE_CNAME"
    | (skip) "CanonicalizeName (pName r) = Some c" "wType r \<noteq> DNS_TYPE_CNAME" "wType r \<noteq> t \<or> dwTtl r = 0"
    | (address) "CanonicalizeName (pName r) = Some c" "wType r \<noteq> DNS_TYPE_CNAME" "wType r = t" "dwTtl r \<noteq> 0"
    by blast
  then show ?case
  proof cases
    case other
    have "alias_targets (r # rs) c = alias_targets rs c" "raw_answers t (r # rs) c = raw_answers t rs c"
      using other by (simp_all add: alias_targets_def raw_answers_def owned_Cons)
    then show ?thesis using Cons.IH [OF Cons.prems] other by simp
  next
    case cname
    have a: "alias_targets (r # rs) c = insert (CanonicalizeName (cname_host r)) (alias_targets rs c)"
      "raw_answers t (r # rs) c = raw_answers t rs c"
      using cname Cons.prems(1) by (auto simp: alias_targets_def raw_answers_def owned_Cons)
    show ?thesis
    proof (cases "CanonicalizeName (cname_host r)")
      case None
      then show ?thesis using cname a by (cases cname') auto
    next
      case (Some x)
      show ?thesis
      proof (cases "cname = None \<or> cname = Some x")
        case True
        then have "alias_set (Some x) = alias_set cname \<union> {Some x}" by auto
        then show ?thesis using Cons.IH [OF Cons.prems, of "Some x"] cname a Some True by auto
      next
        case False
        then show ?thesis using cname a Some by (cases cname; cases cname') auto
      qed
    qed
  next
    case skip
    have "alias_targets (r # rs) c = alias_targets rs c" "raw_answers t (r # rs) c = raw_answers t rs c"
      using skip by (auto simp: alias_targets_def raw_answers_def owned_Cons)
    then show ?thesis using Cons.IH [OF Cons.prems] skip by simp
  next
    case address
    let ?a = "record_address t r"
    have a: "alias_targets (r # rs) c = alias_targets rs c" "raw_answers t (r # rs) c = ?a # raw_answers t rs c"
      using address Cons.prems(1) by (auto simp: alias_targets_def raw_answers_def owned_Cons)
    have step: "CollectRecords t c (r # rs) cname (first_occurrences xs) =
        (if ?a \<notin> set xs \<and> length (first_occurrences xs) = kDnsProxyMaximumAddressRecords then None
         else CollectRecords t c rs cname (first_occurrences (xs @ [?a])))"
      using address by (simp add: Let_def first_occurrences_snoc)
    show ?thesis
    proof (cases "?a \<notin> set xs \<and> length (first_occurrences xs) = kDnsProxyMaximumAddressRecords")
      case True
      then have "kDnsProxyMaximumAddressRecords < length (first_occurrences (xs @ [?a]))"
        by (simp add: first_occurrences_snoc)
      also have "\<dots> \<le> length (first_occurrences (xs @ ?a # raw_answers t rs c))"
        using first_occurrences_grow [of "xs @ [?a]"] by simp
      finally show ?thesis using True step a by simp
    next
      case False
      then have "length (first_occurrences (xs @ [?a])) \<le> kDnsProxyMaximumAddressRecords"
        using Cons.prems(2) by (auto simp: first_occurrences_snoc)
      from Cons.IH [OF Cons.prems(1) this, of cname] show ?thesis unfolding step if_not_P [OF False] a by simp
    qed
  qed
qed

lemma CollectRecords_start:
  assumes "t \<noteq> DNS_TYPE_CNAME"
  shows "CollectRecords t c rs None [] = Some (cname, found) \<longleftrightarrow>
    alias_targets rs c = alias_set cname \<and> found = answers t rs c \<and> length found \<le> kDnsProxyMaximumAddressRecords"
  using CollectRecords_iff [OF assms, of "[]" c rs None cname found] by (auto simp: answers_def raw_answers_def)

lemma follows_cases:
  assumes "c \<in> set visited"
  shows "(\<exists>names. follows t rs (Suc n) c visited found names) \<longleftrightarrow>
    (alias_targets rs c = {} \<and> found = answers t rs c \<and> length found \<le> kDnsProxyMaximumAddressRecords) \<or>
    (\<exists>d. answers t rs c = [] \<and> alias_targets rs c = {Some d} \<and> d \<notin> set visited \<and>
       (\<exists>names. follows t rs n d (visited @ [d]) found names))" (is "?L \<longleftrightarrow> ?R")
proof
  assume ?L
  then obtain names where f: "follows t rs (Suc n) c visited found names" by blast
  show ?R
  proof (cases "tl names = []")
    case True
    then have "names = [c]" using f by (cases names) (auto simp: follows_def)
    then show ?thesis using f by (auto simp: follows_def)
  next
    case False
    then obtain d ns where n: "names = c # d # ns" using f by (cases names; cases "tl names") (auto simp: follows_def)
    have "follows t rs n d (visited @ [d]) found (d # ns)" using f n by (auto simp: follows_def)
    moreover have "answers t rs c = []" "alias_targets rs c = {Some d}" "d \<notin> set visited"
      using f n by (auto simp: follows_def)
    ultimately show ?thesis by blast
  qed
next
  assume ?R
  then consider (1) "alias_targets rs c = {}" "found = answers t rs c" "length found \<le> kDnsProxyMaximumAddressRecords"
    | (2) d names where "answers t rs c = []" "alias_targets rs c = {Some d}" "d \<notin> set visited"
        "follows t rs n d (visited @ [d]) found names"
    by blast
  then show ?L
  proof cases
    case 1
    then show ?thesis by (intro exI [of _ "[c]"]) (simp add: follows_def)
  next
    case 2
    obtain ns where n: "names = d # ns" using 2(4) by (cases names) (auto simp: follows_def)
    show ?thesis using 2 assms n by (intro exI [of _ "c # names"]) (auto simp: follows_def)
  qed
qed

lemma follows_0: "\<not> follows t rs 0 c visited found names"
  by (cases names) (auto simp: follows_def)

lemma FollowAliases_step:
  assumes t: "t \<noteq> DNS_TYPE_CNAME" and c: "c \<in> set visited" and depth: "depth \<le> kMaximumCnameDepth"
    and IH: "\<And>d. depth < kMaximumCnameDepth \<Longrightarrow> d \<notin> set visited \<Longrightarrow>
      FollowAliases t rs (depth + 1) d (visited @ [d]) [] = (status, found) \<and> status \<noteq> Parse_kInvalid \<longleftrightarrow>
      (\<exists>names. follows t rs (kMaximumCnameDepth - depth) d (visited @ [d]) found names) \<and>
      status = (if found = [] then Parse_kNotFound else Parse_kSuccess)"
  shows "FollowAliases t rs depth c visited [] = (status, found) \<and> status \<noteq> Parse_kInvalid \<longleftrightarrow>
    (\<exists>names. follows t rs (Suc (kMaximumCnameDepth - depth)) c visited found names) \<and>
    status = (if found = [] then Parse_kNotFound else Parse_kSuccess)"
proof -
  note cases = follows_cases [OF c, of t rs "kMaximumCnameDepth - depth" found]
  note start = CollectRecords_start [OF t, of c rs]
  have nd: "\<not> kMaximumCnameDepth < depth" using depth by simp
  show ?thesis
  proof (cases "CollectRecords t c rs None []")
    case None
    then have "\<not> (alias_targets rs c = alias_set cname \<and> length (answers t rs c) \<le> kDnsProxyMaximumAddressRecords)" for cname
      using start [of cname "answers t rs c"] by auto
    note no = this
    have "\<not> (alias_targets rs c = {} \<and> length (answers t rs c) \<le> kDnsProxyMaximumAddressRecords)" using no [of None] by simp
    moreover have "\<nexists>d. answers t rs c = [] \<and> alias_targets rs c = {Some d}"
    proof
      assume "\<exists>d. answers t rs c = [] \<and> alias_targets rs c = {Some d}"
      then obtain d where "answers t rs c = []" "alias_targets rs c = {Some d}" by blast
      then show False using no [of "Some d"] by simp
    qed
    ultimately show ?thesis unfolding cases using None nd by (subst FollowAliases.simps) auto
  next
    case (Some r)
    obtain cname as where r: "r = (cname, as)" by (cases r)
    have st: "alias_targets rs c = alias_set cname" "as = answers t rs c" "length as \<le> kDnsProxyMaximumAddressRecords"
      using iffD1 [OF start [of cname as]] Some r by blast+
    show ?thesis
    proof (cases "as = [] \<and> cname \<noteq> None")
      case False
      then show ?thesis
        unfolding cases using Some r st nd by (subst FollowAliases.simps) (cases cname; auto)
    next
      case True
      then obtain d where d: "cname = Some d" by blast
      show ?thesis
      proof (cases "depth = kMaximumCnameDepth \<or> d \<in> set visited")
        case bad: True
        then show ?thesis
          unfolding cases using Some r st nd True d follows_0 by (subst FollowAliases.simps) auto
      next
        case ok: False
        then have "FollowAliases t rs depth c visited [] = FollowAliases t rs (depth + 1) d (visited @ [d]) []"
          using Some r nd True d by (subst FollowAliases.simps) simp
        then show ?thesis unfolding cases using IH [of d] ok depth st True d by auto
      qed
    qed
  qed
qed

lemma FollowAliases_iff:
  assumes "t \<noteq> DNS_TYPE_CNAME" "c \<in> set visited" "depth \<le> kMaximumCnameDepth"
  shows "FollowAliases t rs depth c visited [] = (status, found) \<and> status \<noteq> Parse_kInvalid \<longleftrightarrow>
    (\<exists>names. follows t rs (Suc (kMaximumCnameDepth - depth)) c visited found names) \<and>
    status = (if found = [] then Parse_kNotFound else Parse_kSuccess)"
  using assms(2,3)
proof (induction "kMaximumCnameDepth - depth" arbitrary: depth c visited)
  case 0
  then show ?case by (intro FollowAliases_step [OF assms(1)]) simp_all
next
  case (Suc n)
  show ?case
  proof (rule FollowAliases_step [OF assms(1) Suc.prems])
    fix d
    have "Suc (kMaximumCnameDepth - (depth + 1)) = kMaximumCnameDepth - depth" using Suc.hyps(2) by simp
    then show "FollowAliases t rs (depth + 1) d (visited @ [d]) [] = (status, found) \<and> status \<noteq> Parse_kInvalid \<longleftrightarrow>
      (\<exists>names. follows t rs (kMaximumCnameDepth - depth) d (visited @ [d]) found names) \<and>
      status = (if found = [] then Parse_kNotFound else Parse_kSuccess)"
      using Suc.hyps(1) [of "depth + 1" d "visited @ [d]"] Suc.hyps(2) by simp
  qed
qed

lemma FollowAliases_invalid: "FollowAliases t rs depth c visited [] = (Parse_kInvalid, found) \<Longrightarrow> found = []"
proof (induction "kMaximumCnameDepth - depth" arbitrary: depth c visited rule: less_induct)
  case less
  have IH: "found = []"
    if "FollowAliases t rs (Suc depth) d (visited @ [d]) [] = (Parse_kInvalid, found)" "\<not> kMaximumCnameDepth < depth"
      "depth \<noteq> kMaximumCnameDepth" for d
    by (rule less.hyps [OF _ that(1)]) (use that(2,3) in simp)
  from less.prems show ?case
    by (subst (asm) FollowAliases.simps) (auto split: if_splits option.splits dest: IH)
qed

lemma resolves_to_follows: "resolves_to t rs c found \<longleftrightarrow> (\<exists>names. follows t rs (Suc kMaximumCnameDepth) c [c] found names)"
proof -
  have "set (tl names) \<inter> {c} = {}" if "distinct names" "hd names = c" for names :: "bytes list"
    using that by (cases names) auto
  then show ?thesis by (auto simp: resolves_to_def follows_def)
qed

lemma CollectValidatedDnsAddresses_iff:
  "CollectValidatedDnsAddresses q t memory p = (status, found) \<and> status \<noteq> Parse_kInvalid \<longleftrightarrow>
    t \<in> {DNS_TYPE_A, DNS_TYPE_AAAA} \<and>
    (\<exists>rs c. record_path memory rs p \<and> length rs \<le> kMaximumRecords \<and> CanonicalizeName q = Some c \<and> resolves_to t rs c found) \<and>
    status = (if found = [] then Parse_kNotFound else Parse_kSuccess)"
proof -
  let ?rs = "RecordWalk memory kMaximumRecords p"
  have path: "record_path memory rs p \<and> length rs \<le> kMaximumRecords \<longleftrightarrow> rs = ?rs \<and> RecordListIsBoundedAndAcyclic memory p" for rs
    by (simp add: record_path_iff RecordListIsBoundedAndAcyclic_iff)
  have follow: "FollowAliases t ?rs 0 c [c] [] = (status, found) \<and> status \<noteq> Parse_kInvalid \<longleftrightarrow>
      resolves_to t ?rs c found \<and> status = (if found = [] then Parse_kNotFound else Parse_kSuccess)"
    if "t \<noteq> DNS_TYPE_CNAME" for c
    using FollowAliases_iff [OF that, of c "[c]" 0 ?rs status found] by (simp add: resolves_to_follows)
  have ex: "(\<exists>rs c. record_path memory rs p \<and> length rs \<le> kMaximumRecords \<and> CanonicalizeName q = Some c \<and> resolves_to t rs c found) \<longleftrightarrow>
      RecordListIsBoundedAndAcyclic memory p \<and> (\<exists>c. CanonicalizeName q = Some c \<and> resolves_to t ?rs c found)"
    unfolding conj_assoc [symmetric] path by blast
  show ?thesis
  proof (cases "t \<in> {DNS_TYPE_A, DNS_TYPE_AAAA} \<and> RecordListIsBoundedAndAcyclic memory p \<and> CanonicalizeName q \<noteq> None")
    case True
    then obtain c where c: "CanonicalizeName q = Some c" by blast
    have t: "t \<noteq> DNS_TYPE_CNAME" using True by auto
    have "CollectValidatedDnsAddresses q t memory p = FollowAliases t ?rs 0 c [c] []"
      using True c by (auto simp: CollectValidatedDnsAddresses_def)
    then show ?thesis unfolding ex using follow [OF t, of c] True c by simp
  next
    case False
    then have "fst (CollectValidatedDnsAddresses q t memory p) = Parse_kInvalid"
      by (auto simp: CollectValidatedDnsAddresses_def)
    then show ?thesis unfolding ex using False by auto
  qed
qed

lemma CollectValidated_invalid:
  "CollectValidatedDnsAddresses q t memory p = (Parse_kInvalid, found) \<Longrightarrow> found = []"
  by (auto simp: CollectValidatedDnsAddresses_def dest: FollowAliases_invalid split: if_splits option.splits)

lemma answers_valid:
  assumes "a \<in> set (answers t rs c)"
  shows "ValidDnsAddress a \<and> length (da_address a) = 16"
  using assms by (auto simp: answers_def record_address_def ValidDnsAddress_def all_zero_def zeros_def list_all_iff split: if_splits)

lemma answers_distinct: "distinct (answers t rs c)"
  by (simp add: answers_def)

section \<open>The resolvers\<close>

lemma MergeAddresses_Some:
  "MergeAddresses parsed found = Some out \<Longrightarrow> distinct found \<Longrightarrow> length found \<le> kDnsProxyMaximumAddressRecords \<Longrightarrow>
    distinct out \<and> length out \<le> kDnsProxyMaximumAddressRecords \<and> set out = set found \<union> set parsed"
proof (induction parsed found rule: MergeAddresses.induct)
  case (2 address parsed found)
  then show ?case by (auto split: if_splits)
qed simp

lemma Query_ok:
  assumes "Query dns_query domain t found = ((status, parse), out)"
    and "t = DNS_TYPE_A \<and> family \<in> {DnsProxyQueryFamily_kAny, DnsProxyQueryFamily_kIpv4} \<or>
         t = DNS_TYPE_AAAA \<and> family \<in> {DnsProxyQueryFamily_kAny, DnsProxyQueryFamily_kIpv6}"
    and "addresses_ok (dns_rooted dns_query domain family) found"
  shows "addresses_ok (dns_rooted dns_query domain family) out"
proof -
  obtain st memory p where q: "dns_query domain t = (st, memory, p)" using prod_cases3 by blast
  obtain ps parsed where c: "CollectValidatedDnsAddresses (Some domain) t memory p = (ps, parsed)" by fastforce
  consider "out = found" | "out = []" | "MergeAddresses parsed found = Some out" "st = DNS_SUCCESS" "ps = Parse_kSuccess"
    using assms(1) q c by (auto simp: Query_def split: if_splits option.splits)
  then show ?thesis
  proof cases
    case 3
    note merged = MergeAddresses_Some [OF 3(1)]
    have "\<exists>rs c. record_path memory rs p \<and> length rs \<le> kMaximumRecords \<and> CanonicalizeName (Some domain) = Some c \<and>
        resolves_to t rs c parsed"
      using CollectValidatedDnsAddresses_iff [of "Some domain" t memory p ps parsed] c 3(3) by simp
    then obtain rs c where r: "record_path memory rs p" "length rs \<le> kMaximumRecords"
      "CanonicalizeName (Some domain) = Some c" "resolves_to t rs c parsed" by blast
    then have root: "dns_rooted dns_query domain family a" if "a \<in> set parsed" for a
      unfolding dns_rooted_def using assms(2) q 3(2) that by (intro exI conjI) auto
    have valid: "ValidDnsAddress a \<and> length (da_address a) = 16" if "a \<in> set parsed" for a
      using r(4) that answers_valid by (auto simp: resolves_to_def)
    show ?thesis using merged assms(3) root valid by (auto simp: addresses_ok_def)
  qed (use assms(3) in \<open>auto simp: addresses_ok_def\<close>)
qed

lemma SystemDnsResolver_ok:
  assumes "SystemDnsResolver_Resolve dns_query domain family = (result, found)"
  shows "addresses_ok (dns_rooted dns_query domain family) found \<and> (result = DnsProxyResult_kSuccess \<longleftrightarrow> found \<noteq> [])"
proof (cases "c_str domain = []")
  case True
  then show ?thesis using assms by (auto simp: SystemDnsResolver_Resolve_def addresses_ok_def)
next
  case False
  define q4 where "q4 = (if family = DnsProxyQueryFamily_kAny \<or> family = DnsProxyQueryFamily_kIpv4
    then Query dns_query domain DNS_TYPE_A [] else ((DNS_INFO_NO_RECORDS, Parse_kNotFound), []))"
  obtain s4 p4 f4 where q4: "q4 = ((s4, p4), f4)" by (metis surj_pair)
  define q6 where "q6 = (if family = DnsProxyQueryFamily_kAny \<or> family = DnsProxyQueryFamily_kIpv6
    then Query dns_query domain DNS_TYPE_AAAA f4 else ((DNS_INFO_NO_RECORDS, Parse_kNotFound), f4))"
  obtain s6 p6 f6 where q6: "q6 = ((s6, p6), f6)" by (metis surj_pair)
  have "addresses_ok (dns_rooted dns_query domain family) []" by (simp add: addresses_ok_def)
  then have f4: "addresses_ok (dns_rooted dns_query domain family) f4"
    using q4 Query_ok [of dns_query domain DNS_TYPE_A "[]" s4 p4 f4 family] by (auto simp: q4_def split: if_splits)
  then have f6: "addresses_ok (dns_rooted dns_query domain family) f6"
    using q6 Query_ok [of dns_query domain DNS_TYPE_AAAA f4 s6 p6 f6 family] by (auto simp: q6_def split: if_splits)
  have "SystemDnsResolver_Resolve dns_query domain family =
    (if p4 = Parse_kInvalid \<or> p6 = Parse_kInvalid then (DnsProxyResult_kFailure, [])
     else if f6 \<noteq> [] then (DnsProxyResult_kSuccess, f6)
     else if s4 = DNS_ERROR_RCODE_NAME_ERROR \<or> s6 = DNS_ERROR_RCODE_NAME_ERROR \<or> s4 = DNS_INFO_NO_RECORDS \<or> s6 = DNS_INFO_NO_RECORDS
     then (DnsProxyResult_kNotFound, f6) else (DnsProxyResult_kFailure, f6))"
    using False unfolding SystemDnsResolver_Resolve_def q4_def [symmetric] Let_def q4 prod.case q6_def [symmetric] q6 by simp
  then show ?thesis using assms f6 by (auto simp: addresses_ok_def split: if_splits)
qed

section \<open>Properties\<close>

lemma example_collect:
  "CollectValidatedDnsAddresses (Some (ascii ''w.io'')) 1 example_memory (Some 8) = (Parse_kSuccess, [example_address])"
  by code_simp

lemma example_resolve:
  "SystemDnsResolver_Resolve example_query (ascii ''w.io'') 0 = (0, [example_address])"
  by code_simp

text \<open>
  C10. The addresses taken from an answer of the operating system.  The check of the record
  list accepts exactly the lists that end after at most \<open>kMaximumRecords\<close> nodes, so the loops
  over it terminate.  The names are compared in the lower-case form of the label grammar,
  without one trailing dot.  A result other than \<open>kInvalid\<close> is given exactly if the query is for
  IPv4 or IPv6 addresses and the canonical name leads, through at most 16 unambiguous
  aliases without repetition and without addresses of their own, to a name without alias and
  with at most \<open>kDnsProxyMaximumAddressRecords\<close> different live addresses: exactly these, in the
  order of the records, and \<open>kNotFound\<close> if there are none.
\<close>

theorem dns_answers_exact:
  "(RecordListIsBoundedAndAcyclic memory p \<longleftrightarrow> (\<exists>rs. record_path memory rs p \<and> length rs \<le> kMaximumRecords)) \<and>
   (\<forall>name c. CanonicalizeName (Some name) = Some c \<longleftrightarrow> c = map tolower (strip_dot (c_str name)) \<and> dns_name c) \<and>
   (CollectValidatedDnsAddresses q t memory p = (status, found) \<and> status \<noteq> Parse_kInvalid \<longleftrightarrow>
     t \<in> {DNS_TYPE_A, DNS_TYPE_AAAA} \<and>
     (\<exists>rs c. record_path memory rs p \<and> length rs \<le> kMaximumRecords \<and> CanonicalizeName q = Some c \<and> resolves_to t rs c found) \<and>
     status = (if found = [] then Parse_kNotFound else Parse_kSuccess)) \<and>
   (CollectValidatedDnsAddresses q t memory p = (Parse_kInvalid, found) \<longrightarrow> found = [])"
proof (intro conjI)
  show "RecordListIsBoundedAndAcyclic memory p \<longleftrightarrow> (\<exists>rs. record_path memory rs p \<and> length rs \<le> kMaximumRecords)"
    by (simp add: record_path_iff RecordListIsBoundedAndAcyclic_iff)
  show "\<forall>name c. CanonicalizeName (Some name) = Some c \<longleftrightarrow> c = map tolower (strip_dot (c_str name)) \<and> dns_name c"
    by (auto simp: CanonicalizeName_eq)
  show "CollectValidatedDnsAddresses q t memory p = (Parse_kInvalid, found) \<longrightarrow> found = []"
    using CollectValidated_invalid by blast
qed (rule CollectValidatedDnsAddresses_iff)

theorem dns_answers_exact_witness:
  "(\<exists>rs c. record_path example_memory rs (Some 8) \<and> length rs \<le> kMaximumRecords \<and>
      CanonicalizeName (Some (ascii ''w.io'')) = Some c \<and> resolves_to 1 rs c [example_address]) \<and>
   snd (CollectValidatedDnsAddresses (Some (ascii ''w.io'')) 5 example_memory (Some 8)) = []"
proof
  show "\<exists>rs c. record_path example_memory rs (Some 8) \<and> length rs \<le> kMaximumRecords \<and>
      CanonicalizeName (Some (ascii ''w.io'')) = Some c \<and> resolves_to 1 rs c [example_address]"
    using dns_answers_exact [of example_memory "Some 8" "Some (ascii ''w.io'')" 1 Parse_kSuccess "[example_address]"]
      example_collect by blast
  have "CollectValidatedDnsAddresses (Some (ascii ''w.io'')) 5 example_memory (Some 8) = (Parse_kInvalid, [])"
    by (simp add: CollectValidatedDnsAddresses_def)
  then show "snd (CollectValidatedDnsAddresses (Some (ascii ''w.io'')) 5 example_memory (Some 8)) = []"
    using dns_answers_exact [of example_memory "Some 8" "Some (ascii ''w.io'')" 5 Parse_kInvalid "[]"] by simp
qed

text \<open>
  C39. The resolver of the proxy.  What a successful call of the bounded resolver over the
  system resolver returns is a non-empty list of at most \<open>kDnsProxyMaximumAddressRecords\<close>
  different addresses the protocol can carry, each of which comes from the records the
  operating system returned for the name and for a queried family.  A call that fails returns
  no address; after one that ran out of time, or threw, every later call fails.
\<close>

theorem bounded_resolver_sound:
  assumes "br_resolver self = Some (SystemDnsResolver_Resolve dns_query)"
    and "BoundedDnsResolver_Resolve self owns_lock poisoned outcome (Some domain) family = ((result, found), self')"
  shows "(result = DnsProxyResult_kSuccess \<longleftrightarrow> found \<noteq> []) \<and>
    addresses_ok (dns_rooted dns_query (c_str domain) family) found \<and>
    (br_poisoned self \<longrightarrow> br_poisoned self' \<and> result \<noteq> DnsProxyResult_kSuccess) \<and>
    (br_poisoned self' \<longrightarrow> (\<forall>lock meanwhile out name fam.
       fst (BoundedDnsResolver_Resolve self' lock meanwhile out name fam) = (DnsProxyResult_kFailure, []))) \<and>
    (outcome \<noteq> Worker_completed \<and> owns_lock \<and> br_timeout_milliseconds self \<noteq> 0 \<longrightarrow> br_poisoned self')"
proof -
  obtain result' found' where r: "SystemDnsResolver_Resolve dns_query (c_str domain) family = (result', found')" by fastforce
  note ok = SystemDnsResolver_ok [OF r]
  have none: "addresses_ok P []" for P by (simp add: addresses_ok_def)
  show ?thesis
    using assms(2) ok none r
    by (auto simp: BoundedDnsResolver_Resolve_def assms(1) Let_def
        split: if_splits worker_outcome.splits option.splits)
qed

theorem bounded_resolver_sound_witness:
  "fst (BoundedDnsResolver_Resolve \<lparr>br_resolver = Some (SystemDnsResolver_Resolve example_query), br_timeout_milliseconds = 5000,
      br_poisoned = False\<rparr> True False Worker_completed (Some (ascii ''w.io'')) 0) = (0, [example_address]) \<and>
    dns_rooted example_query (ascii ''w.io'') 0 example_address"
proof -
  define self where "self = \<lparr>br_resolver = Some (SystemDnsResolver_Resolve example_query),
    br_timeout_milliseconds = 5000, br_poisoned = False\<rparr>"
  have name: "c_str (ascii ''w.io'') = ascii ''w.io''" by code_simp
  have run: "BoundedDnsResolver_Resolve self True False Worker_completed (Some (ascii ''w.io'')) 0 = ((0, [example_address]), self)"
    by (simp add: BoundedDnsResolver_Resolve_def self_def name example_resolve)
  have "br_resolver self = Some (SystemDnsResolver_Resolve example_query)" by (simp add: self_def)
  from bounded_resolver_sound [OF this run] have "dns_rooted example_query (ascii ''w.io'') 0 example_address"
    by (simp add: addresses_ok_def name)
  with run show ?thesis unfolding self_def by simp
qed

end
