(* ===== verification/HttpConnect.thy ===== *)
theory HttpConnect
  imports NetworkPolicy
begin

text \<open>
  \<open>src/native/hook/network/http_connect_policy.cpp\<close>: the inspection of the first bytes a client
  sends through the proxy.  \<open>InetPtonA\<close> is a parameter for each address family.

  Shown: which requests are allowed, character by character; that more bytes never change
  a verdict; and that the verdict is given at the latest when the buffer is full.
\<close>

section \<open>Definitions\<close>

definition kMaximumHttpConnectPrefaceLength :: nat where "kMaximumHttpConnectPrefaceLength = 4096"

definition kConnectPrefix :: bytes where "kConnectPrefix = ascii ''CONNECT ''"
definition kHttpVersionPrefix :: bytes where "kHttpVersionPrefix = ascii ''HTTP/1.''"

abbreviation (input) chr_cr :: u8 where "chr_cr \<equiv> 0x0D"
abbreviation (input) chr_lf :: u8 where "chr_lf \<equiv> 0x0A"
abbreviation (input) chr_space :: u8 where "chr_space \<equiv> 0x20"
abbreviation (input) chr_colon :: u8 where "chr_colon \<equiv> 0x3A"
abbreviation (input) chr_open :: u8 where "chr_open \<equiv> 0x5B"
abbreviation (input) chr_close :: u8 where "chr_close \<equiv> 0x5D"

datatype HttpConnectInspection = Inspect_kNeedMore | Inspect_kNotConnect | Inspect_kAllow | Inspect_kDeny

subsection \<open>Ports and addresses\<close>

fun ParseDigits :: "bytes \<Rightarrow> nat \<Rightarrow> nat option" where
  "ParseDigits [] value = Some value"
| "ParseDigits (byte # rest) value =
     (if byte < 0x30 \<or> 0x39 < byte then None else ParseDigits rest (value * 10 + unat (byte - 0x30)))"

definition ParsePort :: "bytes \<Rightarrow> u16 option" where
  "ParsePort bytes =
     (if length bytes = 0 \<or> 5 < length bytes then None
      else case ParseDigits bytes 0 of
        None \<Rightarrow> None
      | Some value \<Rightarrow> if value = 0 \<or> 65535 < value then None else Some (of_nat value))"

text \<open>\<open>InetPtonA\<close> for a NUL-terminated string: the address bytes if it returns 1.\<close>

record inet_pton =
  pton_ipv4 :: "bytes \<Rightarrow> bytes option"
  pton_ipv6 :: "bytes \<Rightarrow> bytes option"

definition AddressAllowed :: "inet_pton \<Rightarrow> bytes \<Rightarrow> NetworkPolicy \<Rightarrow> bool" where
  "AddressAllowed inet host policy =
     (case pton_ipv4 inet (c_str host) of
        Some ipv4 \<Rightarrow> DecideAddress policy AddressFamily_kIpv4 (Some ipv4) = Decision_kAllow
      | None \<Rightarrow>
          (case pton_ipv6 inet (c_str host) of
             Some ipv6 \<Rightarrow> DecideAddress policy AddressFamily_kIpv6 (Some ipv6) = Decision_kAllow
           | None \<Rightarrow> False))"

subsection \<open>The scans\<close>

text \<open>\<open>while (line_end + 1 < length && (bytes[line_end] != '\r' || bytes[line_end + 1] != '\n'))\<close>\<close>

function LineEnd :: "bytes \<Rightarrow> nat \<Rightarrow> nat" where
  "LineEnd bytes line_end =
     (if line_end + 1 < length bytes \<and> (bytes ! line_end \<noteq> chr_cr \<or> bytes ! (line_end + 1) \<noteq> chr_lf)
      then LineEnd bytes (line_end + 1) else line_end)"
  by pat_completeness auto
termination
  by (relation "measure (\<lambda>(bytes, line_end). length bytes - line_end)") auto

text \<open>\<open>while (index < stop && bytes[index] != byte)\<close>\<close>

function ScanUntil :: "bytes \<Rightarrow> u8 \<Rightarrow> nat \<Rightarrow> nat \<Rightarrow> nat" where
  "ScanUntil bytes byte stop index =
     (if index < stop \<and> bytes ! index \<noteq> byte then ScanUntil bytes byte stop (index + 1) else index)"
  by pat_completeness auto
termination
  by (relation "measure (\<lambda>(bytes, byte, stop, index). stop - index)") auto

text \<open>\<open>while (separator > offset && bytes[separator - 1] != ':')\<close>\<close>

fun ScanBack :: "bytes \<Rightarrow> nat \<Rightarrow> nat \<Rightarrow> nat" where
  "ScanBack bytes offset separator =
     (if offset < separator \<and> bytes ! (separator - 1) \<noteq> chr_colon
      then ScanBack bytes offset (separator - 1) else separator)"

subsection \<open>The inspection\<close>

text \<open>Host offset, host end and port offset of the authority, or \<open>None\<close> where the function denies.\<close>

definition SplitAuthority :: "bytes \<Rightarrow> nat \<Rightarrow> (nat \<times> nat \<times> nat) option" where
  "SplitAuthority bytes authority_end =
     (let authority_offset = length kConnectPrefix
      in if bytes ! authority_offset = chr_open then
           let host_offset = authority_offset + 1;
               host_end = ScanUntil bytes chr_close authority_end host_offset
           in if host_end = host_offset \<or> authority_end \<le> host_end + 1 \<or> bytes ! (host_end + 1) \<noteq> chr_colon
              then None
              else Some (host_offset, host_end, host_end + 2)
         else
           let separator = ScanBack bytes authority_offset authority_end
           in if separator = authority_offset \<or> separator = authority_end then None
              else if chr_colon \<in> set (sub_bytes authority_offset (separator - 1 - authority_offset) bytes) then None
              else Some (authority_offset, separator - 1, separator))"

definition InspectHttpConnectPreface :: "inet_pton \<Rightarrow> byte_ptr \<Rightarrow> bool \<Rightarrow> NetworkPolicy \<Rightarrow> HttpConnectInspection" where
  "InspectHttpConnectPreface inet ptr end_of_stream policy =
     (case ptr of
        None \<Rightarrow> Inspect_kDeny
      | Some bytes \<Rightarrow>
          if kMaximumHttpConnectPrefaceLength < length bytes then Inspect_kDeny
          else
            let prefix_length = (if length bytes < length kConnectPrefix then length bytes else length kConnectPrefix)
            in if take prefix_length bytes \<noteq> take prefix_length kConnectPrefix then Inspect_kNotConnect
            else if length bytes < length kConnectPrefix
            then (if end_of_stream then Inspect_kNotConnect else Inspect_kNeedMore)
            else
              let line_end = LineEnd bytes (length kConnectPrefix)
              in if length bytes \<le> line_end + 1
              then (if end_of_stream \<or> length bytes = kMaximumHttpConnectPrefaceLength then Inspect_kDeny else Inspect_kNeedMore)
              else
                let authority_end = ScanUntil bytes chr_space line_end (length kConnectPrefix);
                    version_offset = authority_end + 1
                in if authority_end = length kConnectPrefix \<or>
                      line_end < version_offset + length kHttpVersionPrefix \<or>
                      sub_bytes version_offset (length kHttpVersionPrefix) bytes \<noteq> kHttpVersionPrefix
                then Inspect_kDeny
                else case SplitAuthority bytes authority_end of
                  None \<Rightarrow> Inspect_kDeny
                | Some (host_offset, host_end, port_offset) \<Rightarrow>
                    let host_length = host_end - host_offset
                    in if host_length = 0 \<or> 253 < host_length \<or> authority_end \<le> port_offset then Inspect_kDeny
                    else case ParsePort (sub_bytes port_offset (authority_end - port_offset) bytes) of
                      None \<Rightarrow> Inspect_kDeny
                    | Some port \<Rightarrow>
                        if DecidePort policy port \<noteq> Decision_kAllow then Inspect_kDeny
                        else
                          let host = sub_bytes host_offset host_length bytes
                          in if AddressAllowed inet host policy \<or> DecideDomain policy (Some host) = Decision_kAllow
                             then Inspect_kAllow else Inspect_kDeny)"

declare LineEnd.simps [simp del] ScanUntil.simps [simp del] ScanBack.simps [simp del]

subsection \<open>Specification\<close>

text \<open>A line ends at the first carriage return that a line feed follows.\<close>

fun first_line :: "bytes \<Rightarrow> (bytes \<times> bytes) option" where
  "first_line (a # b # rest) =
     (if a = chr_cr \<and> b = chr_lf then Some ([], rest)
      else map_option (\<lambda>(line, tail). (a # line, tail)) (first_line (b # rest)))"
| "first_line _ = None"

text \<open>The host and the port of an authority.\<close>

definition authority_parts :: "bytes \<Rightarrow> bytes \<Rightarrow> bytes \<Rightarrow> bool" where
  "authority_parts authority host port \<longleftrightarrow>
     host \<noteq> [] \<and>
     (authority = chr_open # host @ chr_close # chr_colon # port \<and> chr_close \<notin> set host \<or>
      hd authority \<noteq> chr_open \<and> authority = host @ chr_colon # port \<and> chr_colon \<notin> set host \<and> chr_colon \<notin> set port)"

definition port_number :: "bytes \<Rightarrow> u16 \<Rightarrow> bool" where
  "port_number digits port \<longleftrightarrow>
     digits \<noteq> [] \<and> length digits \<le> 5 \<and> list_all is_digit digits \<and> decimal digits = unat port \<and> port \<noteq> 0"

text \<open>The policy allows to connect to a host, as it sees it: up to the first NUL.\<close>

definition host_allowed :: "inet_pton \<Rightarrow> NetworkPolicy \<Rightarrow> bytes \<Rightarrow> bool" where
  "host_allowed inet policy host \<longleftrightarrow> AddressAllowed inet host policy \<or> DecideDomain policy (Some host) = Decision_kAllow"

text \<open>The part of a line before the first space, and the part after it.\<close>

definition connect_target :: "inet_pton \<Rightarrow> NetworkPolicy \<Rightarrow> bytes \<Rightarrow> bytes \<Rightarrow> u16 \<Rightarrow> bool" where
  "connect_target inet policy line host port \<longleftrightarrow>
     (\<exists>authority version digits.
        line = authority @ chr_space # kHttpVersionPrefix @ version \<and> chr_space \<notin> set authority \<and>
        authority_parts authority host digits \<and> length host \<le> 253 \<and> port_number digits port \<and>
        DecidePort policy port = Decision_kAllow \<and> host_allowed inet policy host)"

definition split_ok :: "bytes \<Rightarrow> bytes \<Rightarrow> bytes \<Rightarrow> bytes \<Rightarrow> bool" where
  "split_ok A T host digits \<longleftrightarrow>
     (\<exists>ho he po. SplitAuthority (kConnectPrefix @ A @ T) (8 + length A) = Some (ho, he, po) \<and>
        host = sub_bytes ho (he - ho) (kConnectPrefix @ A @ T) \<and> length host = he - ho \<and> host \<noteq> [] \<and>
        digits = sub_bytes po (8 + length A - po) (kConnectPrefix @ A @ T) \<and> po < 8 + length A)"

text \<open>The verdict on a complete line after the prefix.\<close>

definition line_verdict :: "inet_pton \<Rightarrow> NetworkPolicy \<Rightarrow> bytes \<Rightarrow> HttpConnectInspection" where
  "line_verdict inet policy line =
     (if \<exists>host port. connect_target inet policy line host port then Inspect_kAllow else Inspect_kDeny)"

definition authority_verdict :: "inet_pton \<Rightarrow> NetworkPolicy \<Rightarrow> bytes \<Rightarrow> nat \<Rightarrow> HttpConnectInspection" where
  "authority_verdict inet policy bytes authority_end =
     (case SplitAuthority bytes authority_end of
        None \<Rightarrow> Inspect_kDeny
      | Some (host_offset, host_end, port_offset) \<Rightarrow>
          let host_length = host_end - host_offset
          in if host_length = 0 \<or> 253 < host_length \<or> authority_end \<le> port_offset then Inspect_kDeny
          else case ParsePort (sub_bytes port_offset (authority_end - port_offset) bytes) of
            None \<Rightarrow> Inspect_kDeny
          | Some port \<Rightarrow>
              if DecidePort policy port \<noteq> Decision_kAllow then Inspect_kDeny
              else
                let host = sub_bytes host_offset host_length bytes
                in if AddressAllowed inet host policy \<or> DecideDomain policy (Some host) = Decision_kAllow
                   then Inspect_kAllow else Inspect_kDeny)"

definition example_policy :: NetworkPolicy where
  "example_policy = \<lparr>policy_mode = Mode_kAllowList,
     policy_impl = Some \<lparr>domains = [\<lparr>ascii_domain = ascii ''ok.io'', wildcard = False\<rparr>], addresses = [],
       ports = [\<lparr>port_start = 443, port_end = 443\<rparr>]\<rparr>\<rparr>"

definition example_inet :: inet_pton where
  "example_inet = \<lparr>pton_ipv4 = (\<lambda>_. None), pton_ipv6 = (\<lambda>_. None)\<rparr>"

definition example_request :: bytes where
  "example_request = ascii ''CONNECT ok.io:443 HTTP/1.1'' @ [chr_cr, chr_lf]"

text \<open>The same request for a host that continues after a NUL.\<close>

definition example_nul_request :: bytes where
  "example_nul_request = ascii ''CONNECT ok.io'' @ [0] @ ascii ''.evil.io:443 HTTP/1.1'' @ [chr_cr, chr_lf]"

section \<open>The scans\<close>

lemma ScanUntil_eq:
  "index \<le> stop \<Longrightarrow> stop \<le> length bytes \<Longrightarrow>
    ScanUntil bytes byte stop index = index + length (takeWhile (\<lambda>c. c \<noteq> byte) (sub_bytes index (stop - index) bytes))"
proof (induction "stop - index" arbitrary: index)
  case 0
  then show ?case by (subst ScanUntil.simps) (simp add: sub_bytes_def)
next
  case (Suc n)
  have lt: "index < stop" using Suc.hyps(2) by simp
  have s: "sub_bytes index (stop - index) bytes = bytes ! index # sub_bytes (index + 1) (stop - (index + 1)) bytes"
    using lt Suc.prems Suc.hyps(2) by (simp add: sub_bytes_def Cons_nth_drop_Suc [symmetric] take_Cons')
  show ?case
  proof (cases "bytes ! index = byte")
    case True
    then show ?thesis by (subst ScanUntil.simps) (simp add: s)
  next
    case False
    have "ScanUntil bytes byte stop index = ScanUntil bytes byte stop (index + 1)"
      using lt False by (subst ScanUntil.simps) simp
    also have "\<dots> = index + 1 + length (takeWhile (\<lambda>c. c \<noteq> byte) (sub_bytes (index + 1) (stop - (index + 1)) bytes))"
      by (rule Suc.hyps(1)) (use Suc.hyps(2) Suc.prems lt in simp_all)
    finally show ?thesis using False by (simp add: s)
  qed
qed

lemma ScanBack_eq:
  "offset \<le> separator \<Longrightarrow> separator \<le> length bytes \<Longrightarrow>
    ScanBack bytes offset separator =
      separator - length (takeWhile (\<lambda>c. c \<noteq> chr_colon) (rev (sub_bytes offset (separator - offset) bytes)))"
proof (induction "separator - offset" arbitrary: separator)
  case 0
  then show ?case by (subst ScanBack.simps) (simp add: sub_bytes_def)
next
  case (Suc n)
  have lt: "offset < separator" using Suc.hyps(2) by simp
  have s: "sub_bytes offset (separator - offset) bytes = sub_bytes offset (separator - 1 - offset) bytes @ [bytes ! (separator - 1)]"
  proof -
    have "separator - offset = Suc (separator - 1 - offset)" using lt by simp
    moreover have "separator - 1 - offset < length (drop offset bytes)" using lt Suc.prems by simp
    ultimately show ?thesis using lt Suc.prems by (simp only: sub_bytes_def take_Suc_conv_app_nth) simp
  qed
  show ?case
  proof (cases "bytes ! (separator - 1) = chr_colon")
    case True
    then show ?thesis by (subst ScanBack.simps) (simp add: s)
  next
    case False
    have "ScanBack bytes offset separator = ScanBack bytes offset (separator - 1)"
      using lt False by (subst ScanBack.simps) simp
    also have "\<dots> = separator - 1 - length (takeWhile (\<lambda>c. c \<noteq> chr_colon) (rev (sub_bytes offset (separator - 1 - offset) bytes)))"
      by (rule Suc.hyps(1)) (use Suc.hyps(2) Suc.prems lt in simp_all)
    finally show ?thesis using False by (simp add: s)
  qed
qed

lemma first_line_Some: "first_line bs = Some (line, rest) \<Longrightarrow> bs = line @ chr_cr # chr_lf # rest"
  by (induction bs arbitrary: line rule: first_line.induct) (auto split: if_splits)

lemma first_line_append: "first_line bs = Some (line, rest) \<Longrightarrow> first_line (bs @ ys) = Some (line, rest @ ys)"
  by (induction bs arbitrary: line rule: first_line.induct) (auto split: if_splits)

lemma LineEnd_eq:
  "n \<le> length bytes \<Longrightarrow>
    (case first_line (drop n bytes) of
       Some (line, rest) \<Rightarrow> LineEnd bytes n = n + length line
     | None \<Rightarrow> length bytes \<le> LineEnd bytes n + 1)"
proof (induction "length bytes - n" arbitrary: n)
  case 0
  then show ?case by (subst LineEnd.simps) simp
next
  case (Suc k)
  show ?case
  proof (cases "n + 1 < length bytes")
    case False
    then have "drop n bytes = [bytes ! n]" using Suc.hyps(2) by (simp add: Cons_nth_drop_Suc [symmetric])
    then show ?thesis using False by (subst LineEnd.simps) simp
  next
    case True
    have d: "drop n bytes = bytes ! n # bytes ! (n + 1) # drop (n + 2) bytes"
      and d1: "drop (n + 1) bytes = bytes ! (n + 1) # drop (n + 2) bytes"
      using True by (simp_all add: Cons_nth_drop_Suc)
    show ?thesis
    proof (cases "bytes ! n = chr_cr \<and> bytes ! (n + 1) = chr_lf")
      case cr: True
      then show ?thesis unfolding d by (subst LineEnd.simps) simp
    next
      case no: False
      have "LineEnd bytes n = LineEnd bytes (n + 1)" using True no by (subst LineEnd.simps) auto
      moreover have "case first_line (drop (n + 1) bytes) of Some (line, rest) \<Rightarrow> LineEnd bytes (n + 1) = n + 1 + length line
          | None \<Rightarrow> length bytes \<le> LineEnd bytes (n + 1) + 1"
        by (rule Suc.hyps(1)) (use Suc.hyps(2) True in simp_all)
      moreover have "first_line (drop n bytes) = map_option (\<lambda>(line, tail). (bytes ! n # line, tail)) (first_line (drop (n + 1) bytes))"
        unfolding d d1 using no by auto
      ultimately show ?thesis by (auto split: option.splits)
    qed
  qed
qed

lemma length_kConnectPrefix [simp]: "length kConnectPrefix = 8"
  by (simp add: kConnectPrefix_def)

lemma length_kHttpVersionPrefix [simp]: "length kHttpVersionPrefix = 7"
  by (simp add: kHttpVersionPrefix_def)

section \<open>The authority\<close>

lemma sub_mid: "i + n \<le> length A \<Longrightarrow> sub_bytes (8 + i) n (kConnectPrefix @ A @ T) = take n (drop i A)"
  by (simp add: sub_bytes_def)

lemma nth_mid: "i < length A \<Longrightarrow> (kConnectPrefix @ A @ T) ! (8 + i) = A ! i"
  by (simp add: nth_append)

lemma drop_end: "drop (length (X @ D) - length D) (X @ D) = D"
  by simp

lemma split_colon:
  assumes "takeWhile (\<lambda>c. c \<noteq> x) (rev A) = rev D" "length D < length A"
  shows "A = take (length A - length D - 1) A @ x # D \<and> x \<notin> set D"
proof -
  have r: "rev A = rev D @ dropWhile (\<lambda>c. c \<noteq> x) (rev A)"
    using takeWhile_dropWhile_id [of "\<lambda>c. c \<noteq> x" "rev A"] unfolding assms(1) by (rule sym)
  have "length A = length D" if "dropWhile (\<lambda>c. c \<noteq> x) (rev A) = []"
    using arg_cong [OF r, of length] that by simp
  then obtain y ys where d: "dropWhile (\<lambda>c. c \<noteq> x) (rev A) = y # ys"
    using assms(2) by (cases "dropWhile (\<lambda>c. c \<noteq> x) (rev A)") auto
  have y: "y = x" using hd_dropWhile [of "\<lambda>c. c \<noteq> x" "rev A"] d by simp
  have A: "A = rev ys @ x # D" using arg_cong [OF r, of rev] unfolding d y by simp
  have "x \<notin> set (rev D)" unfolding assms(1) [symmetric] by (auto dest: set_takeWhileD)
  then show ?thesis by (simp add: A)
qed

lemma split_bracket:
  assumes A: "A = chr_open # B"
  shows "split_ok A T host digits \<longleftrightarrow> authority_parts A host digits \<and> digits \<noteq> []"
proof -
  let ?bytes = "kConnectPrefix @ A @ T" and ?h = "takeWhile (\<lambda>c. c \<noteq> chr_close) B"
  have open': "?bytes ! 8 = chr_open" using nth_mid [of 0 A T] A by simp
  have "sub_bytes 9 (8 + length A - 9) ?bytes = B" using sub_mid [of 1 "length B" A T] A by simp
  then have he: "ScanUntil ?bytes chr_close (8 + length A) 9 = 9 + length ?h"
    using A by (subst ScanUntil_eq) (simp_all del: append_Cons)
  have host: "sub_bytes 9 (length ?h) ?bytes = ?h"
    using sub_mid [of 1 "length ?h" A T] A length_takeWhile_le [of "\<lambda>c. c \<noteq> chr_close" B]
    by (simp add: takeWhile_eq_take [symmetric])
  have run: "SplitAuthority ?bytes (8 + length A) =
      (if ?h = [] \<or> length B \<le> length ?h + 1 \<or> B ! (length ?h + 1) \<noteq> chr_colon then None
       else Some (9, 9 + length ?h, 11 + length ?h))"
  proof (cases "length B \<le> length ?h + 1")
    case True
    then show ?thesis using open' he A by (simp add: SplitAuthority_def Let_def)
  next
    case False
    then have "?bytes ! (8 + (length ?h + 2)) = B ! (length ?h + 1)" using A by (subst nth_mid) simp_all
    then have "?bytes ! (9 + length ?h + 1) = B ! (length ?h + 1)" by (simp add: add.commute add.left_commute)
    then show ?thesis using open' he A False by (simp add: SplitAuthority_def Let_def)
  qed
  have dig: "sub_bytes (11 + length ?h) (8 + length A - (11 + length ?h)) ?bytes = drop (length ?h + 2) B"
    if "length ?h + 1 < length B"
    using that A sub_mid [of "Suc (length ?h + 2)" "length B - (length ?h + 2)" A T] by (simp add: add.commute add.left_commute)
  show ?thesis
  proof
    assume "split_ok A T host digits"
    then have c: "?h \<noteq> []" "length ?h + 1 < length B" "B ! (length ?h + 1) = chr_colon" and h: "host = ?h"
      and d: "digits = drop (length ?h + 2) B" and ne: "11 + length ?h < 8 + length A"
      using host dig by (auto simp: split_ok_def run split: if_splits)
    have "B ! length ?h = chr_close" using c(2) nth_length_takeWhile [of "\<lambda>c. c \<noteq> chr_close" B] by simp
    then have "B = ?h @ chr_close # chr_colon # digits"
      using c d by (metis (no_types, lifting) Cons_nth_drop_Suc Suc_eq_plus1 Suc_lessD add_2_eq_Suc' append_take_drop_id takeWhile_eq_take)
    moreover have "chr_close \<notin> set ?h" by (auto dest: set_takeWhileD)
    moreover have "digits \<noteq> []" using d ne A by simp
    ultimately show "authority_parts A host digits \<and> digits \<noteq> []" using A h c(1) by (simp add: authority_parts_def)
  next
    assume a: "authority_parts A host digits \<and> digits \<noteq> []"
    then have B: "B = host @ chr_close # chr_colon # digits" "chr_close \<notin> set host" "host \<noteq> []" "digits \<noteq> []"
      using A by (auto simp: authority_parts_def)
    have h: "?h = host" using B(1,2) by (auto simp: takeWhile_append takeWhile_eq_all_conv)
    then show "split_ok A T host digits" using run host dig A B by (auto simp: split_ok_def nth_append)
  qed
qed

lemma split_plain:
  assumes A: "A \<noteq> []" "hd A \<noteq> chr_open"
  shows "split_ok A T host digits \<longleftrightarrow> authority_parts A host digits \<and> digits \<noteq> []"
proof -
  let ?bytes = "kConnectPrefix @ A @ T"
  define D where "D = rev (takeWhile (\<lambda>c. c \<noteq> chr_colon) (rev A))"
  have open': "?bytes ! 8 \<noteq> chr_open" using nth_mid [of 0 A T] A by (simp add: hd_conv_nth)
  have len: "length D \<le> length A" unfolding D_def by (metis length_rev length_takeWhile_le)
  have sep: "ScanBack ?bytes 8 (8 + length A) = 8 + length A - length D"
    using sub_mid [of 0 "length A" A T] by (subst ScanBack_eq) (simp_all add: D_def)
  define H where "H = take (length A - length D - 1) A"
  have h: "sub_bytes 8 (length H) ?bytes = H" if "length D < length A"
    using sub_mid [of 0 "length A - length D - 1" A T] that by (simp add: H_def)
  have hl: "length H = length A - length D - 1" by (simp add: H_def)
  have run: "SplitAuthority ?bytes (8 + length A) =
      (if length D = length A \<or> D = [] \<or> chr_colon \<in> set H then None
       else Some (8, 8 + length H, 8 + length A - length D))"
  proof (cases "length D = length A \<or> D = []")
    case True
    then show ?thesis using open' sep by (auto simp: SplitAuthority_def Let_def)
  next
    case False
    then have lt: "length D < length A" using len by simp
    have "8 + length A - length D - 1 - 8 = length H" "8 + length A - length D - 1 = 8 + length H"
      "8 + length A - length D \<noteq> 8" "8 + length A - length D \<noteq> 8 + length A"
      using lt False hl by (simp_all flip: length_greater_0_conv)
    then show ?thesis using open' sep False h [OF lt] by (simp add: SplitAuthority_def Let_def)
  qed
  have split: "A = H @ chr_colon # D \<and> chr_colon \<notin> set D" if "length D < length A"
    unfolding H_def by (rule split_colon [OF _ that]) (simp add: D_def)
  have dig: "sub_bytes (8 + length A - length D) (length D) ?bytes = D" if lt: "length D < length A"
  proof -
    have "drop (length A - length D) A = D" using drop_end [of "H @ [chr_colon]" D] split [OF lt] by simp
    moreover have "sub_bytes (8 + (length A - length D)) (length D) ?bytes = take (length D) (drop (length A - length D) A)"
      by (rule sub_mid) (use len in simp)
    moreover have "8 + (length A - length D) = 8 + length A - length D" using len by simp
    ultimately show ?thesis by simp
  qed
  show ?thesis
  proof
    assume "split_ok A T host digits"
    then obtain ho he po where sp: "SplitAuthority ?bytes (8 + length A) = Some (ho, he, po)"
      "host = sub_bytes ho (he - ho) ?bytes" "host \<noteq> []" "digits = sub_bytes po (8 + length A - po) ?bytes"
      unfolding split_ok_def by blast
    from sp(1) have c: "length D \<noteq> length A" "D \<noteq> []" "chr_colon \<notin> set H"
      and po: "ho = 8" "he = 8 + length H" "po = 8 + length A - length D"
      unfolding run by (simp_all split: if_splits)
    have lt: "length D < length A" using c(1) len by simp
    have "8 + length A - po = length D" using po len by simp
    then have "host = H" "H \<noteq> []" "digits = D" using sp(2-4) po h [OF lt] dig [OF lt] by simp_all
    then show "authority_parts A host digits \<and> digits \<noteq> []"
      using A split [OF lt] c unfolding authority_parts_def by blast
  next
    assume a: "authority_parts A host digits \<and> digits \<noteq> []"
    then have B: "A = host @ chr_colon # digits" "chr_colon \<notin> set host" "chr_colon \<notin> set digits" "host \<noteq> []" "digits \<noteq> []"
      using A by (auto simp: authority_parts_def)
    have "takeWhile (\<lambda>c. c \<noteq> chr_colon) (rev A) = rev digits"
      using B(3) by (auto simp: B(1) takeWhile_append takeWhile_eq_all_conv)
    then have D: "D = digits" by (simp add: D_def)
    then have H: "H = host" by (simp add: H_def B(1))
    have lt: "length D < length A" using B D by simp
    have "SplitAuthority ?bytes (8 + length A) = Some (8, 8 + length H, 8 + length A - length D)"
      unfolding run using lt B D H by simp
    moreover have "8 + length A - (8 + length A - length D) = length D" "8 + length H - 8 = length H"
      "8 + length A - length D < 8 + length A"
      using len lt B(5) D by simp_all
    ultimately show "split_ok A T host digits"
      unfolding split_ok_def using h [OF lt] dig [OF lt] H D B(4) by (intro exI [of _ 8] exI [of _ "8 + length H"]
        exI [of _ "8 + length A - length D"]) simp
  qed
qed

lemma split_ok_iff:
  "A \<noteq> [] \<Longrightarrow> split_ok A T host digits \<longleftrightarrow> authority_parts A host digits \<and> digits \<noteq> []"
  by (cases "hd A = chr_open"; cases A) (simp_all add: split_bracket split_plain)

lemma ParseDigits_eq:
  "ParseDigits ds v = (if list_all is_digit ds then Some (fold (\<lambda>b n. n * 10 + unat (b - 0x30)) ds v) else None)"
  by (induction ds arbitrary: v) (auto simp: is_digit_def not_less)

lemma ParsePort_iff: "ParsePort ds = Some port \<longleftrightarrow> port_number ds port"
proof -
  have "unat port < 65536" using unsigned_less [of port] by simp
  moreover have "unat (of_nat n :: u16) = n" if "n < 65536" for n using that by (simp add: unat_of_nat_less)
  ultimately have "(decimal ds \<noteq> 0 \<and> \<not> 65535 < decimal ds \<and> of_nat (decimal ds) = port) \<longleftrightarrow> decimal ds = unat port \<and> port \<noteq> 0"
    by (auto simp: unat_eq_0 [symmetric] not_less)
  then show ?thesis
    by (auto simp: ParsePort_def ParseDigits_eq port_number_def decimal_def)
qed

section \<open>The inspection\<close>

lemma SplitAuthority_bounds:
  assumes "SplitAuthority bytes e = Some (ho, he, po)" "8 < e" "e \<le> length bytes"
  shows "he \<le> length bytes \<and> ho \<le> he \<and> po \<le> length bytes"
proof (cases "bytes ! 8 = chr_open")
  case True
  have "length (takeWhile (\<lambda>c. c \<noteq> chr_close) (sub_bytes 9 (e - 9) bytes)) \<le> e - 9"
    using length_takeWhile_le [of "\<lambda>c. c \<noteq> chr_close" "sub_bytes 9 (e - 9) bytes"] by (simp add: sub_bytes_def)
  then show ?thesis using True assms ScanUntil_eq [of 9 e bytes chr_close]
    by (auto simp: SplitAuthority_def Let_def split: if_splits)
next
  case False
  have "ScanBack bytes 8 e \<le> e" using assms by (simp add: ScanBack_eq)
  moreover have "8 \<le> ScanBack bytes 8 e"
  proof -
    have "length (takeWhile (\<lambda>c. c \<noteq> chr_colon) (rev (sub_bytes 8 (e - 8) bytes))) \<le> e - 8"
      using length_takeWhile_le [of "\<lambda>c. c \<noteq> chr_colon" "rev (sub_bytes 8 (e - 8) bytes)"] by (simp add: sub_bytes_def)
    then show ?thesis using assms by (simp add: ScanBack_eq)
  qed
  ultimately show ?thesis using False assms by (auto simp: SplitAuthority_def Let_def split: if_splits)
qed

lemma authority_verdict_iff:
  assumes "A \<noteq> []"
  shows "authority_verdict inet policy (kConnectPrefix @ A @ T) (8 + length A) = Inspect_kAllow \<longleftrightarrow>
    (\<exists>host digits port. authority_parts A host digits \<and> length host \<le> 253 \<and> port_number digits port \<and>
       DecidePort policy port = Decision_kAllow \<and> host_allowed inet policy host)"
proof -
  let ?bytes = "kConnectPrefix @ A @ T" and ?e = "8 + length A"
  have "authority_verdict inet policy ?bytes ?e = Inspect_kAllow \<longleftrightarrow>
    (\<exists>host digits port. split_ok A T host digits \<and> length host \<le> 253 \<and> ParsePort digits = Some port \<and>
       DecidePort policy port = Decision_kAllow \<and> host_allowed inet policy host)"
  proof (cases "SplitAuthority ?bytes ?e")
    case None
    then show ?thesis by (simp add: authority_verdict_def split_ok_def)
  next
    case (Some r)
    obtain ho he po where r: "r = (ho, he, po)" by (cases r)
    have b: "he \<le> length ?bytes" "ho \<le> he" using SplitAuthority_bounds [of ?bytes ?e ho he po] Some r assms by simp_all
    define host where "host = sub_bytes ho (he - ho) ?bytes"
    define digits where "digits = sub_bytes po (?e - po) ?bytes"
    have hl: "length host = he - ho" using b unfolding host_def sub_bytes_def length_take length_drop by linarith
    have so: "split_ok A T h d \<longleftrightarrow> h = host \<and> d = digits \<and> host \<noteq> [] \<and> po < ?e" for h d
      using Some r hl unfolding split_ok_def host_def [symmetric] digits_def [symmetric] by (auto simp: host_def digits_def)
    have "authority_verdict inet policy ?bytes ?e =
      (if length host = 0 \<or> 253 < length host \<or> ?e \<le> po then Inspect_kDeny
       else case ParsePort digits of None \<Rightarrow> Inspect_kDeny
        | Some port \<Rightarrow> if DecidePort policy port \<noteq> Decision_kAllow then Inspect_kDeny
           else if host_allowed inet policy host then Inspect_kAllow else Inspect_kDeny)"
      unfolding authority_verdict_def Some r option.case prod.case Let_def hl host_def [symmetric] digits_def [symmetric]
        host_allowed_def ..
    then show ?thesis unfolding so by (auto split: option.splits)
  qed
  then show ?thesis unfolding split_ok_iff [OF assms] ParsePort_iff by (auto simp: port_number_def)
qed

lemma authority_verdict_deny: "authority_verdict inet policy bytes e \<noteq> Inspect_kAllow \<Longrightarrow> authority_verdict inet policy bytes e = Inspect_kDeny"
  by (auto simp: authority_verdict_def Let_def split: option.splits prod.splits if_splits)

lemma Inspect_unfold:
  "InspectHttpConnectPreface inet (Some bytes) eos policy =
    (if kMaximumHttpConnectPrefaceLength < length bytes then Inspect_kDeny
     else if length bytes < 8 then
       (if bytes \<noteq> take (length bytes) kConnectPrefix then Inspect_kNotConnect
        else if eos then Inspect_kNotConnect else Inspect_kNeedMore)
     else if take 8 bytes \<noteq> kConnectPrefix then Inspect_kNotConnect
     else
       let line_end = LineEnd bytes 8
       in if length bytes \<le> line_end + 1
          then (if eos \<or> length bytes = kMaximumHttpConnectPrefaceLength then Inspect_kDeny else Inspect_kNeedMore)
          else
            let e = ScanUntil bytes chr_space line_end 8
            in if e = 8 \<or> line_end < e + 1 + 7 \<or> sub_bytes (e + 1) 7 bytes \<noteq> kHttpVersionPrefix then Inspect_kDeny
               else authority_verdict inet policy bytes e)"
  unfolding InspectHttpConnectPreface_def authority_verdict_def option.case length_kConnectPrefix length_kHttpVersionPrefix Let_def
  by (simp add: eq_commute)

lemma takeWhile_split: "c \<notin> set A \<Longrightarrow> takeWhile (\<lambda>x. x \<noteq> c) (A @ c # B) = A"
  by (simp add: takeWhile_append takeWhile_eq_all_conv)

lemma Inspect_line:
  assumes "length bytes \<le> kMaximumHttpConnectPrefaceLength" "take 8 bytes = kConnectPrefix" "8 \<le> length bytes"
    and "first_line (drop 8 bytes) = Some (line, rest)"
  shows "InspectHttpConnectPreface inet (Some bytes) eos policy = line_verdict inet policy line"
proof -
  define A where "A = takeWhile (\<lambda>c. c \<noteq> chr_space) line"
  define V where "V = dropWhile (\<lambda>c. c \<noteq> chr_space) line"
  have line: "line = A @ V" by (simp add: A_def V_def)
  have bytes: "bytes = kConnectPrefix @ A @ V @ chr_cr # chr_lf # rest"
    using assms(2) first_line_Some [OF assms(4)] by (metis append.assoc append_take_drop_id line)
  have le: "LineEnd bytes 8 = 8 + length line" using LineEnd_eq [of 8 bytes] assms(3,4) by simp
  have "sub_bytes 8 (length line) bytes = line" by (simp add: bytes line sub_bytes_def)
  then have e: "ScanUntil bytes chr_space (8 + length line) 8 = 8 + length A"
    by (subst ScanUntil_eq) (simp_all add: A_def [symmetric], simp add: bytes line)
  have V: "V = [] \<or> hd V = chr_space" and nA: "chr_space \<notin> set A"
    using hd_dropWhile [of "\<lambda>c. c \<noteq> chr_space" line] by (auto simp: V_def A_def dest: set_takeWhileD)
  have sub: "sub_bytes (8 + length A + 1) 7 bytes = take 7 (drop 1 V @ chr_cr # chr_lf # rest)"
    if "V \<noteq> []" using that by (cases V) (simp_all add: bytes sub_bytes_def)
  have head: "\<not> (8 + length line < 8 + length A + 1 + 7 \<or> sub_bytes (8 + length A + 1) 7 bytes \<noteq> kHttpVersionPrefix) \<longleftrightarrow>
      (\<exists>version. V = chr_space # kHttpVersionPrefix @ version)" (is "?L \<longleftrightarrow> ?R")
  proof
    assume L: ?L
    then have "8 \<le> length V" by (simp add: line)
    then obtain W where W: "V = chr_space # W" "7 \<le> length W" using V by (cases V) auto
    then have "take 7 W = kHttpVersionPrefix" using L sub by simp
    then have "W = kHttpVersionPrefix @ drop 7 W" by (metis append_take_drop_id)
    then show ?R using W by blast
  next
    assume ?R
    then show ?L using sub by (auto simp: line)
  qed
  have verdict: "InspectHttpConnectPreface inet (Some bytes) eos policy =
      (if A \<noteq> [] \<and> (\<exists>version. V = chr_space # kHttpVersionPrefix @ version)
       then authority_verdict inet policy bytes (8 + length A) else Inspect_kDeny)"
  proof -
    have "\<not> kMaximumHttpConnectPrefaceLength < length bytes" "\<not> length bytes < 8" "\<not> take 8 bytes \<noteq> kConnectPrefix"
      using assms(1-3) by simp_all
    moreover have "\<not> length bytes \<le> 8 + length line + 1" by (simp add: bytes line)
    ultimately have "InspectHttpConnectPreface inet (Some bytes) eos policy =
      (if 8 + length A = 8 \<or> 8 + length line < 8 + length A + 1 + 7 \<or> sub_bytes (8 + length A + 1) 7 bytes \<noteq> kHttpVersionPrefix
       then Inspect_kDeny else authority_verdict inet policy bytes (8 + length A))"
      unfolding Inspect_unfold le Let_def e by (simp only: if_False)
    then show ?thesis unfolding head [symmetric] by auto
  qed
  have target: "connect_target inet policy line host port \<longleftrightarrow>
      (\<exists>version. V = chr_space # kHttpVersionPrefix @ version) \<and>
      (\<exists>digits. authority_parts A host digits \<and> length host \<le> 253 \<and> port_number digits port \<and>
         DecidePort policy port = Decision_kAllow \<and> host_allowed inet policy host)" for host port
  proof -
    have "authority = A \<and> V = chr_space # kHttpVersionPrefix @ version"
      if "line = authority @ chr_space # kHttpVersionPrefix @ version" "chr_space \<notin> set authority" for authority version
    proof -
      have "A = authority" unfolding A_def that(1) by (rule takeWhile_split [OF that(2)])
      moreover have "V = chr_space # kHttpVersionPrefix @ version"
        using that(1) line calculation by simp
      ultimately show ?thesis by simp
    qed
    then show ?thesis unfolding connect_target_def using line nA by blast
  qed
  have ne: "A \<noteq> []" if "authority_parts A host digits" for host digits using that by (auto simp: authority_parts_def)
  show ?thesis
  proof (cases "A \<noteq> [] \<and> (\<exists>version. V = chr_space # kHttpVersionPrefix @ version)")
    case True
    have "(\<exists>host port. connect_target inet policy line host port) \<longleftrightarrow>
        authority_verdict inet policy bytes (8 + length A) = Inspect_kAllow"
      unfolding target bytes authority_verdict_iff [OF conjunct1 [OF True]] using True by blast
    then show ?thesis
      using True authority_verdict_deny [of inet policy bytes "8 + length A"] unfolding verdict line_verdict_def by auto
  next
    case False
    then show ?thesis unfolding verdict line_verdict_def target using ne by auto
  qed
qed

lemma Inspect_eq:
  assumes "length bytes \<le> kMaximumHttpConnectPrefaceLength"
  shows "InspectHttpConnectPreface inet (Some bytes) eos policy =
    (if take 8 bytes \<noteq> take (length bytes) kConnectPrefix then Inspect_kNotConnect
     else if length bytes < 8 then (if eos then Inspect_kNotConnect else Inspect_kNeedMore)
     else case first_line (drop 8 bytes) of
       None \<Rightarrow> if eos \<or> length bytes = kMaximumHttpConnectPrefaceLength then Inspect_kDeny else Inspect_kNeedMore
     | Some (line, rest) \<Rightarrow> line_verdict inet policy line)"
proof (cases "8 \<le> length bytes \<and> take 8 bytes = kConnectPrefix")
  case True
  have p: "take (length bytes) kConnectPrefix = kConnectPrefix" using True by simp
  show ?thesis
  proof (cases "first_line (drop 8 bytes)")
    case None
    then have "length bytes \<le> LineEnd bytes 8 + 1" using LineEnd_eq [of 8 bytes] True by simp
    then show ?thesis using assms True None p by (simp add: Inspect_unfold Let_def)
  next
    case (Some r)
    obtain line rest where r: "r = (line, rest)" by (cases r)
    then show ?thesis using Inspect_line [OF assms _ _ Some [unfolded r]] True Some p by simp
  qed
next
  case False
  then show ?thesis using assms by (auto simp: Inspect_unfold)
qed

lemma Inspect_stable:
  assumes "length (bytes @ ys) \<le> kMaximumHttpConnectPrefaceLength"
    and "InspectHttpConnectPreface inet (Some bytes) False policy = verdict" "verdict \<noteq> Inspect_kNeedMore"
  shows "InspectHttpConnectPreface inet (Some (bytes @ ys)) eos policy = verdict"
proof -
  have len: "length bytes \<le> kMaximumHttpConnectPrefaceLength" using assms(1) by simp
  note eqs = Inspect_eq [OF len, of inet False policy] Inspect_eq [OF assms(1), of inet eos policy]
  show ?thesis
  proof (cases "take 8 bytes = take (length bytes) kConnectPrefix")
    case False
    have "take 8 (bytes @ ys) \<noteq> take (length (bytes @ ys)) kConnectPrefix"
    proof
      assume "take 8 (bytes @ ys) = take (length (bytes @ ys)) kConnectPrefix"
      then have "take (length bytes) (take 8 (bytes @ ys)) = take (length bytes) (take (length (bytes @ ys)) kConnectPrefix)" by simp
      then show False using False by (simp add: min_def split: if_splits)
    qed
    then show ?thesis using False assms(2) eqs by simp
  next
    case True
    then have long: "\<not> length bytes < 8" using assms(2,3) eqs(1) by auto
    show ?thesis
    proof (cases "first_line (drop 8 bytes)")
      case None
      then have full: "length bytes = kMaximumHttpConnectPrefaceLength"
        using True long assms(2,3) eqs(1) by (auto split: if_splits)
      then have "ys = []" using assms(1) by simp
      then show ?thesis using eqs True long None full assms(2) by simp
    next
      case (Some r)
      obtain line rest where r: "r = (line, rest)" by (cases r)
      have "first_line (drop 8 (bytes @ ys)) = Some (line, rest @ ys)"
        using first_line_append [OF Some [unfolded r], of ys] long by simp
      moreover have "take 8 (bytes @ ys) = take (length (bytes @ ys)) kConnectPrefix" using True long by simp
      ultimately show ?thesis using eqs True long Some r assms(2) by simp
    qed
  qed
qed

lemma Inspect_decides:
  assumes "eos \<or> length bytes = kMaximumHttpConnectPrefaceLength"
  shows "InspectHttpConnectPreface inet (Some bytes) eos policy \<noteq> Inspect_kNeedMore"
proof (cases "length bytes \<le> kMaximumHttpConnectPrefaceLength")
  case True
  then show ?thesis using assms
    by (auto simp: Inspect_eq line_verdict_def kMaximumHttpConnectPrefaceLength_def split: option.splits)
qed (simp add: InspectHttpConnectPreface_def)

lemma Inspect_allow_iff:
  "InspectHttpConnectPreface inet (Some bytes) eos policy = Inspect_kAllow \<longleftrightarrow>
    length bytes \<le> kMaximumHttpConnectPrefaceLength \<and> take 8 bytes = kConnectPrefix \<and>
    (\<exists>line rest host port. first_line (drop 8 bytes) = Some (line, rest) \<and> connect_target inet policy line host port)"
proof (cases "length bytes \<le> kMaximumHttpConnectPrefaceLength")
  case True
  note eq = Inspect_eq [OF True, of inet eos policy]
  show ?thesis
  proof (cases "8 \<le> length bytes")
    case long: True
    then have p: "take (length bytes) kConnectPrefix = kConnectPrefix" by simp
    show ?thesis using True long unfolding eq p by (auto simp: line_verdict_def split: option.splits)
  next
    case False
    then have "take 8 bytes \<noteq> kConnectPrefix" using arg_cong [of "take 8 bytes" kConnectPrefix length] by auto
    then show ?thesis using False unfolding eq by auto
  qed
qed (simp add: InspectHttpConnectPreface_def)

lemma Inspect_not_connect_iff:
  "InspectHttpConnectPreface inet (Some bytes) eos policy = Inspect_kNotConnect \<longleftrightarrow>
    length bytes \<le> kMaximumHttpConnectPrefaceLength \<and>
    (take 8 bytes \<noteq> take (length bytes) kConnectPrefix \<or> eos \<and> length bytes < 8)"
proof (cases "length bytes \<le> kMaximumHttpConnectPrefaceLength")
  case True
  show ?thesis using True unfolding Inspect_eq [OF True]
    by (auto simp: line_verdict_def split: option.splits)
qed (simp add: InspectHttpConnectPreface_def)

section \<open>Properties\<close>

lemma example_target:
  "connect_target example_inet example_policy (ascii ''ok.io:443 HTTP/1.1'') (ascii ''ok.io'') 443"
  "connect_target example_inet example_policy (ascii ''ok.io'' @ [0] @ ascii ''.evil.io:443 HTTP/1.1'')
     (ascii ''ok.io'' @ [0] @ ascii ''.evil.io'') 443"
proof -
  have port: "port_number (ascii ''443'') 443" by code_simp
  have policy: "DecidePort example_policy 443 = Decision_kAllow" by code_simp
  show "connect_target example_inet example_policy (ascii ''ok.io:443 HTTP/1.1'') (ascii ''ok.io'') 443"
    unfolding connect_target_def
    by (intro exI [of _ "ascii ''ok.io:443''"] exI [of _ "ascii ''1''"] exI [of _ "ascii ''443''"] conjI port policy; code_simp)
  show "connect_target example_inet example_policy (ascii ''ok.io'' @ [0] @ ascii ''.evil.io:443 HTTP/1.1'')
     (ascii ''ok.io'' @ [0] @ ascii ''.evil.io'') 443"
    unfolding connect_target_def
    by (intro exI [of _ "ascii ''ok.io'' @ [0] @ ascii ''.evil.io:443''"] exI [of _ "ascii ''1''"] exI [of _ "ascii ''443''"]
        conjI port policy; code_simp)
qed

lemma Inspect_target:
  assumes "bytes = kConnectPrefix @ line @ [chr_cr, chr_lf]" "length line \<le> 4000" "first_line (line @ [chr_cr, chr_lf]) = Some (line, [])"
    and "connect_target inet policy line host port"
  shows "InspectHttpConnectPreface inet (Some bytes) eos policy = Inspect_kAllow"
proof -
  have "InspectHttpConnectPreface inet (Some bytes) eos policy = line_verdict inet policy line"
    by (rule Inspect_line [where rest = "[]"]) (use assms(2,3) in \<open>simp_all add: assms(1) kMaximumHttpConnectPrefaceLength_def\<close>)
  then show ?thesis using assms(4) by (auto simp: line_verdict_def)
qed

lemma example_allowed:
  "InspectHttpConnectPreface example_inet (Some example_request) False example_policy = Inspect_kAllow"
  "InspectHttpConnectPreface example_inet (Some example_nul_request) False example_policy = Inspect_kAllow"
proof -
  show "InspectHttpConnectPreface example_inet (Some example_request) False example_policy = Inspect_kAllow"
    by (rule Inspect_target [OF _ _ _ example_target(1)]) (simp_all add: example_request_def, code_simp+)
  show "InspectHttpConnectPreface example_inet (Some example_nul_request) False example_policy = Inspect_kAllow"
    by (rule Inspect_target [OF _ _ _ example_target(2)]) (simp_all add: example_nul_request_def, code_simp+)
qed

lemma host_allowed_c_str: "host_allowed inet policy host \<longleftrightarrow> host_allowed inet policy (c_str host)"
proof -
  have "DecideDomain policy (Some (c_str host)) = DecideDomain policy (Some host)" by (simp add: DecideDomain_def)
  moreover have "AddressAllowed inet (c_str host) policy = AddressAllowed inet host policy"
    unfolding AddressAllowed_def c_str_idem ..
  ultimately show ?thesis by (simp add: host_allowed_def)
qed

text \<open>
  C11. The inspection of what a client sends first.  It allows exactly the byte strings of
  at most \<open>kMaximumHttpConnectPrefaceLength\<close> bytes that start with a complete \<open>CONNECT\<close> line whose
  target is a host and an allowed port in decimal, where the host is allowed as a name or
  as an address; a host in brackets may contain colons, another one may not.  Bytes that do
  not start with \<open>CONNECT\<close> are passed on.  A verdict never changes when more bytes arrive, so
  it does not depend on how the bytes are cut into pieces, and it is given at the latest
  when the stream ends or the buffer is full.  The policy sees a host only up to the first
  NUL, whatever follows.
\<close>

theorem connect_inspection_exact:
  "(InspectHttpConnectPreface inet (Some bytes) eos policy = Inspect_kAllow \<longleftrightarrow>
     length bytes \<le> kMaximumHttpConnectPrefaceLength \<and> take 8 bytes = kConnectPrefix \<and>
     (\<exists>line rest host port. first_line (drop 8 bytes) = Some (line, rest) \<and> connect_target inet policy line host port)) \<and>
   (InspectHttpConnectPreface inet (Some bytes) eos policy = Inspect_kNotConnect \<longleftrightarrow>
     length bytes \<le> kMaximumHttpConnectPrefaceLength \<and>
     (take 8 bytes \<noteq> take (length bytes) kConnectPrefix \<or> eos \<and> length bytes < 8)) \<and>
   (length (bytes @ ys) \<le> kMaximumHttpConnectPrefaceLength \<longrightarrow>
     InspectHttpConnectPreface inet (Some bytes) False policy = verdict \<longrightarrow> verdict \<noteq> Inspect_kNeedMore \<longrightarrow>
     InspectHttpConnectPreface inet (Some (bytes @ ys)) eos policy = verdict) \<and>
   (eos \<or> length bytes = kMaximumHttpConnectPrefaceLength \<longrightarrow>
     InspectHttpConnectPreface inet (Some bytes) eos policy \<noteq> Inspect_kNeedMore) \<and>
   (host_allowed inet policy host \<longleftrightarrow> host_allowed inet policy (c_str host))"
  using Inspect_allow_iff Inspect_not_connect_iff Inspect_stable Inspect_decides host_allowed_c_str by (intro conjI impI) metis+

theorem connect_inspection_exact_witness:
  "InspectHttpConnectPreface example_inet (Some (example_request @ [1, 2])) True example_policy = Inspect_kAllow \<and>
   InspectHttpConnectPreface example_inet (Some [67]) True example_policy \<noteq> Inspect_kNeedMore \<and>
   InspectHttpConnectPreface example_inet (Some example_nul_request) False example_policy = Inspect_kAllow"
proof (intro conjI)
  have "length (example_request @ [1, 2]) \<le> kMaximumHttpConnectPrefaceLength"
    by (simp add: example_request_def kMaximumHttpConnectPrefaceLength_def)
  then show "InspectHttpConnectPreface example_inet (Some (example_request @ [1, 2])) True example_policy = Inspect_kAllow"
    using connect_inspection_exact [of example_inet example_request True example_policy "[1, 2]" Inspect_kAllow] example_allowed(1)
    by simp
  show "InspectHttpConnectPreface example_inet (Some [67]) True example_policy \<noteq> Inspect_kNeedMore"
    using connect_inspection_exact [of example_inet "[67]" True example_policy] by simp
qed (rule example_allowed(2))

end
