(* ===== verification/TcpRelay.thy ===== *)
theory TcpRelay
  imports HttpConnect "HOL-Library.Sublist"
begin

text \<open>
  \<open>src/native/hook/network/tcp_relay.cpp\<close>: the relay between a client and the upstream server.
  One round is what the sockets do from one call of \<open>select\<close> to the next; a run is given
  by a list of rounds, and its status is \<open>None\<close> while it waits for a round that is not in
  the list.  The result has the bytes that were sent to the upstream server and to the client.

  Shown: the relay is transparent in both directions, and as long as the upstream server is
  silent nothing is sent to it before the inspection of the client's bytes let them pass,
  however they are cut into pieces.
\<close>

section \<open>Definitions\<close>

type_synonym SOCKET = u64

abbreviation (input) INVALID_SOCKET :: SOCKET where "INVALID_SOCKET \<equiv> 0xFFFFFFFFFFFFFFFF"

datatype TcpRelayStatus =
    Relay_kCompleted
  | Relay_kInvalidSocket
  | Relay_kSelectFailed
  | Relay_kReadFailed
  | Relay_kWriteFailed
  | Relay_kShutdownFailed
  | Relay_kPolicyDenied

text \<open>
  Outcomes of the calls: \<open>select\<close> with the sockets that are readable, client first (none of them
  if it returns 0), \<open>recv\<close>, and \<open>send\<close>.  After the listed outcomes of \<open>send\<close> the rest is sent at once.
\<close>

datatype select_result = Select_ready bool bool | Select_interrupted | Select_failed
datatype recv_result = Recv_bytes bytes | Recv_closed | Recv_interrupted | Recv_failed
datatype send_result = Sent nat | Send_interrupted | Send_failed

record relay_round =
  rr_select :: select_result
  rr_recv_client :: recv_result
  rr_recv_upstream :: recv_result
  rr_send_client :: "send_result list"
  rr_send_upstream :: "send_result list"
  rr_shutdown_client :: bool
  rr_shutdown_upstream :: bool

type_synonym relay_result = "TcpRelayStatus option \<times> bytes \<times> bytes"

fun SendAll :: "send_result list \<Rightarrow> bytes \<Rightarrow> bool \<times> bytes" where
  "SendAll [] bytes = (True, bytes)"
| "SendAll (r # rs) bytes =
     (if bytes = [] then (True, [])
      else case r of
        Sent n \<Rightarrow> if n = 0 then (False, []) else let (ok, rest) = SendAll rs (drop n bytes) in (ok, take n bytes @ rest)
      | Send_interrupted \<Rightarrow> SendAll rs bytes
      | Send_failed \<Rightarrow> (False, []))"

text \<open>The status, whether the source is still open, and what was sent to the destination.\<close>

definition ForwardReadable :: "recv_result \<Rightarrow> send_result list \<Rightarrow> bool \<Rightarrow> TcpRelayStatus \<times> bool \<times> bytes" where
  "ForwardReadable received sends shutdown =
     (case received of
        Recv_bytes bytes \<Rightarrow>
          let (ok, sent) = SendAll sends bytes in (if ok then Relay_kCompleted else Relay_kWriteFailed, True, sent)
      | Recv_closed \<Rightarrow> (if shutdown then Relay_kCompleted else Relay_kShutdownFailed, False, [])
      | Recv_interrupted \<Rightarrow> (Relay_kCompleted, True, [])
      | Recv_failed \<Rightarrow> (Relay_kReadFailed, True, []))"

fun RelayLoop :: "bool \<Rightarrow> bool \<Rightarrow> relay_round list \<Rightarrow> relay_result" where
  "RelayLoop client_open upstream_open rounds =
     (if \<not> client_open \<and> \<not> upstream_open then (Some Relay_kCompleted, [], [])
      else case rounds of
        [] \<Rightarrow> (None, [], [])
      | r # rs \<Rightarrow>
          (case rr_select r of
             Select_interrupted \<Rightarrow> RelayLoop client_open upstream_open rs
           | Select_failed \<Rightarrow> (Some Relay_kSelectFailed, [], [])
           | Select_ready client upstream \<Rightarrow>
               let (status, client_open', up) =
                     (if client_open \<and> client
                      then ForwardReadable (rr_recv_client r) (rr_send_upstream r) (rr_shutdown_upstream r)
                      else (Relay_kCompleted, client_open, []))
               in if status \<noteq> Relay_kCompleted then (Some status, up, [])
               else
                 let (status, upstream_open', down) =
                       (if upstream_open \<and> upstream
                        then ForwardReadable (rr_recv_upstream r) (rr_send_client r) (rr_shutdown_client r)
                        else (Relay_kCompleted, upstream_open, []))
                 in if status \<noteq> Relay_kCompleted then (Some status, up, down)
                    else let (final, up', down') = RelayLoop client_open' upstream_open' rs in (final, up @ up', down @ down')))"

definition RelayTcpSockets :: "SOCKET \<Rightarrow> SOCKET \<Rightarrow> relay_round list \<Rightarrow> relay_result" where
  "RelayTcpSockets client upstream rounds =
     (if client = INVALID_SOCKET \<or> upstream = INVALID_SOCKET \<or> client = upstream
      then (Some Relay_kInvalidSocket, [], [])
      else RelayLoop True True rounds)"

text \<open>The loop that fills the preface.\<close>

fun PrefaceLoop ::
  "inet_pton \<Rightarrow> NetworkPolicy \<Rightarrow> SOCKET \<Rightarrow> SOCKET \<Rightarrow> bytes \<Rightarrow> relay_round list \<Rightarrow> relay_result"
where
  "PrefaceLoop inet policy client upstream preface [] = (None, [], [])"
| "PrefaceLoop inet policy client upstream preface (r # rs) =
     (case rr_select r of
        Select_interrupted \<Rightarrow> PrefaceLoop inet policy client upstream preface rs
      | Select_failed \<Rightarrow> (Some Relay_kSelectFailed, [], [])
      | Select_ready client_ready upstream_ready \<Rightarrow>
          if upstream_ready then RelayTcpSockets client upstream rs
          else if rr_recv_client r = Recv_interrupted then PrefaceLoop inet policy client upstream preface rs
          else if rr_recv_client r = Recv_failed then (Some Relay_kReadFailed, [], [])
          else
            let end_of_stream = (rr_recv_client r = Recv_closed);
                preface = preface @ (case rr_recv_client r of Recv_bytes bytes \<Rightarrow> bytes | _ \<Rightarrow> [])
            in case InspectHttpConnectPreface inet (Some preface) end_of_stream policy of
                 Inspect_kNeedMore \<Rightarrow> PrefaceLoop inet policy client upstream preface rs
               | Inspect_kDeny \<Rightarrow> (Some Relay_kPolicyDenied, [], [])
               | _ \<Rightarrow>
                   let (ok, sent) = (if preface \<noteq> [] then SendAll (rr_send_upstream r) preface else (True, []))
                   in if \<not> ok then (Some Relay_kWriteFailed, sent, [])
                      else if end_of_stream \<and> \<not> rr_shutdown_upstream r then (Some Relay_kShutdownFailed, sent, [])
                      else let (final, up, down) = RelayTcpSockets client upstream rs in (final, sent @ up, down))"

definition RelayTcpSocketsWithPolicy ::
  "inet_pton \<Rightarrow> SOCKET \<Rightarrow> SOCKET \<Rightarrow> NetworkPolicy \<Rightarrow> relay_round list \<Rightarrow> relay_result"
where
  "RelayTcpSocketsWithPolicy inet client upstream policy rounds =
     (if client = INVALID_SOCKET \<or> upstream = INVALID_SOCKET \<or> client = upstream
      then (Some Relay_kInvalidSocket, [], [])
      else PrefaceLoop inet policy client upstream [] rounds)"

subsection \<open>Specification\<close>

text \<open>What arrives from a side, up to the end of its stream.\<close>

fun incoming :: "(relay_round \<Rightarrow> bool) \<Rightarrow> (relay_round \<Rightarrow> recv_result) \<Rightarrow> relay_round list \<Rightarrow> bytes" where
  "incoming ready received [] = []"
| "incoming ready received (r # rs) =
     (if \<not> ready r then incoming ready received rs
      else case received r of
        Recv_bytes bytes \<Rightarrow> bytes @ incoming ready received rs
      | Recv_closed \<Rightarrow> []
      | _ \<Rightarrow> incoming ready received rs)"

definition client_ready :: "relay_round \<Rightarrow> bool" where
  "client_ready r = (case rr_select r of Select_ready client upstream \<Rightarrow> client | _ \<Rightarrow> False)"

definition upstream_ready :: "relay_round \<Rightarrow> bool" where
  "upstream_ready r = (case rr_select r of Select_ready client upstream \<Rightarrow> upstream | _ \<Rightarrow> False)"

definition from_client :: "relay_round list \<Rightarrow> bytes" where
  "from_client rounds = incoming client_ready rr_recv_client rounds"

definition from_upstream :: "relay_round list \<Rightarrow> bytes" where
  "from_upstream rounds = incoming upstream_ready rr_recv_upstream rounds"

text \<open>The client is readable whenever \<open>select\<close> returns and the upstream server is not.\<close>

definition client_only :: "relay_round list \<Rightarrow> bool" where
  "client_only rounds = list_all (\<lambda>r. case rr_select r of Select_ready client upstream \<Rightarrow> client \<and> \<not> upstream | _ \<Rightarrow> True) rounds"

text \<open>A stream that has ended does not start again.\<close>

fun stays_closed :: "relay_round list \<Rightarrow> bool" where
  "stays_closed [] = True"
| "stays_closed (r # rs) =
     ((client_ready r \<and> rr_recv_client r = Recv_closed \<longrightarrow> from_client rs = []) \<and> stays_closed rs)"

text \<open>The bytes may pass: a prefix of what the client sent was inspected and not denied.\<close>

definition may_pass :: "inet_pton \<Rightarrow> NetworkPolicy \<Rightarrow> bytes \<Rightarrow> bool" where
  "may_pass inet policy stream \<longleftrightarrow>
     (\<exists>x eos. prefix x stream \<and> (eos \<longrightarrow> x = stream) \<and>
        InspectHttpConnectPreface inet (Some x) eos policy \<in> {Inspect_kAllow, Inspect_kNotConnect})"

definition example_round :: "bytes \<Rightarrow> relay_round" where
  "example_round bytes = \<lparr>rr_select = Select_ready True False, rr_recv_client = Recv_bytes bytes, rr_recv_upstream = Recv_interrupted,
     rr_send_client = [], rr_send_upstream = [], rr_shutdown_client = True, rr_shutdown_upstream = True\<rparr>"

definition example_bad_request :: bytes where
  "example_bad_request = kConnectPrefix @ [chr_cr, chr_lf]"

section \<open>The transparent relay\<close>

lemma SendAll_prefix: "SendAll rs bytes = (ok, sent) \<Longrightarrow> prefix sent bytes \<and> (ok \<longrightarrow> sent = bytes)"
proof (induction rs bytes arbitrary: ok sent rule: SendAll.induct)
  case (2 r rs bytes)
  show ?case
  proof (cases "\<exists>n. r = Sent n \<and> n \<noteq> 0 \<and> bytes \<noteq> []")
    case True
    then obtain n where n: "r = Sent n" "n \<noteq> 0" "bytes \<noteq> []" by blast
    obtain ok' rest where rec: "SendAll rs (drop n bytes) = (ok', rest)" by fastforce
    have IH: "prefix rest (drop n bytes) \<and> (ok' \<longrightarrow> rest = drop n bytes)"
      using "2.IH"(1) [OF n(3,1,2) rec] .
    have out: "sent = take n bytes @ rest" "ok = ok'" using "2.prems" n rec by auto
    have "prefix (take n bytes @ rest) (take n bytes @ drop n bytes)" using IH by (simp only: same_prefix_prefix)
    then show ?thesis using out IH by auto
  next
    case False
    then show ?thesis using "2.prems" "2.IH"(2) by (auto split: if_splits send_result.splits)
  qed
qed auto

lemma ForwardReadable_cases:
  assumes "ForwardReadable received sends shutdown = (status, open', sent)"
  shows "case received of
      Recv_bytes bytes \<Rightarrow> prefix sent bytes \<and> open' \<and> (status = Relay_kCompleted \<longrightarrow> sent = bytes)
    | Recv_closed \<Rightarrow> sent = [] \<and> \<not> open'
    | _ \<Rightarrow> sent = [] \<and> open'"
  using assms by (auto simp: ForwardReadable_def dest: SendAll_prefix split: recv_result.splits prod.splits if_splits)

text \<open>One direction of a round: the bytes go ahead in front of what follows.\<close>

lemma direction_step:
  assumes f: "(if open \<and> ready r then ForwardReadable (received r) sends shutdown else (Relay_kCompleted, open, [])) = (status, open', sent)"
    and later: "status = Relay_kCompleted \<Longrightarrow> prefix out (if open' then incoming ready received rs else []) \<and>
      (complete \<longrightarrow> out = (if open' then incoming ready received rs else []))"
  shows "(status = Relay_kCompleted \<longrightarrow>
      prefix (sent @ out) (if open then incoming ready received (r # rs) else []) \<and>
      (complete \<longrightarrow> sent @ out = (if open then incoming ready received (r # rs) else []))) \<and>
    prefix sent (if open then incoming ready received (r # rs) else [])"
proof (cases "open \<and> ready r")
  case False
  then show ?thesis using f later by auto
next
  case True
  then have F: "ForwardReadable (received r) sends shutdown = (status, open', sent)" using f by simp
  show ?thesis using ForwardReadable_cases [OF F] later True by (cases "received r") (auto simp: prefix_order.trans)
qed

declare RelayLoop.simps [simp del]

lemma RelayLoop_transparent:
  "RelayLoop client_open upstream_open rounds = (status, up, down) \<Longrightarrow>
    prefix up (if client_open then from_client rounds else []) \<and>
    prefix down (if upstream_open then from_upstream rounds else []) \<and>
    (status = Some Relay_kCompleted \<longrightarrow>
      up = (if client_open then from_client rounds else []) \<and> down = (if upstream_open then from_upstream rounds else []))"
proof (induction rounds arbitrary: client_open upstream_open status up down)
  case Nil
  then show ?case by (auto simp: RelayLoop.simps from_client_def from_upstream_def split: if_splits)
next
  case (Cons r rs)
  show ?case
  proof (cases "client_open \<or> upstream_open")
    case False
    then show ?thesis using Cons.prems by (simp add: RelayLoop.simps)
  next
    case open': True
    have no: "\<not> (\<not> client_open \<and> \<not> upstream_open)" using open' by simp
    note step = RelayLoop.simps [of client_open upstream_open "r # rs", unfolded if_not_P [OF no] list.case]
    show ?thesis
    proof (cases "rr_select r")
      case Select_interrupted
      then have "\<not> client_ready r" "\<not> upstream_ready r" by (simp_all add: client_ready_def upstream_ready_def)
      then have same: "from_client (r # rs) = from_client rs" "from_upstream (r # rs) = from_upstream rs"
        by (simp_all add: from_client_def from_upstream_def)
      have "RelayLoop client_open upstream_open rs = (status, up, down)"
        using Cons.prems Select_interrupted unfolding step by simp
      from Cons.IH [OF this] show ?thesis unfolding same .
    next
      case Select_failed
      then show ?thesis using Cons.prems unfolding step by auto
    next
      case (Select_ready c u)
      have ready: "client_ready r = c" "upstream_ready r = u" using Select_ready by (simp_all add: client_ready_def upstream_ready_def)
      obtain st1 co up1 where f1: "(if client_open \<and> client_ready r then ForwardReadable (rr_recv_client r) (rr_send_upstream r)
          (rr_shutdown_upstream r) else (Relay_kCompleted, client_open, [])) = (st1, co, up1)" using prod_cases3 by blast
      obtain st2 uo down1 where f2: "(if upstream_open \<and> upstream_ready r then ForwardReadable (rr_recv_upstream r) (rr_send_client r)
          (rr_shutdown_client r) else (Relay_kCompleted, upstream_open, [])) = (st2, uo, down1)" using prod_cases3 by blast
      obtain st3 up2 down2 where rec: "RelayLoop co uo rs = (st3, up2, down2)" using prod_cases3 by blast
      have run: "RelayLoop client_open upstream_open (r # rs) =
          (if st1 \<noteq> Relay_kCompleted then (Some st1, up1, [])
           else if st2 \<noteq> Relay_kCompleted then (Some st2, up1, down1) else (st3, up1 @ up2, down1 @ down2))"
        unfolding step Select_ready select_result.case Let_def f1 [unfolded ready] f2 [unfolded ready] prod.case rec ..
      note IH = Cons.IH [OF rec, unfolded from_client_def from_upstream_def]
      have d1: "(st1 = Relay_kCompleted \<longrightarrow> prefix (up1 @ up2) (if client_open then from_client (r # rs) else []) \<and>
            (st3 = Some Relay_kCompleted \<longrightarrow> up1 @ up2 = (if client_open then from_client (r # rs) else []))) \<and>
          prefix up1 (if client_open then from_client (r # rs) else [])"
        unfolding from_client_def
        by (rule direction_step [where ready = client_ready and received = rr_recv_client, OF f1]) (use IH in blast)
      have d2: "(st2 = Relay_kCompleted \<longrightarrow> prefix (down1 @ down2) (if upstream_open then from_upstream (r # rs) else []) \<and>
            (st3 = Some Relay_kCompleted \<longrightarrow> down1 @ down2 = (if upstream_open then from_upstream (r # rs) else []))) \<and>
          prefix down1 (if upstream_open then from_upstream (r # rs) else [])"
        unfolding from_upstream_def
        by (rule direction_step [where ready = upstream_ready and received = rr_recv_upstream, OF f2]) (use IH in blast)
      show ?thesis
      proof (cases "st1 = Relay_kCompleted \<and> st2 = Relay_kCompleted")
        case True
        then have "status = st3" "up = up1 @ up2" "down = down1 @ down2" using Cons.prems unfolding run by simp_all
        then show ?thesis using d1 d2 True by blast
      next
        case False
        then have "status \<noteq> Some Relay_kCompleted" "up = up1" "down = [] \<or> down = down1"
          using Cons.prems unfolding run by (auto split: if_splits)
        then show ?thesis using d1 d2 by auto
      qed
    qed
  qed
qed

section \<open>The relay with inspection\<close>

lemma relay_up_prefix:
  "RelayTcpSockets client upstream rounds = (status, up, down) \<Longrightarrow> prefix up (from_client rounds)"
  using RelayLoop_transparent [of True True rounds] by (auto simp: RelayTcpSockets_def split: if_splits)

lemma from_client_Cons:
  "client_ready r \<Longrightarrow> from_client (r # rs) =
    (case rr_recv_client r of Recv_bytes bytes \<Rightarrow> bytes @ from_client rs | Recv_closed \<Rightarrow> [] | _ \<Rightarrow> from_client rs)"
  by (simp add: from_client_def split: recv_result.split)

lemma PrefaceLoop_inspected:
  assumes "client_only rounds" "stays_closed rounds" "PrefaceLoop inet policy client upstream preface rounds = (status, up, down)"
  shows "prefix up (preface @ from_client rounds) \<and> (up \<noteq> [] \<longrightarrow> may_pass inet policy (preface @ from_client rounds)) \<and>
    (up = [] \<longrightarrow> down = [] \<or> may_pass inet policy (preface @ from_client rounds))"
  using assms
proof (induction rounds arbitrary: preface)
  case Nil
  then show ?case by simp
next
  case (Cons r rs)
  have quiet: "client_only rs" "stays_closed rs" using Cons.prems(1,2) by (simp_all add: client_only_def)
  show ?case
  proof (cases "rr_select r")
    case Select_interrupted
    then have "from_client (r # rs) = from_client rs" by (simp add: from_client_def client_ready_def)
    then show ?thesis using Cons.IH [OF quiet] Cons.prems(3) Select_interrupted by simp
  next
    case Select_failed
    then show ?thesis using Cons.prems(3) by auto
  next
    case (Select_ready c u)
    then have ready: "client_ready r" "c" "\<not> u" using Cons.prems(1) by (auto simp: client_only_def client_ready_def)
    note from' = from_client_Cons [OF ready(1), of rs]
    show ?thesis
    proof (cases "rr_recv_client r \<in> {Recv_interrupted, Recv_failed}")
      case True
      then have same: "from_client (r # rs) = from_client rs" using from' by auto
      show ?thesis
      proof (cases "rr_recv_client r = Recv_interrupted")
        case intr: True
        then have "PrefaceLoop inet policy client upstream preface rs = (status, up, down)"
          using Cons.prems(3) Select_ready ready by simp
        from Cons.IH [OF quiet this] show ?thesis unfolding same .
      next
        case False
        then show ?thesis using True Cons.prems(3) Select_ready ready by auto
      qed
    next
      case False
      define eos where "eos = (rr_recv_client r = Recv_closed)"
      define x where "x = preface @ (case rr_recv_client r of Recv_bytes bytes \<Rightarrow> bytes | _ \<Rightarrow> [])"
      have stream: "preface @ from_client (r # rs) = (if eos then x else x @ from_client rs)"
        using False from' by (cases "rr_recv_client r") (auto simp: eos_def x_def)
      obtain ok sent where snt: "(if x \<noteq> [] then SendAll (rr_send_upstream r) x else (True, [])) = (ok, sent)" by fastforce
      have sent: "prefix sent x \<and> (ok \<longrightarrow> sent = x)" using snt SendAll_prefix by (auto split: if_splits)
      obtain fin up' down' where rel: "RelayTcpSockets client upstream rs = (fin, up', down')" using prod_cases3 by blast
      have run: "PrefaceLoop inet policy client upstream preface (r # rs) =
        (case InspectHttpConnectPreface inet (Some x) eos policy of
           Inspect_kNeedMore \<Rightarrow> PrefaceLoop inet policy client upstream x rs
         | Inspect_kDeny \<Rightarrow> (Some Relay_kPolicyDenied, [], [])
         | _ \<Rightarrow> if \<not> ok then (Some Relay_kWriteFailed, sent, [])
                else if eos \<and> \<not> rr_shutdown_upstream r then (Some Relay_kShutdownFailed, sent, [])
                else (fin, sent @ up', down'))"
        using False Select_ready ready unfolding PrefaceLoop.simps Let_def eos_def [symmetric] x_def [symmetric] snt prod.case rel
        by simp
      have closed: "eos \<Longrightarrow> from_client rs = []" using Cons.prems(2) ready by (simp add: eos_def)
      show ?thesis
      proof (cases "InspectHttpConnectPreface inet (Some x) eos policy")
        case Inspect_kNeedMore
        then have "\<not> eos" using Inspect_decides [of eos x inet policy] by blast
        then show ?thesis using Cons.IH [OF quiet, of x] Cons.prems(3) Inspect_kNeedMore run stream by simp
      next
        case Inspect_kDeny
        then show ?thesis using Cons.prems(3) run by simp
      next
        case pass: Inspect_kAllow
        then have may: "may_pass inet policy (preface @ from_client (r # rs))"
          unfolding may_pass_def stream by (intro exI [of _ x] exI [of _ eos]) auto
        have "prefix up (preface @ from_client (r # rs))"
          using Cons.prems(3) sent relay_up_prefix [OF rel] closed unfolding run pass stream
          by (auto split: if_splits intro: prefix_order.trans [of sent x])
        then show ?thesis using may by blast
      next
        case pass: Inspect_kNotConnect
        then have may: "may_pass inet policy (preface @ from_client (r # rs))"
          unfolding may_pass_def stream by (intro exI [of _ x] exI [of _ eos]) auto
        have "prefix up (preface @ from_client (r # rs))"
          using Cons.prems(3) sent relay_up_prefix [OF rel] closed unfolding run pass stream
          by (auto split: if_splits intro: prefix_order.trans [of sent x])
        then show ?thesis using may by blast
      qed
    qed
  qed
qed

lemma denied_not_may_pass:
  assumes "prefix x stream" "length x \<le> kMaximumHttpConnectPrefaceLength"
    and "InspectHttpConnectPreface inet (Some x) False policy = Inspect_kDeny"
  shows "\<not> may_pass inet policy stream"
proof
  assume "may_pass inet policy stream"
  then obtain y eos where y: "prefix y stream" "eos \<longrightarrow> y = stream"
    "InspectHttpConnectPreface inet (Some y) eos policy \<in> {Inspect_kAllow, Inspect_kNotConnect}"
    unfolding may_pass_def by blast
  have len: "length y \<le> kMaximumHttpConnectPrefaceLength"
    using y(3) Inspect_allow_iff [of inet y eos policy] Inspect_not_connect_iff [of inet y eos policy] by auto
  consider z where "y = x @ z" | z where "x = y @ z" "\<not> eos" | "x = y"
    using prefix_same_cases [OF assms(1) y(1)] y(2) assms(1) by (auto simp: prefix_def)
  then show False
  proof cases
    case 1
    then show False using Inspect_stable [OF _ assms(3), of z eos] len y(3) by auto
  next
    case 2
    then show False using Inspect_stable [of y z inet policy _ False] assms(2,3) y(3) by auto
  next
    case 3
    then show False using Inspect_stable [OF _ assms(3), of "[]" eos] len y(3) by auto
  qed
qed

lemma RelayTcpSockets_transparent:
  assumes "RelayTcpSockets client upstream rounds = (status, up, down)"
  shows "prefix up (from_client rounds) \<and> prefix down (from_upstream rounds) \<and>
    (status = Some Relay_kCompleted \<longrightarrow> up = from_client rounds \<and> down = from_upstream rounds)"
  using assms RelayLoop_transparent [of True True rounds status up down]
  by (auto simp: RelayTcpSockets_def split: if_splits)

section \<open>Properties\<close>

lemma example_bad_denied:
  "InspectHttpConnectPreface inet (Some example_bad_request) eos policy = Inspect_kDeny"
proof -
  have "InspectHttpConnectPreface inet (Some example_bad_request) eos policy = line_verdict inet policy []"
    by (rule Inspect_line [where rest = "[]"]) (simp_all add: example_bad_request_def kMaximumHttpConnectPrefaceLength_def)
  then show ?thesis by (simp add: line_verdict_def connect_target_def)
qed

text \<open>
  C4. The relay.  Without inspection it is transparent: what each side gets is a prefix of
  what the other one sent, and all of it when the relay completes.  With inspection, as long
  as only the client has sent something, the upstream server gets a prefix of the client's bytes
  and gets any only after a prefix of them was inspected and not denied; if the inspection
  denies some prefix that fits into the buffer, then nothing is sent in either direction, no matter in
  which pieces the bytes arrived.  But if the upstream server is readable before a verdict, the
  bytes of the client that were read so far are lost and all later ones pass without inspection.
\<close>

theorem relay_enforces_inspection:
  "(\<forall>status up down. RelayTcpSockets client upstream rounds = (status, up, down) \<longrightarrow>
      prefix up (from_client rounds) \<and> prefix down (from_upstream rounds) \<and>
      (status = Some Relay_kCompleted \<longrightarrow> up = from_client rounds \<and> down = from_upstream rounds)) \<and>
   (\<forall>status up down. client_only rounds \<and> stays_closed rounds \<and>
      RelayTcpSocketsWithPolicy inet client upstream policy rounds = (status, up, down) \<longrightarrow>
      prefix up (from_client rounds) \<and> (up \<noteq> [] \<longrightarrow> may_pass inet policy (from_client rounds)) \<and>
      (\<forall>x. prefix x (from_client rounds) \<and> length x \<le> kMaximumHttpConnectPrefaceLength \<and>
         InspectHttpConnectPreface inet (Some x) False policy = Inspect_kDeny \<longrightarrow> up = [] \<and> down = [])) \<and>
   (\<forall>preface r ready. rr_select r = Select_ready ready True \<longrightarrow>
      PrefaceLoop inet policy client upstream preface (r # rounds) = RelayTcpSockets client upstream rounds)"
proof (intro conjI allI impI)
  fix status up down
  assume a: "client_only rounds \<and> stays_closed rounds \<and>
    RelayTcpSocketsWithPolicy inet client upstream policy rounds = (status, up, down)"
  have i: "prefix up (from_client rounds) \<and> (up \<noteq> [] \<longrightarrow> may_pass inet policy (from_client rounds)) \<and>
      (up = [] \<longrightarrow> down = [] \<or> may_pass inet policy (from_client rounds))"
    using a PrefaceLoop_inspected [of rounds inet policy client upstream "[]" status up down]
    by (auto simp: RelayTcpSocketsWithPolicy_def split: if_splits)
  then show "prefix up (from_client rounds)" by blast
  show "may_pass inet policy (from_client rounds)" if "up \<noteq> []" using i that by blast
  fix x
  assume "prefix x (from_client rounds) \<and> length x \<le> kMaximumHttpConnectPrefaceLength \<and>
    InspectHttpConnectPreface inet (Some x) False policy = Inspect_kDeny"
  then have "\<not> may_pass inet policy (from_client rounds)" using denied_not_may_pass by blast
  then show "up = []" "down = []" using i by blast+
qed (use RelayTcpSockets_transparent in \<open>blast, blast, blast, blast, simp\<close>)

theorem relay_enforces_inspection_witness:
  "snd (RelayTcpSocketsWithPolicy example_inet 1 2 example_policy [example_round example_bad_request]) = ([], []) \<and>
   PrefaceLoop example_inet example_policy 1 2 (take 9 example_request)
     [(example_round [])\<lparr>rr_select := Select_ready False True\<rparr>, example_round example_bad_request] = (None, example_bad_request, [])"
proof -
  let ?rounds = "[example_round example_bad_request]"
  obtain status up down where run: "RelayTcpSocketsWithPolicy example_inet 1 2 example_policy ?rounds = (status, up, down)"
    using prod_cases3 by blast
  have r: "client_only ?rounds \<and> stays_closed ?rounds \<and>
      RelayTcpSocketsWithPolicy example_inet 1 2 example_policy ?rounds = (status, up, down)"
    using run by (simp add: client_only_def example_round_def from_client_def client_ready_def)
  have x: "prefix example_bad_request (from_client ?rounds) \<and> length example_bad_request \<le> kMaximumHttpConnectPrefaceLength \<and>
      InspectHttpConnectPreface example_inet (Some example_bad_request) False example_policy = Inspect_kDeny"
    by (simp add: example_bad_denied) (simp add: example_round_def from_client_def client_ready_def example_bad_request_def
        kMaximumHttpConnectPrefaceLength_def)
  note t = relay_enforces_inspection [of 1 2 ?rounds example_inet example_policy]
  have "up = [] \<and> down = []"
    using t [THEN conjunct2, THEN conjunct1, THEN spec, THEN spec, THEN spec, THEN mp, OF r,
        THEN conjunct2, THEN conjunct2, THEN spec, THEN mp, OF x] .
  moreover have "RelayTcpSockets 1 2 ?rounds = (None, example_bad_request, [])"
    by (simp add: RelayTcpSockets_def RelayLoop.simps example_round_def ForwardReadable_def)
  moreover have "PrefaceLoop example_inet example_policy 1 2 (take 9 example_request)
      ((example_round [])\<lparr>rr_select := Select_ready False True\<rparr> # ?rounds) = RelayTcpSockets 1 2 ?rounds"
    by (rule t [THEN conjunct2, THEN conjunct2, THEN spec, THEN spec, THEN spec [where x = False], THEN mp]) simp
  ultimately show ?thesis using run by simp
qed

end
