(* ===== verification/Spec2Isabelle.thy ===== *)
theory Spec2Isabelle
  imports EventFrame ProxyServer HandleAccessCache FilesystemDecisions RegistryPolicy RuntimePayload DigestRequests EventSink DnsRecords TcpRelay DnsChannel
begin

text \<open>
  This library verifies the native part of bolt-sandbox, the Windows code under
  \<open>src/native\<close>: the hook DLL that is injected into sandboxed processes, the proxy process through
  which they reach the network, and the messages by which launcher, hooks and proxy talk to each other.

  \<^bold>\<open>The program and the theories.\<close>

  \<^item> \<open>Prelude\<close> and \<open>Wire\<close>: bytes, C strings and buffers; the little-endian readers and writers every
    message is built from, with the locale \<open>wire_field\<close> of one field of a layout.
  \<^item> \<open>EventFrame\<close> (\<open>protocol/event_frame.cpp\<close>): the frames in which hooks report violations, with their
    CRC-32. Encoders on every branch, the language of accepted frames, detection of single-byte errors.
  \<^item> \<open>EventSink\<close> (\<open>hook/event_sink.cpp\<close>): the ring buffer between reporting threads and the writer
    thread, as an \<open>inductive\<close> step relation in which the threads interleave between critical sections. Nothing is lost
    silently, no wake-up is lost, and the writer drains the queue.
  \<^item> \<open>PolicyReader\<close>, \<open>PolicyPayload\<close> (\<open>protocol/policy_payload.cpp\<close>): the validator of the policy that is mapped
    into every process; it accepts exactly the serialisations of well-formed policies with a matching digest.
  \<^item> \<open>NetworkPolicy\<close>, \<open>FilesystemPolicy\<close>, \<open>FilesystemDecisions\<close>, \<open>RegistryPolicy\<close> (the \<open>*_policy.cpp\<close> of the hook
    directories): loading the three sections of the policy and deciding on domains, addresses, ports, paths and keys, each against a
    declarative specification. Filesystem decisions depend on the order of the rules only where depths repeat. \<open>AccessRules\<close> (\<open>access_classifier.cpp\<close>, \<open>safe_device.cpp\<close>) classifies requests to open files.
  \<^item> \<open>ProbeTable\<close>, \<open>HandleAccessCache\<close>, \<open>DecisionCache\<close> (\<open>handle_access_cache.cpp\<close>, \<open>policy_decision_cache.cpp\<close>): the
    linear-probing tables, instances of one locale \<open>probing\<close>, refine finite maps.
  \<^item> \<open>DnsBindings\<close> (\<open>dns_binding_table.cpp\<close>, \<open>socket_target_table.cpp\<close>): which process may connect where, and until when.
  \<^item> \<open>ProxyProtocol\<close>, \<open>ProxyServer\<close> (\<open>dns_proxy_protocol.cpp\<close>, \<open>tcp_proxy_protocol.cpp\<close>, \<open>dns_proxy_server.cpp\<close>,
    \<open>tcp_proxy_server.cpp\<close>, \<open>dns_proxy_session.cpp\<close>): the authenticated messages of the proxy and its decisions, composed into a
    transition system whose every connection is justified by the policy.
  \<^item> \<open>DnsChannel\<close> (\<open>dns_proxy_client.cpp\<close>, \<open>dns_proxy_client_channel.cpp\<close>, \<open>dns_proxy_handle_transport.cpp\<close>): the DNS client in a
    sandboxed process. In every conversation with the session loop of the proxy both ends expect the same number next and agree on what may be connected to.
  \<^item> \<open>DnsRecords\<close> (\<open>dns_record_parser.cpp\<close>, \<open>system_dns_resolver.cpp\<close>, \<open>bounded_dns_resolver.cpp\<close>): from the linked list of DNS
    records to addresses.
  \<^item> \<open>HttpConnect\<close>, \<open>TcpRelay\<close> (\<open>http_connect_policy.cpp\<close>, \<open>tcp_relay.cpp\<close>): the inspection of \<open>CONNECT\<close> requests and the relay
    that enforces it.
  \<^item> \<open>FixedCodecs\<close>, \<open>RuntimePayload\<close>, \<open>DigestRequests\<close> (the other files of \<open>protocol\<close>): the messages between launcher, hooks,
    proxy and workspace helper, all instances of the locale \<open>fixed_codec\<close> or of its variant with a digest.

  \<^bold>\<open>How the model corresponds to the code.\<close> Definitions keep the names of the functions and types they translate; a method
  \<open>f\<close> of a class \<open>C\<close> is \<open>C_f\<close>. A pointer with a length is an optional list of bytes, a NUL-terminated string an
  optional list that is read up to the first NUL, a structure a \<open>record\<close>, an enumeration a \<open>datatype\<close>, or its underlying word
  where the code compares or range-checks it. Machine integers have their width where they can wrap; lengths that the code has
  checked are natural numbers. State is passed explicitly, output parameters are components of the result, and every status
  the code returns is a branch of the model. A loop is a recursive function with a termination proof.

  \<^bold>\<open>What is a parameter.\<close> SHA-256 and HMAC-SHA-256, UTF-8 decoding, the upper-case table, path and handle queries of Windows,
  \<open>DnsQuery_A\<close>, \<open>InetPtonA\<close>, reads and writes on files and sockets, time. What the code relies on is a hypothesis of the
  theorem that needs it, with a witness in which concrete functions satisfy it. Memory allocation succeeds.

  \<^bold>\<open>Bounds and fuel.\<close> The walk over DNS records takes \<open>kMaximumRecords\<close> as its bound, which is all of them by the check the code
  makes first. Scripts of system calls (rounds of the relay, results of \<open>send\<close>) are finite lists; a relay whose script is used up
  has no status yet. The writer of the event sink needs at most 198 turns to drain a full queue.

  \<^bold>\<open>Not modelled.\<close> The detours themselves (\<open>file_hooks.cpp\<close>, \<open>network_hooks.cpp\<close>, \<open>process_hooks.cpp\<close>, \<open>registry_hooks.cpp\<close>,
  \<open>dllmain.cpp\<close>, \<open>winhttp_hooks.cpp\<close>, \<open>wininet_hooks.cpp\<close>) forward intercepted Windows calls: their effect is that of the original
  functions, on kernel objects the model does not have. The same holds for the launcher, for process creation, pipes, consoles, memory mappings and
  ACLs under \<open>common\<close>, for the sockets at the ends of a TCP proxy connection, for the entry point of the proxy, and for the adapters that only declare names for third-party code.
\<close>

end
